(* ===== verification/Prelude.thy ===== *)
theory Prelude
  imports Main "HOL-Library.Word" "HOL-Library.List_Lexorder"
begin

text \<open>
  Shared vocabulary of the development: the error codes of \<open>include/fastkv/error.h\<close>, the types
  and limits of \<open>include/fastkv/types.h\<close>, slices, the lexicographic key comparison that the
  B+tree, the cursor and the transaction layer all use, the binary-search loop that occurs three
  times in the sources, and generic lemmas on lists, options and machine words.

  A \<^verbatim>\<open>fastkv_slice_t\<close> is a pointer and a length. The only thing the code asks of the
  pointer is whether it is \<^verbatim>\<open>NULL\<close>, so a slice is an optional byte string: \<open>None\<close> is
  \<^verbatim>\<open>FASTKV_SLICE_NULL\<close>, \<open>Some bs\<close> a non-\<^verbatim>\<open>NULL\<close> pointer to the bytes \<open>bs\<close>
  (\<open>Some []\<close> is the non-\<^verbatim>\<open>NULL\<close> slice of length 0). Where the code reads only the bytes
  of a slice (keys are compared by length and \<^verbatim>\<open>memcmp\<close>) the model has the byte string.
\<close>

unbundle bit_operations_syntax

section \<open>Rule collections\<close>

named_theorems slice_simps \<open>normal forms of slices and slice copies\<close>
named_theorems bytes_simps \<open>encoding and decoding of machine integers\<close>
named_theorems key_order \<open>the C comparison expressed in the lexicographic order\<close>

section \<open>Types, limits and error codes\<close>

type_synonym byte = "8 word"
type_synonym bytes = "byte list"
type_synonym u16 = "16 word"
type_synonym u32 = "32 word"
type_synonym u64 = "64 word"
type_synonym fastkv_ts = u64
type_synonym slice = "bytes option"

datatype fastkv_err =
    FASTKV_OK
  | FASTKV_ERR_NOMEM
  | FASTKV_ERR_INVAL
  | FASTKV_ERR_IO
  | FASTKV_ERR_CORRUPT
  | FASTKV_ERR_FULL
  | FASTKV_ERR_NOTFOUND
  | FASTKV_ERR_KEYSIZE
  | FASTKV_ERR_VALSIZE
  | FASTKV_ERR_TXN_RO
  | FASTKV_ERR_TXN_CONFLICT
  | FASTKV_ERR_TXN_CLOSED
  | FASTKV_ERR_CURSOR_EOF

definition FASTKV_TS_INVALID :: fastkv_ts where
  "FASTKV_TS_INVALID = 0xFFFFFFFFFFFFFFFF"

definition FASTKV_TS_MAX :: fastkv_ts where
  "FASTKV_TS_MAX = 0xFFFFFFFFFFFFFFFF - 1"

definition FASTKV_MAX_KEY_LEN :: nat where
  "FASTKV_MAX_KEY_LEN = 4 * 1024"

definition FASTKV_MAX_VAL_LEN :: nat where
  "FASTKV_MAX_VAL_LEN = 64 * 1024 * 1024"

datatype fastkv_cursor_dir = FASTKV_CURSOR_FORWARD | FASTKV_CURSOR_BACKWARD

fun fastkv_strerror :: "fastkv_err \<Rightarrow> string" where
  "fastkv_strerror FASTKV_OK = ''OK''"
| "fastkv_strerror FASTKV_ERR_NOMEM = ''out of memory''"
| "fastkv_strerror FASTKV_ERR_INVAL = ''invalid argument''"
| "fastkv_strerror FASTKV_ERR_IO = ''I/O error''"
| "fastkv_strerror FASTKV_ERR_CORRUPT = ''data corruption''"
| "fastkv_strerror FASTKV_ERR_FULL = ''capacity full''"
| "fastkv_strerror FASTKV_ERR_NOTFOUND = ''key not found''"
| "fastkv_strerror FASTKV_ERR_KEYSIZE = ''key too large''"
| "fastkv_strerror FASTKV_ERR_VALSIZE = ''value too large''"
| "fastkv_strerror FASTKV_ERR_TXN_RO = ''write on read-only transaction''"
| "fastkv_strerror FASTKV_ERR_TXN_CONFLICT = ''write-write conflict''"
| "fastkv_strerror FASTKV_ERR_TXN_CLOSED = ''transaction already closed''"
| "fastkv_strerror FASTKV_ERR_CURSOR_EOF = ''cursor end of range''"

section \<open>Slices\<close>

abbreviation FASTKV_SLICE_NULL :: slice where
  "FASTKV_SLICE_NULL \<equiv> None"

fun slice_bytes :: "slice \<Rightarrow> bytes" where
  "slice_bytes None = []"
| "slice_bytes (Some bs) = bs"

abbreviation slice_len :: "slice \<Rightarrow> nat" where
  "slice_len s \<equiv> length (slice_bytes s)"

text \<open>
  \<^verbatim>\<open>slice_dup\<close> of \<open>ht.c\<close> and \<^verbatim>\<open>sdup\<close> of \<open>btree.c\<close>, when the allocation succeeds: a
  slice of length 0 is copied to the \<^verbatim>\<open>NULL\<close> slice, whatever its pointer was.
\<close>

fun slice_dup :: "slice \<Rightarrow> slice" where
  "slice_dup None = None"
| "slice_dup (Some []) = None"
| "slice_dup (Some (b # bs)) = Some (b # bs)"

lemma slice_dup_bytes [simp, slice_simps]: "slice_bytes (slice_dup s) = slice_bytes s"
  by (cases s rule: slice_dup.cases) simp_all

lemma slice_dup_idem [simp, slice_simps]: "slice_dup (slice_dup s) = slice_dup s"
  by (cases s rule: slice_dup.cases) simp_all

lemma slice_dup_None_iff [slice_simps]: "slice_dup s = None \<longleftrightarrow> slice_bytes s = []"
  by (cases s rule: slice_dup.cases) simp_all

lemma slice_dup_Some_ne [simp, slice_simps]: "bs \<noteq> [] \<Longrightarrow> slice_dup (Some bs) = Some bs"
  by (cases bs) simp_all

section \<open>The key comparison\<close>

text \<open>\<^verbatim>\<open>memcmp\<close> of the C library on two blocks of the same length: only the sign is specified.\<close>

fun memcmp :: "bytes \<Rightarrow> bytes \<Rightarrow> int" where
  "memcmp (x # xs) (y # ys) = (if x < y then -1 else if y < x then 1 else memcmp xs ys)"
| "memcmp _ _ = 0"

definition slice_eq :: "bytes \<Rightarrow> bytes \<Rightarrow> bool" where
  "slice_eq a b = (length a = length b \<and> memcmp a b = 0)"

text \<open>
  \<^verbatim>\<open>cmp\<close> of \<open>btree.c\<close> (and the inlined comparison of \<^verbatim>\<open>fastkv_cursor_seek\<close>): the common
  prefix by \<^verbatim>\<open>memcmp\<close>, then the lengths.
\<close>

definition cmp :: "bytes \<Rightarrow> bytes \<Rightarrow> int" where
  "cmp a b =
     (let n = (if length a < length b then length a else length b);
          r = memcmp (take n a) (take n b)
      in if r \<noteq> 0 then r
         else (if length a > length b then 1 else 0) - (if length a < length b then 1 else 0))"

lemma memcmp_eq_0: "length a = length b \<Longrightarrow> memcmp a b = 0 \<longleftrightarrow> a = b"
  by (induction a b rule: list_induct2) auto

lemma slice_eq_iff [simp, key_order]: "slice_eq a b \<longleftrightarrow> a = b"
  by (auto simp: slice_eq_def memcmp_eq_0)

lemma cmp_Nil [simp]: "cmp [] [] = 0" "cmp [] (y # ys) = -1" "cmp (x # xs) [] = 1"
  by (simp_all add: cmp_def)

lemma cmp_Cons [simp]:
  "cmp (x # xs) (y # ys) = (if x < y then -1 else if y < x then 1 else cmp xs ys)"
  by (simp add: cmp_def Let_def)

lemma cmp_sign: "(cmp a b < 0 \<longleftrightarrow> a < b) \<and> (cmp a b = 0 \<longleftrightarrow> a = b)"
proof (induction a arbitrary: b)
  case Nil
  show ?case by (cases b) simp_all
next
  case (Cons x xs)
  show ?case
  proof (cases b)
    case (Cons y ys)
    with Cons.IH [of ys] show ?thesis by auto
  qed simp
qed

lemma cmp_less_0 [simp, key_order]: "cmp a b < 0 \<longleftrightarrow> a < b"
  using cmp_sign by blast

lemma cmp_eq_0 [simp, key_order]: "cmp a b = 0 \<longleftrightarrow> a = b"
  using cmp_sign by blast

lemma cmp_le_0 [simp, key_order]: "cmp a b \<le> 0 \<longleftrightarrow> a \<le> b"
  using cmp_sign [of a b] by (auto simp: le_less)

lemma cmp_gt_0 [simp, key_order]: "0 < cmp a b \<longleftrightarrow> b < a"
  using cmp_sign [of a b] by (metis less_linear not_less_iff_gr_or_eq)

section \<open>Binary search\<close>

text \<open>
  The loop shared by \<^verbatim>\<open>leaf_lower\<close>, \<^verbatim>\<open>intr_child_idx\<close> and \<^verbatim>\<open>fastkv_cursor_seek\<close>:
  \<^verbatim>\<open>while (lo < hi) { mid = (lo + hi) / 2; if (P mid) lo = mid + 1; else hi = mid; }\<close>.
\<close>

function bsearch :: "(nat \<Rightarrow> bool) \<Rightarrow> nat \<Rightarrow> nat \<Rightarrow> nat" where
  "bsearch P lo hi =
     (if lo < hi
      then let mid = (lo + hi) div 2
           in if P mid then bsearch P (mid + 1) hi else bsearch P lo mid
      else lo)"
  by pat_completeness auto
termination
  by (relation "measure (\<lambda>(P, lo, hi). hi - lo)") auto

declare bsearch.simps [simp del]

lemma bsearch_bounds: "lo \<le> hi \<Longrightarrow> lo \<le> bsearch P lo hi \<and> bsearch P lo hi \<le> hi"
proof (induction P lo hi rule: bsearch.induct)
  case (1 P lo hi)
  show ?case
  proof (cases "lo < hi")
    case True
    let ?m = "(lo + hi) div 2"
    have m: "lo \<le> ?m" "?m < hi" using True by auto
    show ?thesis
    proof (cases "P ?m")
      case True': True
      have "?m + 1 \<le> bsearch P (?m + 1) hi \<and> bsearch P (?m + 1) hi \<le> hi"
        using "1.IH"(1) [OF True refl True'] m by simp
      with True True' m show ?thesis
        by (subst bsearch.simps, subst (2) bsearch.simps) (simp add: Let_def)
    next
      case False
      have "lo \<le> bsearch P lo ?m \<and> bsearch P lo ?m \<le> ?m"
        using "1.IH"(2) [OF True refl False] m by simp
      with True False m show ?thesis
        by (subst bsearch.simps, subst (2) bsearch.simps) (simp add: Let_def)
    qed
  next
    case False
    with "1.prems" show ?thesis unfolding bsearch.simps [of P lo hi] by simp
  qed
qed

text \<open>With a predicate that holds up to some index and fails from there on, that index is found.\<close>

lemma bsearch_threshold:
  assumes "\<And>i. i < n \<Longrightarrow> P i \<longleftrightarrow> i < t" "lo \<le> t" "t \<le> hi" "hi \<le> n"
  shows "bsearch P lo hi = t"
  using assms
proof (induction P lo hi rule: bsearch.induct)
  case (1 P lo hi)
  show ?case
  proof (cases "lo < hi")
    case True
    let ?m = "(lo + hi) div 2"
    have m: "lo \<le> ?m" "?m < hi" using True by auto
    then have Pm: "P ?m \<longleftrightarrow> ?m < t" using "1.prems" by simp
    show ?thesis
    proof (cases "P ?m")
      case True': True
      have "bsearch P (?m + 1) hi = t"
        using "1.IH"(1) [OF True refl True' "1.prems"(1)] "1.prems" Pm True' by simp
      with True True' show ?thesis by (subst bsearch.simps) (simp add: Let_def)
    next
      case False
      have "bsearch P lo ?m = t"
        using "1.IH"(2) [OF True refl False "1.prems"(1)] "1.prems" Pm False m by simp
      with True False show ?thesis by (subst bsearch.simps) (simp add: Let_def)
    qed
  next
    case False
    with "1.prems" show ?thesis by (subst bsearch.simps) simp
  qed
qed

text \<open>On a list sorted in the direction of the predicate, the search finds the length of its prefix.\<close>

lemma takeWhile_threshold:
  assumes "sorted_wrt (\<lambda>x y. P y \<longrightarrow> P x) xs" "i < length xs"
  shows "P (xs ! i) \<longleftrightarrow> i < length (takeWhile P xs)"
proof
  assume "P (xs ! i)"
  with assms show "i < length (takeWhile P xs)"
  proof (induction xs arbitrary: i)
    case (Cons x xs)
    have "P x" using Cons.prems by (cases i) auto
    with Cons show ?case by (cases i) auto
  qed simp
next
  assume "i < length (takeWhile P xs)"
  then show "P (xs ! i)" by (metis nth_mem set_takeWhileD takeWhile_nth)
qed

lemma bsearch_takeWhile:
  assumes "sorted_wrt (\<lambda>x y. P y \<longrightarrow> P x) xs"
  shows "bsearch (\<lambda>i. P (xs ! i)) 0 (length xs) = length (takeWhile P xs)"
  using takeWhile_threshold [OF assms] length_takeWhile_le
  by (intro bsearch_threshold [where n = "length xs"]) auto

lemma dropWhile_filter_sorted:
  assumes "sorted_wrt (\<lambda>x y. P y \<longrightarrow> P x) xs"
  shows "takeWhile P xs = filter P xs" "dropWhile P xs = filter (\<lambda>x. \<not> P x) xs"
  using assms by (induction xs) (auto simp: filter_empty_conv filter_id_conv)

lemma take_drop_takeWhile:
  "take (length (takeWhile P xs)) xs = takeWhile P xs" "drop (length (takeWhile P xs)) xs = dropWhile P xs"
  by (simp_all add: takeWhile_eq_take [symmetric] dropWhile_eq_drop)

end
