(* ===== verification/Bytes.thy ===== *)
theory Bytes
  imports Prelude
begin

text \<open>
  Machine integers in memory. The sources move integers to and from byte buffers with
  \<^verbatim>\<open>memcpy\<close>, that is in the byte order of the host (little endian on the supported x86-64 and
  arm64 targets), and \<open>persist/ttl.c\<close> has its own big-endian conversion for the expiry index.
\<close>

section \<open>Little-endian images\<close>

definition le_enc :: "nat \<Rightarrow> 'a::len word \<Rightarrow> bytes" where
  "le_enc n w = map (\<lambda>i. ucast (drop_bit (8 * i) w)) [0..<n]"

fun le_dec :: "bytes \<Rightarrow> 'a::len word" where
  "le_dec [] = 0"
| "le_dec (b # bs) = ucast b OR push_bit 8 (le_dec bs)"

abbreviation le16 :: "u16 \<Rightarrow> bytes" where "le16 \<equiv> le_enc 2"
abbreviation le32 :: "u32 \<Rightarrow> bytes" where "le32 \<equiv> le_enc 4"
abbreviation le64 :: "u64 \<Rightarrow> bytes" where "le64 \<equiv> le_enc 8"

lemma length_le_enc [simp]: "length (le_enc n w) = n"
  by (simp add: le_enc_def)

lemma le_enc_Suc: "le_enc (Suc n) w = ucast w # le_enc n (drop_bit 8 w)"
  by (simp add: le_enc_def upt_conv_Cons map_Suc_upt [symmetric] drop_bit_drop_bit comp_def
      add.commute del: upt_Suc map_Suc_upt)

lemma bit_le_dec:
  "bit (le_dec bs :: 'a::len word) i \<longleftrightarrow>
     i < LENGTH('a) \<and> i < 8 * length bs \<and> bit (bs ! (i div 8)) (i mod 8)"
proof (induction bs arbitrary: i)
  case Nil
  show ?case by simp
next
  case (Cons b bs)
  show ?case
  proof (cases "i < 8")
    case True
    then show ?thesis by (auto simp: bit_simps)
  next
    case False
    then obtain j where j: "i = j + 8" by (metis le_add_diff_inverse2 not_less)
    have "(j + 8) div 8 = Suc (j div 8)" by simp
    with j show ?thesis
      using Cons.IH [of j] bit_imp_le_length [of b i] by (auto simp: bit_simps)
  qed
qed

lemma bit_le_enc:
  "i < n \<Longrightarrow> bit (le_enc n w ! i) j \<longleftrightarrow> j < 8 \<and> bit w (8 * i + j)"
  by (auto simp: le_enc_def bit_simps dest: bit_imp_le_length)

lemma le_dec_enc:
  assumes "LENGTH('a) \<le> 8 * n"
  shows "le_dec (le_enc n w) = (w :: 'a::len word)"
proof (rule bit_word_eqI)
  fix i assume i: "i < LENGTH('a)"
  then have "i div 8 < n" using assms by simp
  with i assms show "bit (le_dec (le_enc n w) :: 'a word) i = bit w i"
    by (simp add: bit_le_dec bit_le_enc)
qed

lemma le_enc_dec:
  assumes "length bs = n" "8 * n \<le> LENGTH('a)"
  shows "le_enc n (le_dec bs :: 'a::len word) = bs"
proof (rule nth_equalityI)
  fix i assume "i < length (le_enc n (le_dec bs :: 'a word))"
  then have i: "i < n" by simp
  show "le_enc n (le_dec bs :: 'a word) ! i = bs ! i"
  proof (rule bit_word_eqI)
    fix j assume j: "j < LENGTH(8)"
    then have "8 * i + j < 8 * n" using i by simp
    with i j assms show "bit (le_enc n (le_dec bs :: 'a word) ! i) j = bit (bs ! i) j"
      by (simp add: bit_le_enc bit_le_dec)
  qed
qed (use assms in simp)

lemma le_dec_le [simp, bytes_simps]:
  "le_dec (le16 w16) = w16" "le_dec (le32 w32) = w32" "le_dec (le64 w64) = w64"
  by (simp_all add: le_dec_enc)

lemma le_inject [simp, bytes_simps]:
  "le16 a16 = le16 b16 \<longleftrightarrow> a16 = b16" "le32 a32 = le32 b32 \<longleftrightarrow> a32 = b32"
  "le64 a64 = le64 b64 \<longleftrightarrow> a64 = b64"
  by (metis le_dec_le)+

section \<open>Big-endian images (\<open>ttl.c\<close>)\<close>

text \<open>
  \<^verbatim>\<open>u64_to_be\<close> fills \<^verbatim>\<open>out[7]\<close> down to \<^verbatim>\<open>out[0]\<close>, shifting the value right by one
  byte each time; \<open>be_loop n v\<close> is the contents of \<^verbatim>\<open>out[0..n-1]\<close> when \<open>n\<close> bytes are left.
\<close>

fun be_loop :: "nat \<Rightarrow> u64 \<Rightarrow> bytes" where
  "be_loop 0 v = []"
| "be_loop (Suc n) v = be_loop n (drop_bit 8 v) @ [ucast (v AND 0xff)]"

definition u64_to_be :: "u64 \<Rightarrow> bytes" where
  "u64_to_be v = be_loop 8 v"

definition be_to_u64 :: "bytes \<Rightarrow> u64" where
  "be_to_u64 buf = foldl (\<lambda>v i. push_bit 8 v OR ucast (buf ! i)) 0 [0..<8]"

lemma length_be_loop [simp]: "length (be_loop n v) = n"
  by (induction n arbitrary: v) simp_all

lemma length_u64_to_be [simp]: "length (u64_to_be v) = 8"
  by (simp add: u64_to_be_def)

lemma mask8_ucast: "(ucast ((v::u64) AND 0xff) :: byte) = ucast v"
proof -
  have "(0xff :: u64) = mask 8" by (simp add: mask_eq_exp_minus_1)
  then have "v AND 0xff = take_bit 8 v" by (simp only: take_bit_eq_mask)
  then show ?thesis by (auto intro!: bit_word_eqI simp: bit_simps)
qed

lemma be_loop_le: "be_loop n v = rev (le_enc n v)"
  by (induction n arbitrary: v) (simp_all add: le_enc_Suc mask8_ucast, simp add: le_enc_def)

lemma foldl_be: "foldl (\<lambda>v b. push_bit 8 v OR ucast b) 0 bs = (le_dec (rev bs) :: u64)"
  by (induction bs rule: rev_induct) (simp_all add: or.commute)

lemma be_to_u64_eq: "length buf = 8 \<Longrightarrow> be_to_u64 buf = le_dec (rev buf)"
proof -
  assume "length buf = 8"
  then have "map ((!) buf) [0..<8] = buf" by (metis map_nth)
  moreover have "be_to_u64 buf = foldl (\<lambda>v b. push_bit 8 v OR ucast b) 0 (map ((!) buf) [0..<8])"
    by (simp add: be_to_u64_def foldl_map)
  ultimately show ?thesis by (simp add: foldl_be)
qed

lemma be_roundtrip [simp, bytes_simps]: "be_to_u64 (u64_to_be v) = v"
  by (simp add: be_to_u64_eq) (simp add: u64_to_be_def be_loop_le)

text \<open>Only the first eight bytes of the buffer are read.\<close>

lemma be_to_u64_append [simp, bytes_simps]: "be_to_u64 (u64_to_be v @ xs) = v"
proof -
  have "foldl (\<lambda>w i. push_bit 8 w OR ucast ((u64_to_be v @ xs) ! i)) (0::u64) [0..<8]
      = foldl (\<lambda>w i. push_bit 8 w OR ucast (u64_to_be v ! i)) 0 [0..<8]"
    by (rule foldl_cong) (simp_all add: nth_append)
  then show ?thesis using be_roundtrip [of v] by (simp add: be_to_u64_def)
qed

text \<open>
  The point of the big-endian image: the lexicographic order of the images is the numeric order
  of the values, so an index keyed by it is sorted by expiry time.
\<close>

fun be_val :: "bytes \<Rightarrow> nat" where
  "be_val [] = 0"
| "be_val (b # bs) = unat b * 256 ^ length bs + be_val bs"

lemma be_val_append: "be_val (xs @ ys) = be_val xs * 256 ^ length ys + be_val ys"
  by (induction xs) (simp_all add: power_add algebra_simps)

lemma be_val_bound: "be_val bs < 256 ^ length bs"
proof (induction bs)
  case (Cons b bs)
  have "unat b < 256" using unsigned_less [of b] by simp
  then have "unat b * 256 ^ length bs + be_val bs < unat b * 256 ^ length bs + 256 ^ length bs"
    using Cons.IH by simp
  also have "\<dots> = Suc (unat b) * 256 ^ length bs" by simp
  also have "\<dots> \<le> 256 * 256 ^ length bs"
    using \<open>unat b < 256\<close> by (intro mult_le_mono1) simp
  finally show ?case by simp
qed simp

lemma be_val_less:
  "length a = length b \<Longrightarrow> be_val a < be_val b \<longleftrightarrow> a < b"
proof (induction a b rule: list_induct2)
  case (Cons x xs y ys)
  let ?p = "256 ^ length ys :: nat"
  have bx: "be_val xs < ?p" and by': "be_val ys < ?p"
    using be_val_bound [of xs] be_val_bound [of ys] Cons.hyps by simp_all
  have *: "a * ?p + be_val u < b * ?p + be_val w" if "a < b" "be_val u < ?p" for a b :: nat and u w
  proof -
    have "a * ?p + be_val u < Suc a * ?p" using that by simp
    also have "\<dots> \<le> b * ?p" using that by (intro mult_le_mono1) simp
    finally show ?thesis by simp
  qed
  consider "x < y" | "y < x" | "x = y" by (rule linorder_cases)
  then show ?case
  proof cases
    case 1
    then show ?thesis using *[of "unat x" "unat y" xs ys] bx Cons.hyps by (simp add: word_less_nat_alt)
  next
    case 2
    then show ?thesis using *[of "unat y" "unat x" ys xs] by' Cons.hyps by (auto simp: word_less_nat_alt)
  next
    case 3
    then show ?thesis using Cons by simp
  qed
qed simp

lemma or_shift_plus: "push_bit 8 (v::u64) OR ucast (b::byte) = push_bit 8 v + ucast b"
  by (rule disjunctive_add_eq_or [symmetric], rule bit_word_eqI)
     (auto simp: bit_simps dest: bit_imp_le_length)

lemma unat_foldl_be:
  "length bs \<le> 8 \<Longrightarrow> unat (foldl (\<lambda>v b. push_bit 8 v OR ucast b) 0 bs :: u64) = be_val bs"
proof (induction bs rule: rev_induct)
  case (snoc b bs)
  let ?v = "foldl (\<lambda>v b. push_bit 8 v OR ucast b) 0 bs :: u64"
  have IH: "unat ?v = be_val bs" using snoc by simp
  have ub: "unat (ucast b :: u64) = unat b" by (simp add: unsigned_ucast_eq take_bit_nat_eq_self_iff order_less_le_trans [OF unsigned_less])
  have "be_val (bs @ [b]) < 256 ^ length (bs @ [b])" by (rule be_val_bound)
  also have "\<dots> \<le> 256 ^ 8" using snoc.prems by (intro power_increasing) simp_all
  finally have lt: "be_val bs * 256 + unat b < 2 ^ 64" by (simp add: be_val_append)
  have "push_bit 8 ?v = ?v * 256" by (simp add: push_bit_eq_mult)
  then have "unat (push_bit 8 ?v + ucast b) = (unat ?v * 256 + unat b) mod 2 ^ 64"
    by (simp add: unat_word_ariths ub mod_simps)
  with lt IH show ?case by (simp add: or_shift_plus be_val_append)
qed simp

lemma u64_to_be_less: "u64_to_be a < u64_to_be b \<longleftrightarrow> a < b"
proof -
  have "be_val (u64_to_be v) = unat v" for v
    using unat_foldl_be [of "u64_to_be v"] be_roundtrip [of v]
    unfolding be_to_u64_eq [OF length_u64_to_be] foldl_be by simp
  then show ?thesis
    using be_val_less [of "u64_to_be a" "u64_to_be b"] by (simp add: word_less_nat_alt)
qed

lemma u64_to_be_inject [simp, bytes_simps]: "u64_to_be a = u64_to_be b \<longleftrightarrow> a = b"
  by (metis be_roundtrip)

lemma lex_less_append_same_length:
  "length a = length c \<Longrightarrow> (a @ b :: bytes) < c @ d \<longleftrightarrow> a < c \<or> (a = c \<and> b < d)"
  by (induction a c rule: list_induct2) auto

end
