(* ===== verification/Hash.thy ===== *)
theory Hash
  imports Bytes
begin

text \<open>
  \<open>util/hash.c\<close>: the 64-bit wyhash that spreads keys over the buckets of the hashtable. The code
  reads four or eight bytes at computed offsets of the key; a read is modelled by an operation that
  is \<open>None\<close> when it leaves the key, so that memory safety of the routine is the statement that it
  always returns \<open>Some\<close>.
\<close>

section \<open>Model\<close>

definition wymix :: "u64 \<Rightarrow> u64 \<Rightarrow> u64" where
  "wymix a b = (let r = (ucast a :: 128 word) * ucast b in ucast (r XOR drop_bit 64 r))"

definition wyr8 :: "bytes \<Rightarrow> nat \<Rightarrow> u64 option" where
  "wyr8 p off = (if off + 8 \<le> length p then Some (le_dec (take 8 (drop off p))) else None)"

definition wyr4 :: "bytes \<Rightarrow> nat \<Rightarrow> u64 option" where
  "wyr4 p off =
     (if off + 4 \<le> length p then Some (ucast (le_dec (take 4 (drop off p)) :: u32)) else None)"

definition wyr1 :: "bytes \<Rightarrow> nat \<Rightarrow> u64 option" where
  "wyr1 p off = (if off < length p then Some (ucast (p ! off)) else None)"

text \<open>The \<^verbatim>\<open>do ... while (i > 48)\<close> loop; \<open>off\<close> is how far \<^verbatim>\<open>p\<close> has advanced.\<close>

function hash_loop48 ::
  "bytes \<Rightarrow> nat \<Rightarrow> nat \<Rightarrow> u64 \<Rightarrow> u64 \<Rightarrow> u64 \<Rightarrow> (nat \<times> nat \<times> u64 \<times> u64 \<times> u64) option" where
  "hash_loop48 p off i seed s1 s2 =
     (case (wyr8 p off, wyr8 p (off + 8), wyr8 p (off + 16), wyr8 p (off + 24),
            wyr8 p (off + 32), wyr8 p (off + 40)) of
        (Some r0, Some r1, Some r2, Some r3, Some r4, Some r5) \<Rightarrow>
          let seed' = wymix (r0 XOR 0xe7037ed1a0b428db) (r1 XOR seed);
              s1' = wymix (r2 XOR 0x8ebc6af09c88c6e3) (r3 XOR s1);
              s2' = wymix (r4 XOR 0x589965cc75374cc3) (r5 XOR s2);
              i' = i - 48
          in if i' > 48 then hash_loop48 p (off + 48) i' seed' s1' s2'
             else Some (off + 48, i', seed', s1', s2')
      | _ \<Rightarrow> None)"
  by pat_completeness auto
termination
  by (relation "measure (\<lambda>(p, off, i, seed, s1, s2). i)") auto

function hash_loop16 :: "bytes \<Rightarrow> nat \<Rightarrow> nat \<Rightarrow> u64 \<Rightarrow> (nat \<times> nat \<times> u64) option" where
  "hash_loop16 p off i seed =
     (if i > 16
      then case (wyr8 p off, wyr8 p (off + 8)) of
             (Some r0, Some r1) \<Rightarrow>
               hash_loop16 p (off + 16) (i - 16) (wymix (r0 XOR 0xe7037ed1a0b428db) (r1 XOR seed))
           | _ \<Rightarrow> None
      else Some (off, i, seed))"
  by pat_completeness auto
termination
  by (relation "measure (\<lambda>(p, off, i, seed). i)") auto

declare hash_loop48.simps [simp del] hash_loop16.simps [simp del]

text \<open>The words \<open>a\<close>, \<open>b\<close> and the seed that the final mix combines.\<close>

definition hash_words :: "bytes \<Rightarrow> u64 \<Rightarrow> (u64 \<times> u64 \<times> u64) option" where
  "hash_words p seed =
     (let len = length p in
      if len \<le> 16 then
        if len \<ge> 4 then
          case (wyr4 p 0, wyr4 p (4 * (len div 8)),
                wyr4 p (len - 4), wyr4 p (len - 4 - 4 * (len div 8))) of
            (Some a1, Some a2, Some b1, Some b2) \<Rightarrow>
              Some (push_bit 32 a1 OR a2, push_bit 32 b1 OR b2, seed)
          | _ \<Rightarrow> None
        else if len > 0 then
          case (wyr1 p 0, wyr1 p (len div 2), wyr1 p (len - 1)) of
            (Some c0, Some c1, Some c2) \<Rightarrow> Some (push_bit 16 c0 OR push_bit 8 c1 OR c2, 0, seed)
          | _ \<Rightarrow> None
        else Some (0, 0, seed)
      else
        case (if len > 48
              then map_option (\<lambda>(off, i, sd, s1, s2). (off, i, sd XOR (s1 XOR s2)))
                     (hash_loop48 p 0 len seed seed seed)
              else Some (0, len, seed)) of
          None \<Rightarrow> None
        | Some (off, i, sd) \<Rightarrow>
            (case hash_loop16 p off i sd of
               None \<Rightarrow> None
             | Some (off', i', sd') \<Rightarrow>
                 (case (wyr8 p (off' + i' - 16), wyr8 p (off' + i' - 8)) of
                    (Some a, Some b) \<Rightarrow> Some (a, b, sd')
                  | _ \<Rightarrow> None)))"

definition fastkv_hash64 :: "bytes \<Rightarrow> u64 \<Rightarrow> u64 option" where
  "fastkv_hash64 key seed =
     map_option (\<lambda>(a, b, sd).
         wymix (0xa0761d6478bd642f XOR of_nat (length key))
               (wymix (a XOR 0xe7037ed1a0b428db) (b XOR sd)))
       (hash_words key (seed XOR 0xa0761d6478bd642f))"

text \<open>The zero-seed variant the hashtable calls; by \<open>hash64_total\<close> below it is never the default.\<close>

definition fastkv_hash :: "bytes \<Rightarrow> u64" where
  "fastkv_hash key = (case fastkv_hash64 key 0 of Some h \<Rightarrow> h | None \<Rightarrow> 0)"

section \<open>Every read is inside the key\<close>

lemma wyr_in [simp]:
  "off + 8 \<le> length p \<Longrightarrow> \<exists>w. wyr8 p off = Some w"
  "off + 4 \<le> length p \<Longrightarrow> \<exists>w. wyr4 p off = Some w"
  "off < length p \<Longrightarrow> \<exists>w. wyr1 p off = Some w"
  by (simp_all add: wyr8_def wyr4_def wyr1_def)

lemma hash_loop48_total:
  assumes "off + i = length p" "48 < i"
  shows "\<exists>off' i' sd s1' s2'. hash_loop48 p off i seed s1 s2 = Some (off', i', sd, s1', s2') \<and>
           off' + i' = length p \<and> 0 < i' \<and> 16 \<le> off'"
  using assms
proof (induction p off i seed s1 s2 rule: hash_loop48.induct)
  case (1 p off i seed s1 s2)
  have "off + 48 \<le> length p" using "1.prems" by simp
  then obtain r0 r1 r2 r3 r4 r5 where r: "wyr8 p off = Some r0" "wyr8 p (off + 8) = Some r1"
      "wyr8 p (off + 16) = Some r2" "wyr8 p (off + 24) = Some r3"
      "wyr8 p (off + 32) = Some r4" "wyr8 p (off + 40) = Some r5"
    by (simp add: wyr8_def)
  show ?case
  proof (cases "i - 48 > 48")
    case True
    then show ?thesis
      using "1.IH" [OF refl r(1) refl r(2) refl r(3) refl r(4) refl r(5,6) refl refl refl refl True] "1.prems"
      by (simp add: hash_loop48.simps [of p off i seed s1 s2] r Let_def)
  next
    case False
    then show ?thesis using "1.prems"
      by (simp add: hash_loop48.simps [of p off i seed s1 s2] r Let_def)
  qed
qed

lemma hash_loop16_total:
  assumes "off + i = length p" "0 < i" "16 < i \<or> 16 \<le> off"
  shows "\<exists>off' i' sd. hash_loop16 p off i seed = Some (off', i', sd) \<and>
           off' + i' = length p \<and> 16 \<le> off' \<and> 0 < i'"
  using assms
proof (induction p off i seed rule: hash_loop16.induct)
  case (1 p off i seed)
  show ?case
  proof (cases "i > 16")
    case True
    then obtain r0 r1 where r: "wyr8 p off = Some r0" "wyr8 p (off + 8) = Some r1"
      using "1.prems" by (simp add: wyr8_def)
    show ?thesis
      using "1.IH" [OF True refl r] "1.prems" True
      by (simp add: hash_loop16.simps [of p off i seed] r)
  next
    case False
    then show ?thesis using "1.prems" by (simp add: hash_loop16.simps [of p off i seed])
  qed
qed

lemma hash_words_total: "\<exists>w. hash_words p seed = Some w"
proof -
  consider "length p = 0" | "0 < length p" "length p < 4" | "4 \<le> length p" "length p \<le> 16"
    | "16 < length p" "length p \<le> 48" | "48 < length p" by linarith
  then show ?thesis
  proof cases
    case 2
    then show ?thesis by (simp add: hash_words_def wyr1_def Let_def)
  next
    case 3
    then have "4 * (length p div 8) + 4 \<le> length p" by presburger
    with 3 show ?thesis by (simp add: hash_words_def wyr4_def Let_def)
  next
    case 4
    then have "0 < length p" by linarith
    with 4 obtain off i sd where "hash_loop16 p 0 (length p) seed = Some (off, i, sd)"
        "off + i = length p" "16 \<le> off"
      using hash_loop16_total [of 0 "length p" p seed] by auto
    with 4 show ?thesis by (simp add: hash_words_def Let_def wyr8_def)
  next
    case 5
    then obtain off i sd s1 s2 where l: "hash_loop48 p 0 (length p) seed seed seed = Some (off, i, sd, s1, s2)"
        "off + i = length p" "0 < i" "16 \<le> off"
      using hash_loop48_total [of 0 "length p" p seed seed seed] by auto
    with 5 show ?thesis
      using hash_loop16_total [of off i p "sd XOR (s1 XOR s2)"]
      by (auto simp: hash_words_def Let_def wyr8_def)
  qed (simp add: hash_words_def)
qed

text \<open>
  For every key and seed \<^verbatim>\<open>fastkv_hash64\<close> returns
  a hash: all its loops end and no four- or eight-byte read leaves the key buffer, for keys of any
  length (the empty key, the 1-3, 4-16, 17-48 and longer branches).
\<close>

lemma hash64_total: "\<exists>h. fastkv_hash64 key seed = Some h"
  using hash_words_total by (auto simp: fastkv_hash64_def)

end
