(* ===== verification/Hashtable.thy ===== *)
theory Hashtable
  imports Hash "HOL-Library.Multiset"
begin

text \<open>
  \<open>storage/hashtable/ht.c\<close>: the primary index, a table of buckets each holding one chain of MVCC
  versions (of all keys that hash to the bucket). A chain is a list, head first; the \<^verbatim>\<open>next\<close>
  pointers are the list structure. What the C code asks of its environment in
  \<^verbatim>\<open>ht_insert_version\<close> is an explicit argument: whether each of the three allocations
  succeeds and how many times the weak compare-and-swap fails before it succeeds.
\<close>

section \<open>Model\<close>

record version =
  begin_ts :: fastkv_ts
  end_ts :: fastkv_ts
  vkey :: bytes
  vvalue :: slice

record ht =
  buckets :: "version list list"
  capacity :: nat
  num_keys :: u64
  num_versions :: u64

record ht_env =
  nv_ok :: bool
  key_ok :: bool
  val_ok :: bool
  cas_fails :: nat

definition mem_ok :: ht_env where
  "mem_ok = \<lparr>nv_ok = True, key_ok = True, val_ok = True, cas_fails = 0\<rparr>"

definition bucket_idx :: "ht \<Rightarrow> bytes \<Rightarrow> nat" where
  "bucket_idx h key = unat (fastkv_hash key AND (of_nat (capacity h) - 1))"

text \<open>
  \<^verbatim>\<open>fastkv_ht_create\<close>: \<open>None\<close> is the failing \<^verbatim>\<open>assert\<close>; the two flags say whether the two
  allocations succeed.
\<close>

definition fastkv_ht_create :: "bool \<Rightarrow> bool \<Rightarrow> nat \<Rightarrow> (fastkv_err + ht) option" where
  "fastkv_ht_create h_ok buckets_ok initial_capacity =
     (if \<not> (initial_capacity > 0 \<and> (of_nat initial_capacity AND (of_nat initial_capacity - 1) :: u64) = 0)
      then None
      else if \<not> h_ok then Some (Inl FASTKV_ERR_NOMEM)
      else if \<not> buckets_ok then Some (Inl FASTKV_ERR_NOMEM)
      else Some (Inr \<lparr>buckets = replicate initial_capacity [], capacity = initial_capacity,
                      num_keys = 0, num_versions = 0\<rparr>))"

text \<open>The chain walk of \<^verbatim>\<open>fastkv_ht_get\<close>; \<open>Inr\<close> is \<^verbatim>\<open>FASTKV_OK\<close> with \<^verbatim>\<open>*value_out\<close> set.\<close>

fun chain_get :: "version list \<Rightarrow> fastkv_ts \<Rightarrow> bytes \<Rightarrow> fastkv_err + bytes" where
  "chain_get [] snapshot_ts key = Inl FASTKV_ERR_NOTFOUND"
| "chain_get (v # vs) snapshot_ts key =
     (if slice_eq (vkey v) key \<and> begin_ts v \<le> snapshot_ts \<and> snapshot_ts < end_ts v
      then (case vvalue v of None \<Rightarrow> Inl FASTKV_ERR_NOTFOUND | Some bs \<Rightarrow> Inr bs)
      else chain_get vs snapshot_ts key)"

definition fastkv_ht_get :: "ht \<Rightarrow> fastkv_ts \<Rightarrow> bytes \<Rightarrow> fastkv_err + bytes" where
  "fastkv_ht_get h snapshot_ts key = chain_get (buckets h ! bucket_idx h key) snapshot_ts key"

text \<open>Sealing the first version of the key that is still live (the inner loop of the insertion).\<close>

fun seal :: "fastkv_ts \<Rightarrow> bytes \<Rightarrow> version list \<Rightarrow> version list" where
  "seal commit_ts key [] = []"
| "seal commit_ts key (v # vs) =
     (if slice_eq (vkey v) key \<and> end_ts v = FASTKV_TS_MAX
      then v\<lparr>end_ts := commit_ts\<rparr> # vs
      else v # seal commit_ts key vs)"

text \<open>
  \<^verbatim>\<open>ht_insert_version\<close>. A failed compare-and-swap repeats the whole body of the
  \<^verbatim>\<open>do ... while\<close>, the sealing included.
\<close>

definition ht_insert_version :: "ht_env \<Rightarrow> ht \<Rightarrow> fastkv_ts \<Rightarrow> bytes \<Rightarrow> slice \<Rightarrow> fastkv_err \<times> ht" where
  "ht_insert_version env h commit_ts key val =
     (if \<not> nv_ok env then (FASTKV_ERR_NOMEM, h)
      else
        let nkey_null = (key = [] \<or> \<not> key_ok env);
            nvalue = (if val \<noteq> None \<and> val_ok env then slice_dup val else None)
        in if (nkey_null \<and> length key > 0) \<or> (val \<noteq> None \<and> nvalue = None \<and> slice_len val > 0)
           then (FASTKV_ERR_NOMEM, h)
           else
             let idx = bucket_idx h key;
                 old = (seal commit_ts key ^^ Suc (cas_fails env)) (buckets h ! idx);
                 nv = \<lparr>begin_ts = commit_ts, end_ts = FASTKV_TS_MAX, vkey = key, vvalue = nvalue\<rparr>
             in (FASTKV_OK, h\<lparr>buckets := (buckets h)[idx := nv # old],
                              num_versions := num_versions h + 1\<rparr>))"

definition fastkv_ht_put :: "ht_env \<Rightarrow> ht \<Rightarrow> fastkv_ts \<Rightarrow> bytes \<Rightarrow> slice \<Rightarrow> fastkv_err \<times> ht" where
  "fastkv_ht_put env h commit_ts key val = ht_insert_version env h commit_ts key val"

definition fastkv_ht_delete :: "ht_env \<Rightarrow> ht \<Rightarrow> fastkv_ts \<Rightarrow> bytes \<Rightarrow> fastkv_err \<times> ht" where
  "fastkv_ht_delete env h commit_ts key = ht_insert_version env h commit_ts key FASTKV_SLICE_NULL"

text \<open>
  \<^verbatim>\<open>fastkv_ht_gc\<close> on one bucket: versions that ended before \<open>min_active_ts\<close> are freed and
  counted, the others are pushed one by one onto the new chain \<open>keep\<close>.
\<close>

fun gc_chain :: "fastkv_ts \<Rightarrow> version list \<Rightarrow> u64 \<Rightarrow> version list \<Rightarrow> version list \<times> u64" where
  "gc_chain min_active_ts keep freed [] = (keep, freed)"
| "gc_chain min_active_ts keep freed (v # vs) =
     (if end_ts v < min_active_ts then gc_chain min_active_ts keep (freed + 1) vs
      else gc_chain min_active_ts (v # keep) freed vs)"

fun gc_buckets :: "fastkv_ts \<Rightarrow> u64 \<Rightarrow> version list list \<Rightarrow> version list list \<times> u64" where
  "gc_buckets min_active_ts freed [] = ([], freed)"
| "gc_buckets min_active_ts freed (b # bs) =
     (let (keep, freed') = gc_chain min_active_ts [] freed b;
          (rest, freed'') = gc_buckets min_active_ts freed' bs
      in (keep # rest, freed''))"

definition fastkv_ht_gc :: "ht \<Rightarrow> fastkv_ts \<Rightarrow> u64 \<times> ht" where
  "fastkv_ht_gc h min_active_ts =
     (let (bs, freed) = gc_buckets min_active_ts 0 (buckets h)
      in (freed, h\<lparr>buckets := bs, num_versions := num_versions h - freed\<rparr>))"

section \<open>Well-formed tables\<close>

definition visible :: "version \<Rightarrow> fastkv_ts \<Rightarrow> bytes \<Rightarrow> bool" where
  "visible v s key \<longleftrightarrow> vkey v = key \<and> begin_ts v \<le> s \<and> s < end_ts v"

text \<open>Two versions of the same key never overlap in time.\<close>

definition apart :: "version \<Rightarrow> version \<Rightarrow> bool" where
  "apart v w \<longleftrightarrow> (vkey v = vkey w \<longrightarrow> end_ts v \<le> begin_ts w \<or> end_ts w \<le> begin_ts v)"

definition pow2 :: "nat \<Rightarrow> bool" where
  "pow2 n \<longleftrightarrow> (\<exists>k < 64. n = 2 ^ k)"

definition ht_wf :: "ht \<Rightarrow> bool" where
  "ht_wf h \<longleftrightarrow> pow2 (capacity h) \<and> length (buckets h) = capacity h \<and>
     (\<forall>i < capacity h. \<forall>v \<in> set (buckets h ! i). bucket_idx h (vkey v) = i) \<and>
     (\<forall>i < capacity h. sorted_wrt apart (buckets h ! i)) \<and>
     num_versions h = of_nat (sum_list (map length (buckets h)))"

text \<open>All writes so far happened at or before \<open>c\<close>.\<close>

definition ht_upto :: "ht \<Rightarrow> fastkv_ts \<Rightarrow> bool" where
  "ht_upto h c \<longleftrightarrow> (\<forall>vs \<in> set (buckets h). \<forall>v \<in> set vs.
     begin_ts v \<le> c \<and> (end_ts v = FASTKV_TS_MAX \<or> end_ts v \<le> c))"

text \<open>What a reader at snapshot \<open>s\<close> sees.\<close>

definition ht_view :: "ht \<Rightarrow> fastkv_ts \<Rightarrow> bytes \<Rightarrow> bytes option" where
  "ht_view h s key = (case fastkv_ht_get h s key of Inl _ \<Rightarrow> None | Inr bs \<Rightarrow> Some bs)"

section \<open>Buckets\<close>

lemma bucket_idx_less: "ht_wf h \<Longrightarrow> bucket_idx h key < capacity h"
proof -
  assume "ht_wf h"
  then obtain k where k: "k < 64" "capacity h = 2 ^ k" by (auto simp: ht_wf_def pow2_def)
  then have "bucket_idx h key = unat (take_bit k (fastkv_hash key))"
    by (simp add: bucket_idx_def take_bit_eq_mask mask_eq_exp_minus_1)
  also have "\<dots> = take_bit k (unat (fastkv_hash key))" by (rule unsigned_take_bit_eq)
  finally show ?thesis using k by simp
qed

text \<open>Insertion and collection keep the capacity, hence the bucket of every key.\<close>

lemma bucket_idx_update [simp]:
  "bucket_idx (h\<lparr>buckets := bs\<rparr>) = bucket_idx h"
  "bucket_idx (h\<lparr>num_versions := n\<rparr>) = bucket_idx h"
  by (simp_all add: bucket_idx_def fun_eq_iff)

lemma bucket_idx_cong: "capacity h = capacity h' \<Longrightarrow> bucket_idx h key = bucket_idx h' key"
  by (simp add: bucket_idx_def)

lemma ht_wf_capacity_pos: "ht_wf h \<Longrightarrow> 0 < capacity h"
  by (auto simp: ht_wf_def pow2_def)

section \<open>Reading a chain\<close>

lemma chain_get_iff:
  "chain_get (v # vs) s key =
     (if visible v s key then (case vvalue v of None \<Rightarrow> Inl FASTKV_ERR_NOTFOUND | Some bs \<Rightarrow> Inr bs)
      else chain_get vs s key)"
  by (simp add: visible_def)

lemma chain_get_err: "chain_get vs s key = Inl e \<Longrightarrow> e = FASTKV_ERR_NOTFOUND"
  by (induction vs) (auto split: if_splits option.splits)

lemma chain_get_none: "(\<forall>v \<in> set vs. \<not> visible v s key) \<Longrightarrow> chain_get vs s key = Inl FASTKV_ERR_NOTFOUND"
  by (induction vs) (auto simp: chain_get_iff simp del: chain_get.simps(2))

lemma chain_get_append:
  "chain_get (us @ vs) s key =
     (if \<exists>u \<in> set us. visible u s key then chain_get us s key else chain_get vs s key)"
  by (induction us) (auto simp: chain_get_iff simp del: chain_get.simps(2))

lemma apart_visible: "apart v w \<Longrightarrow> visible v s key \<Longrightarrow> visible w s key \<Longrightarrow> False"
  by (auto simp: apart_def visible_def)

text \<open>On a well-formed chain at most one version is visible, so the chain order does not matter.\<close>

lemma chain_get_the:
  assumes "sorted_wrt apart vs" "v \<in> set vs" "visible v s key"
  shows "chain_get vs s key =
    (case vvalue v of None \<Rightarrow> Inl FASTKV_ERR_NOTFOUND | Some bs \<Rightarrow> Inr bs)"
  using assms
proof (induction vs)
  case (Cons w vs)
  show ?case
  proof (cases "w = v")
    case False
    then have "v \<in> set vs" "apart w v" using Cons.prems by auto
    then have "\<not> visible w s key" using Cons.prems(3) apart_visible by blast
    with Cons \<open>v \<in> set vs\<close> show ?thesis by (simp add: chain_get_iff del: chain_get.simps(2))
  qed (use Cons.prems in \<open>simp add: chain_get_iff del: chain_get.simps(2)\<close>)
qed simp

lemma apart_sym: "apart v w \<Longrightarrow> apart w v"
  by (auto simp: apart_def)

lemma sorted_apart_rev: "sorted_wrt apart (rev vs) = sorted_wrt apart vs"
  by (auto simp: sorted_wrt_rev elim: sorted_wrt_mono_rel [rotated] intro: apart_sym)

lemma chain_get_rev:
  assumes "sorted_wrt apart vs"
  shows "chain_get (rev vs) s key = chain_get vs s key"
proof (cases "\<exists>v \<in> set vs. visible v s key")
  case True
  then show ?thesis using assms chain_get_the sorted_apart_rev by (metis set_rev)
next
  case False
  then show ?thesis by (simp add: chain_get_none)
qed

section \<open>Sealing\<close>

lemma length_seal [simp]: "length (seal c key vs) = length vs"
  by (induction vs) auto

lemma length_seals [simp]: "length ((seal c key ^^ n) vs) = length vs"
  by (induction n) auto

lemma seal_in: "v' \<in> set (seal c key vs) \<Longrightarrow> \<exists>v \<in> set vs. v' = v \<or>
    (vkey v = key \<and> end_ts v = FASTKV_TS_MAX \<and> v' = v\<lparr>end_ts := c\<rparr>)"
  by (induction vs) (auto split: if_splits)

lemma seals_in: "v' \<in> set ((seal c key ^^ n) vs) \<Longrightarrow> \<exists>v \<in> set vs. v' = v \<or>
    (vkey v = key \<and> end_ts v = FASTKV_TS_MAX \<and> v' = v\<lparr>end_ts := c\<rparr>)"
proof (induction n arbitrary: v')
  case (Suc n)
  then have "v' \<in> set (seal c key ((seal c key ^^ n) vs))" by simp
  then obtain w where w: "w \<in> set ((seal c key ^^ n) vs)"
      "v' = w \<or> (vkey w = key \<and> end_ts w = FASTKV_TS_MAX \<and> v' = w\<lparr>end_ts := c\<rparr>)"
    using seal_in by blast
  from Suc.IH [OF w(1)] obtain v where "v \<in> set vs"
      "w = v \<or> (vkey v = key \<and> end_ts v = FASTKV_TS_MAX \<and> w = v\<lparr>end_ts := c\<rparr>)" by blast
  with w(2) show ?case by (intro bexI [of _ v]) (elim disjE conjE; simp)+
qed (simp, blast)

text \<open>Readers below the commit timestamp are not affected by sealing.\<close>

lemma chain_get_seal: "s < c \<Longrightarrow> s < FASTKV_TS_MAX \<Longrightarrow> chain_get (seal c key vs) s key' = chain_get vs s key'"
proof (induction vs)
  case (Cons v vs)
  then show ?case by (cases "vkey v = key \<and> end_ts v = FASTKV_TS_MAX") simp_all
qed simp

lemma chain_get_seals:
  "s < c \<Longrightarrow> s < FASTKV_TS_MAX \<Longrightarrow> chain_get ((seal c key ^^ n) vs) s key' = chain_get vs s key'"
  by (induction n) (simp_all add: chain_get_seal)

lemma chain_get_seal_other: "key' \<noteq> key \<Longrightarrow> chain_get (seal c key vs) s key' = chain_get vs s key'"
  by (induction vs) simp_all

lemma chain_get_seals_other: "key' \<noteq> key \<Longrightarrow> chain_get ((seal c key ^^ n) vs) s key' = chain_get vs s key'"
  by (induction n) (simp_all add: chain_get_seal_other)

text \<open>With at most one live version of the key, one sealing leaves none.\<close>

lemma seal_no_live:
  assumes "sorted_wrt apart vs" "\<forall>v \<in> set vs. begin_ts v < FASTKV_TS_MAX" "c < FASTKV_TS_MAX"
  shows "\<forall>v \<in> set (seal c key vs). vkey v = key \<longrightarrow> end_ts v \<noteq> FASTKV_TS_MAX"
  using assms
proof (induction vs)
  case (Cons v vs)
  show ?case
  proof (cases "vkey v = key \<and> end_ts v = FASTKV_TS_MAX")
    case True
    have "end_ts w \<noteq> FASTKV_TS_MAX" if "w \<in> set vs" "vkey w = key" for w
    proof
      assume "end_ts w = FASTKV_TS_MAX"
      moreover have "apart v w" using Cons.prems that by simp
      moreover have "begin_ts v < FASTKV_TS_MAX" "begin_ts w < FASTKV_TS_MAX"
        using Cons.prems that by auto
      ultimately show False using True that by (auto simp: apart_def)
    qed
    with True show ?thesis using Cons.prems(3) by auto
  qed (use Cons in auto)
qed simp

lemma seal_id: "\<forall>v \<in> set vs. vkey v = key \<longrightarrow> end_ts v \<noteq> FASTKV_TS_MAX \<Longrightarrow> seal c key vs = vs"
  by (induction vs) auto

lemma seal_funpow:
  assumes "sorted_wrt apart vs" "\<forall>v \<in> set vs. begin_ts v < FASTKV_TS_MAX" "c < FASTKV_TS_MAX"
  shows "(seal c key ^^ Suc n) vs = seal c key vs"
  using seal_id [OF seal_no_live [OF assms]] by (induction n) simp_all

section \<open>Insertion\<close>

abbreviation new_version :: "fastkv_ts \<Rightarrow> bytes \<Rightarrow> slice \<Rightarrow> version" where
  "new_version c key val \<equiv>
     \<lparr>begin_ts = c, end_ts = FASTKV_TS_MAX, vkey = key, vvalue = slice_dup val\<rparr>"

definition env_ok :: "ht_env \<Rightarrow> bool" where
  "env_ok env \<longleftrightarrow> nv_ok env \<and> key_ok env \<and> val_ok env"

lemma env_ok_mem_ok [simp]: "env_ok mem_ok"
  by (simp add: env_ok_def mem_ok_def)

lemma insert_version_ok:
  assumes "env_ok env"
  shows "ht_insert_version env h c key val =
    (FASTKV_OK, h\<lparr>buckets := (buckets h)[bucket_idx h key :=
        new_version c key val # (seal c key ^^ Suc (cas_fails env)) (buckets h ! bucket_idx h key)],
      num_versions := num_versions h + 1\<rparr>)"
proof -
  have "(if val \<noteq> None then slice_dup val else None) = slice_dup val" by (cases val) auto
  moreover have "\<not> (val \<noteq> None \<and> slice_dup val = None \<and> 0 < slice_len val)"
    by (cases val rule: slice_dup.cases) auto
  ultimately show ?thesis using assms by (simp add: ht_insert_version_def env_ok_def Let_def)
qed

lemma insert_version_nomem:
  "ht_insert_version env h c key val = (rc, h') \<Longrightarrow> rc \<noteq> FASTKV_OK \<Longrightarrow> rc = FASTKV_ERR_NOMEM \<and> h' = h"
  by (auto simp: ht_insert_version_def Let_def split: if_splits)

lemma insert_version_view:
  assumes "ht_wf h" "env_ok env" "s < FASTKV_TS_MAX"
  shows "ht_view (snd (ht_insert_version env h c key val)) s key' =
    (if key' = key \<and> c \<le> s then slice_dup val else ht_view h s key')"
proof -
  let ?h = "snd (ht_insert_version env h c key val)"
  let ?n = "Suc (cas_fails env)"
  have cap: "capacity ?h = capacity h" using assms(2) by (simp add: insert_version_ok)
  have idx: "bucket_idx h k < length (buckets h)" for k
    using bucket_idx_less [OF assms(1)] assms(1) by (simp add: ht_wf_def)
  have chain: "buckets ?h ! bucket_idx ?h k =
      (if bucket_idx h k = bucket_idx h key
       then new_version c key val # (seal c key ^^ ?n) (buckets h ! bucket_idx h key)
       else buckets h ! bucket_idx h k)" for k
    using idx assms(2) by (simp add: insert_version_ok nth_list_update)
  show ?thesis
  proof (cases "key' = key")
    case True
    show ?thesis
    proof (cases "c \<le> s")
      case True': True
      then show ?thesis using True assms(3)
        by (auto simp: ht_view_def fastkv_ht_get_def chain split: option.splits)
    next
      case False
      then show ?thesis using True assms(3)
        by (simp add: ht_view_def fastkv_ht_get_def chain chain_get_seals del: funpow.simps)
    qed
  next
    case False
    then show ?thesis 
      by (simp add: ht_view_def fastkv_ht_get_def chain chain_get_seals_other del: funpow.simps)
  qed
qed

lemma seals_upto:
  assumes "\<forall>v \<in> set vs. begin_ts v \<le> c \<and> (end_ts v = FASTKV_TS_MAX \<or> end_ts v \<le> c)"
  shows "\<forall>v \<in> set ((seal c key ^^ n) vs). begin_ts v \<le> c \<and> (end_ts v = FASTKV_TS_MAX \<or> end_ts v \<le> c)"
proof
  fix v assume "v \<in> set ((seal c key ^^ n) vs)"
  then obtain w where "w \<in> set vs" "v = w \<or> v = w\<lparr>end_ts := c\<rparr>" using seals_in by blast
  then show "begin_ts v \<le> c \<and> (end_ts v = FASTKV_TS_MAX \<or> end_ts v \<le> c)" using assms by auto
qed

lemma sorted_apart_seal:
  assumes "sorted_wrt apart vs" "\<forall>v \<in> set vs. begin_ts v \<le> c \<and> (end_ts v = FASTKV_TS_MAX \<or> end_ts v \<le> c)"
    "c < FASTKV_TS_MAX"
  shows "sorted_wrt apart (seal c key vs)"
  using assms
proof (induction vs)
  case (Cons v vs)
  have 1: "apart (v\<lparr>end_ts := c\<rparr>) w" if "w \<in> set vs" "end_ts v = FASTKV_TS_MAX" for w
    using Cons.prems that by (fastforce simp: apart_def)
  have 2: "apart v w" if w: "w \<in> set (seal c key vs)" for w
  proof -
    obtain u where u: "u \<in> set vs" "w = u \<or> (end_ts u = FASTKV_TS_MAX \<and> w = u\<lparr>end_ts := c\<rparr>)"
      using seal_in [OF w] by blast
    then have "apart v u" using Cons.prems by simp
    moreover have "begin_ts v < FASTKV_TS_MAX" using Cons.prems by auto
    ultimately show ?thesis using u(2) by (auto simp: apart_def)
  qed
  show ?case using Cons 1 2 by auto
qed simp

lemma insert_version_inv:
  assumes wf: "ht_wf h" and up: "ht_upto h c" and c: "c < FASTKV_TS_MAX" and env: "env_ok env"
  shows "ht_wf (snd (ht_insert_version env h c key val))"
    and "ht_upto (snd (ht_insert_version env h c key val)) c"
proof -
  let ?h = "snd (ht_insert_version env h c key val)"
  let ?i = "bucket_idx h key"
  let ?old = "buckets h ! ?i"
  let ?new = "(seal c key ^^ Suc (cas_fails env)) ?old"
  have i: "?i < length (buckets h)" using bucket_idx_less [OF wf] wf by (simp add: ht_wf_def)
  have cap: "capacity ?h = capacity h" using env by (simp add: insert_version_ok)
  have old: "sorted_wrt apart ?old" "\<forall>v \<in> set ?old. bucket_idx h (vkey v) = ?i"
    using wf i by (auto simp: ht_wf_def)
  have old_up: "\<forall>v \<in> set ?old. begin_ts v \<le> c \<and> (end_ts v = FASTKV_TS_MAX \<or> end_ts v \<le> c)"
    using up i by (auto simp: ht_upto_def)
  have beg: "\<forall>v \<in> set ?old. begin_ts v < FASTKV_TS_MAX" using old_up c by auto
  have new: "?new = seal c key ?old" by (rule seal_funpow [OF old(1) beg c])
  have new_up: "\<forall>v \<in> set ?new. begin_ts v \<le> c \<and> (end_ts v = FASTKV_TS_MAX \<or> end_ts v \<le> c)"
    by (rule seals_upto [OF old_up])
  have no_live: "\<forall>v \<in> set ?new. vkey v = key \<longrightarrow> end_ts v \<le> c"
    using seal_no_live [OF old(1) beg c, of key] new_up new by fastforce
  have apart_new: "sorted_wrt apart (new_version c key val # ?new)"
    using sorted_apart_seal [OF old(1) old_up c, of key] no_live new by (auto simp: apart_def)
  have key_new: "\<forall>v \<in> set ?new. bucket_idx h (vkey v) = ?i"
    using old(2) seals_in by fastforce
  have bs: "buckets ?h = (buckets h)[?i := new_version c key val # ?new]"
    using env by (simp add: insert_version_ok)
  have sum: "sum_list (map length (buckets ?h)) = Suc (sum_list (map length (buckets h)))"
  proof -
    have "map length (buckets ?h) = (map length (buckets h))[?i := Suc (length ?old)]"
      unfolding bs by (simp add: map_update)
    then show ?thesis
      using i by (simp add: sum_list_update)
  qed
  show "ht_wf ?h"
    unfolding ht_wf_def
  proof (intro conjI)
    show "\<forall>i < capacity ?h. \<forall>v \<in> set (buckets ?h ! i). bucket_idx ?h (vkey v) = i"
      using wf key_new i by (auto simp: ht_wf_def bs nth_list_update bucket_idx_cong [OF cap] cap)
    show "\<forall>i < capacity ?h. sorted_wrt apart (buckets ?h ! i)"
      using wf apart_new i by (auto simp: ht_wf_def bs nth_list_update cap)
    show "num_versions ?h = of_nat (sum_list (map length (buckets ?h)))"
      unfolding sum using wf env by (simp add: ht_wf_def insert_version_ok add.commute)
  qed (use wf cap bs in \<open>auto simp: ht_wf_def\<close>)
  show "ht_upto ?h c"
    using up new_up unfolding ht_upto_def bs
    by (auto dest!: set_update_subset_insert [THEN subsetD])
qed

section \<open>Creation\<close>

lemma and_pred_pow2: "0 < n \<Longrightarrow> n AND (n - 1) = 0 \<Longrightarrow> \<exists>k. n = 2 ^ k" for n :: int
proof (induction "nat n" arbitrary: n rule: less_induct)
  case less
  show ?case
  proof (cases "odd n")
    case True
    then obtain m where m: "n = 2 * m + 1" by (elim oddE)
    then have "n AND (n - 1) = 2 * m" using and_int_rec [of n "n - 1"] by simp
    with less.prems m have "n = 2 ^ 0" by simp
    then show ?thesis ..
  next
    case False
    then have "even n" by simp
    then obtain m where m: "n = 2 * m" by (elim evenE)
    then have "(n - 1) div 2 = m - 1" by simp
    with m have "n AND (n - 1) = 2 * (m AND (m - 1))" using and_int_rec [of n "n - 1"] by simp
    with less.prems m obtain k where "m = 2 ^ k" using less.hyps [of m] by auto
    with m have "n = 2 ^ Suc k" by simp
    then show ?thesis ..
  qed
qed

lemma pow2_check:
  assumes "0 < n" "n < 2 ^ 64"
  shows "(of_nat n AND (of_nat n - 1) :: u64) = 0 \<longleftrightarrow> pow2 n"
proof
  assume z: "(of_nat n AND (of_nat n - 1) :: u64) = 0"
  have un: "uint (of_nat n :: u64) = int n"
    using assms by (simp add: unsigned_of_nat take_bit_nat_eq_self)
  have "uint (of_nat n - 1 :: u64) = int n - 1"
    using assms un by (simp add: uint_word_ariths)
  then have "int n AND (int n - 1) = 0" using arg_cong [OF z, of uint] un by (simp add: unsigned_and_eq)
  then obtain k where k: "int n = 2 ^ k" using and_pred_pow2 [of "int n"] assms by auto
  then have "n = 2 ^ k" by (metis of_nat_eq_iff of_nat_numeral of_nat_power)
  moreover from this have "k < 64" using assms(2) by (metis nat_power_less_imp_less zero_less_numeral)
  ultimately show "pow2 n" unfolding pow2_def by blast
next
  assume "pow2 n"
  then obtain k where k: "k < 64" "n = 2 ^ k" by (auto simp: pow2_def)
  then have "(of_nat n AND (of_nat n - 1) :: u64) = take_bit k (2 ^ k)"
    by (simp add: take_bit_eq_mask mask_eq_exp_minus_1)
  also have "\<dots> = 0" by (rule bit_word_eqI) (auto simp: bit_simps)
  finally show "(of_nat n AND (of_nat n - 1) :: u64) = 0" .
qed

text \<open>Within the 64-bit range the assertion lets exactly the powers of two pass.\<close>

lemma ht_create_wf:
  assumes "cap < 2 ^ 64" "fastkv_ht_create h_ok b_ok cap = Some (Inr h)"
  shows "ht_wf h \<and> ht_upto h c \<and> ht_view h s key = None"
proof -
  have h: "h = \<lparr>buckets = replicate cap [], capacity = cap, num_keys = 0, num_versions = 0\<rparr>"
    and p: "0 < cap" "pow2 cap"
    using assms pow2_check [of cap] by (auto simp: fastkv_ht_create_def split: if_splits)
  then have wf: "ht_wf h" by (auto simp: ht_wf_def sum_list_replicate)
  have "bucket_idx h key < cap" using bucket_idx_less [OF wf, of key] h by simp
  then have "ht_view h s key = None" by (simp add: ht_view_def fastkv_ht_get_def h)
  with wf show ?thesis using h by (simp add: ht_upto_def)
qed

section \<open>Garbage collection\<close>

lemma gc_chain_eq:
  "gc_chain m keep freed vs =
     (rev (filter (\<lambda>v. \<not> end_ts v < m) vs) @ keep, freed + of_nat (length (filter (\<lambda>v. end_ts v < m) vs)))"
  by (induction vs arbitrary: keep freed) simp_all

lemma gc_buckets_eq:
  "gc_buckets m freed bs =
     (map (\<lambda>vs. rev (filter (\<lambda>v. \<not> end_ts v < m) vs)) bs,
      freed + of_nat (sum_list (map (\<lambda>vs. length (filter (\<lambda>v. end_ts v < m) vs)) bs)))"
  by (induction bs arbitrary: freed) (simp_all add: gc_chain_eq)

lemma ht_gc_eq:
  "fastkv_ht_gc h m =
     (let n = of_nat (sum_list (map (\<lambda>vs. length (filter (\<lambda>v. end_ts v < m) vs)) (buckets h)))
      in (n, h\<lparr>buckets := map (\<lambda>vs. rev (filter (\<lambda>v. \<not> end_ts v < m) vs)) (buckets h),
               num_versions := num_versions h - n\<rparr>))"
  by (simp add: fastkv_ht_gc_def gc_buckets_eq Let_def)

lemma sum_list_filter_split:
  "sum_list (map length bs) = sum_list (map (\<lambda>vs. length (filter P vs)) bs)
     + sum_list (map (\<lambda>vs. length (filter (\<lambda>v. \<not> P v) vs)) bs)"
  by (induction bs) (simp_all add: sum_length_filter_compl [symmetric] algebra_simps)

lemma gc_wf:
  assumes "ht_wf h"
  shows "ht_wf (snd (fastkv_ht_gc h m))"
proof -
  let ?P = "\<lambda>v. end_ts v < m"
  have "num_versions h = of_nat (sum_list (map (\<lambda>vs. length (filter ?P vs)) (buckets h)))
      + of_nat (sum_list (map (\<lambda>vs. length (filter (\<lambda>v. \<not> ?P v) vs)) (buckets h)))"
    using assms sum_list_filter_split [of "buckets h" ?P] by (simp add: ht_wf_def)
  then have "num_versions h - of_nat (sum_list (map (\<lambda>vs. length (filter ?P vs)) (buckets h)))
      = of_nat (sum_list (map (\<lambda>vs. length (filter (\<lambda>v. \<not> ?P v) vs)) (buckets h)))"
    by simp
  moreover have "sorted_wrt apart (rev (filter (\<lambda>v. \<not> ?P v) (buckets h ! i)))" if "i < capacity h" for i
    using assms that by (simp add: sorted_apart_rev sorted_wrt_filter ht_wf_def)
  ultimately show ?thesis
    using assms unfolding ht_wf_def by (simp add: ht_gc_eq Let_def comp_def)
qed

lemma gc_upto: "ht_upto h c \<Longrightarrow> ht_upto (snd (fastkv_ht_gc h m)) c"
  by (auto simp: ht_upto_def ht_gc_eq Let_def)

text \<open>A version that ended before \<open>m\<close> is not visible from \<open>m\<close> on.\<close>

lemma chain_get_filter_end:
  "m \<le> s \<Longrightarrow> chain_get (filter (\<lambda>v. \<not> end_ts v < m) vs) s key = chain_get vs s key"
  by (induction vs) (auto simp: chain_get_iff visible_def simp del: chain_get.simps(2))

lemma gc_get:
  assumes "ht_wf h" "m \<le> s"
  shows "fastkv_ht_get (snd (fastkv_ht_gc h m)) s key = fastkv_ht_get h s key"
proof -
  let ?vs = "buckets h ! bucket_idx h key"
  have i: "bucket_idx h key < length (buckets h)" "sorted_wrt apart ?vs"
    using bucket_idx_less [OF assms(1)] assms(1) by (auto simp: ht_wf_def)
  have "chain_get (rev (filter (\<lambda>v. \<not> end_ts v < m) ?vs)) s key = chain_get ?vs s key"
    using assms(2) i(2) by (simp add: chain_get_rev sorted_wrt_filter chain_get_filter_end)
  with i(1) show ?thesis by (simp add: fastkv_ht_get_def ht_gc_eq Let_def)
qed

lemma gc_view: "ht_wf h \<Longrightarrow> m \<le> s \<Longrightarrow> ht_view (snd (fastkv_ht_gc h m)) s key = ht_view h s key"
  by (simp add: ht_view_def gc_get)

section \<open>The interface of the version store\<close>

text \<open>
  What the transaction layer relies on: a store that answers reads at a snapshot, takes writes
  stamped with a commit timestamp, and can be asked to forget what no snapshot from \<open>m\<close> on can see.
\<close>

locale mvcc_store =
  fixes view :: "'s \<Rightarrow> fastkv_ts \<Rightarrow> bytes \<Rightarrow> bytes option"
    and store :: "'s \<Rightarrow> fastkv_ts \<Rightarrow> bytes \<Rightarrow> slice \<Rightarrow> 's"
    and collect :: "'s \<Rightarrow> fastkv_ts \<Rightarrow> 's"
    and wf :: "'s \<Rightarrow> bool"
    and upto :: "'s \<Rightarrow> fastkv_ts \<Rightarrow> bool"
  assumes view_write: "wf st \<Longrightarrow> s < FASTKV_TS_MAX \<Longrightarrow>
      view (store st c k v) s k' = (if k' = k \<and> c \<le> s then slice_dup v else view st s k')"
    and wf_write: "wf st \<Longrightarrow> upto st c \<Longrightarrow> c < FASTKV_TS_MAX \<Longrightarrow> wf (store st c k v)"
    and upto_write: "wf st \<Longrightarrow> upto st c \<Longrightarrow> c < FASTKV_TS_MAX \<Longrightarrow> upto (store st c k v) c"
    and upto_mono: "upto st c \<Longrightarrow> c \<le> c' \<Longrightarrow> upto st c'"
    and view_collect: "wf st \<Longrightarrow> m \<le> s \<Longrightarrow> view (collect st m) s k = view st s k"
    and wf_collect: "wf st \<Longrightarrow> wf (collect st m)"
    and upto_collect: "upto st c \<Longrightarrow> upto (collect st m) c"
begin

lemma wf_writes:
  assumes "wf st" "upto st c" "c < FASTKV_TS_MAX"
  shows "wf (foldl (\<lambda>st (k, v). store st c k v) st ws) \<and>
    upto (foldl (\<lambda>st (k, v). store st c k v) st ws) c"
  using assms by (induction ws arbitrary: st) (auto simp: wf_write upto_write)

text \<open>
  A batch of writes with one commit timestamp: snapshots below it see nothing of the batch,
  snapshots from it on see, for every key, the store that was applied last.
\<close>

lemma view_writes:
  assumes "wf st" "upto st c" "c < FASTKV_TS_MAX" "s < FASTKV_TS_MAX"
  shows "view (foldl (\<lambda>st (k, v). store st c k v) st ws) s k =
    (if c \<le> s then case map_of (rev ws) k of Some v \<Rightarrow> slice_dup v | None \<Rightarrow> view st s k
     else view st s k)"
proof (induction ws rule: rev_induct)
  case (snoc w ws)
  obtain k' v' where w: "w = (k', v')" by force
  let ?st = "foldl (\<lambda>st (k, v). store st c k v) st ws"
  have "view (store ?st c k' v') s k = (if k = k' \<and> c \<le> s then slice_dup v' else view ?st s k)"
    using wf_writes [OF assms(1-3), of ws] assms(4) by (simp add: view_write)
  with snoc w show ?case by simp
qed simp

lemma view_writes_below:
  assumes "wf st" "upto st c" "c < FASTKV_TS_MAX" "s < c"
  shows "view (foldl (\<lambda>st (k, v). store st c k v) st ws) s k = view st s k"
  using view_writes [OF assms(1-3), of s ws k] assms by auto

end

definition ht_write :: "ht \<Rightarrow> fastkv_ts \<Rightarrow> bytes \<Rightarrow> slice \<Rightarrow> ht" where
  "ht_write h c key val = snd (ht_insert_version mem_ok h c key val)"

interpretation hts: mvcc_store ht_view ht_write "\<lambda>h m. snd (fastkv_ht_gc h m)" ht_wf ht_upto
proof unfold_locales
  fix st s c k v k'
  assume "ht_wf st" "s < FASTKV_TS_MAX"
  then show "ht_view (ht_write st c k v) s k' =
      (if k' = k \<and> c \<le> s then slice_dup v else ht_view st s k')"
    by (simp add: ht_write_def insert_version_view)
next
  fix st :: ht and c c' :: fastkv_ts
  assume "ht_upto st c" "c \<le> c'"
  then show "ht_upto st c'" unfolding ht_upto_def by (meson order_trans)
qed (simp_all add: ht_write_def insert_version_inv gc_view gc_wf gc_upto)

text \<open>Beyond the last write every snapshot sees the same.\<close>

lemma chain_get_upto:
  assumes "\<forall>v \<in> set vs. begin_ts v \<le> c \<and> (end_ts v = FASTKV_TS_MAX \<or> end_ts v \<le> c)" "c \<le> s" "s < FASTKV_TS_MAX"
  shows "chain_get vs s key = chain_get vs c key"
  using assms(1)
proof (induction vs)
  case (Cons v vs)
  then have "visible v s key = visible v c key"
    using assms(2,3) unfolding visible_def by (auto simp: not_less [symmetric])
  with Cons show ?case by (simp add: chain_get_iff del: chain_get.simps(2))
qed simp

lemma view_upto:
  assumes "ht_wf h" "ht_upto h c" "c \<le> s" "s < FASTKV_TS_MAX"
  shows "ht_view h s key = ht_view h c key"
proof -
  have "buckets h ! bucket_idx h key \<in> set (buckets h)"
    using bucket_idx_less [OF assms(1)] assms(1) by (simp add: ht_wf_def)
  then show ?thesis
    using assms chain_get_upto [of "buckets h ! bucket_idx h key" c s key]
    by (simp add: ht_view_def fastkv_ht_get_def ht_upto_def)
qed

definition latest :: "ht \<Rightarrow> bytes \<Rightarrow> bytes option" where
  "latest h key = ht_view h (FASTKV_TS_MAX - 1) key"

lemma ts_max_pred: "c < FASTKV_TS_MAX \<longleftrightarrow> c \<le> FASTKV_TS_MAX - 1"
  by (simp add: FASTKV_TS_MAX_def word_less_nat_alt word_le_nat_alt unat_minus_one) arith

lemma latest_write:
  assumes "ht_wf h" "c < FASTKV_TS_MAX"
  shows "latest (ht_write h c k v) = (latest h)(k := slice_dup v)"
  using assms hts.view_write [OF assms(1), of "FASTKV_TS_MAX - 1" c k v] ts_max_pred
  by (auto simp: latest_def fun_eq_iff)

lemma insert_version_write:
  assumes "ht_wf h" "ht_upto h c" "c < FASTKV_TS_MAX" "env_ok env"
  shows "ht_insert_version env h c key val = (FASTKV_OK, ht_write h c key val)"
proof -
  let ?vs = "buckets h ! bucket_idx h key"
  have i: "bucket_idx h key < length (buckets h)" using bucket_idx_less [OF assms(1)] assms(1) by (simp add: ht_wf_def)
  then have "\<forall>v \<in> set ?vs. begin_ts v < FASTKV_TS_MAX"
    using assms(2,3) nth_mem [OF i] unfolding ht_upto_def by (blast intro: le_less_trans)
  moreover have "sorted_wrt apart ?vs" using assms(1) i by (simp add: ht_wf_def)
  ultimately have "(seal c key ^^ Suc n) ?vs = seal c key ?vs" for n using assms(3) seal_funpow by blast
  then show ?thesis
    unfolding ht_write_def insert_version_ok [OF assms(4)] insert_version_ok [OF env_ok_mem_ok]
    by (simp del: funpow.simps)
qed

lemma ht_put_write: "fastkv_ht_put mem_ok h c key val = (FASTKV_OK, ht_write h c key val)"
  by (simp add: fastkv_ht_put_def ht_write_def insert_version_ok)

lemma ht_delete_write: "fastkv_ht_delete mem_ok h c key = (FASTKV_OK, ht_write h c key None)"
  by (simp add: fastkv_ht_delete_def ht_write_def insert_version_ok)

section \<open>Properties\<close>

definition sample_ht :: ht where
  "sample_ht = \<lparr>buckets = [[], []], capacity = 2, num_keys = 0, num_versions = 0\<rparr>"

lemma sample_ht_ok: "ht_wf sample_ht" "ht_upto sample_ht c" "ht_view sample_ht s key = None"
proof -
  have "fastkv_ht_create True True 2 = Some (Inr sample_ht)"
    by (simp add: fastkv_ht_create_def sample_ht_def numeral_2_eq_2)
  then show "ht_wf sample_ht" "ht_upto sample_ht c" "ht_view sample_ht s key = None"
    using ht_create_wf [of 2] by auto
qed

text \<open>
  Property C30: a put with commit timestamp \<open>c\<close>, not below any earlier one, succeeds when its allocations do,
  however often its compare-and-swap has to be repeated; it keeps the table well-formed (no two versions of a
  key overlap in time, every version in its bucket, the version count exact), is visible to every snapshot
  from \<open>c\<close> on, and changes nothing for earlier snapshots or other keys.
\<close>
theorem ht_put_snapshot_views:
  assumes "ht_wf h" "ht_upto h c" "c < FASTKV_TS_MAX" "s < FASTKV_TS_MAX" "env_ok env"
  shows "(case fastkv_ht_put env h c key val of (rc, h') \<Rightarrow>
      rc = FASTKV_OK \<and> ht_wf h' \<and> ht_upto h' c
      \<and> ht_view h' s key' = (if key' = key \<and> c \<le> s then slice_dup val else ht_view h s key'))"
  using insert_version_inv [OF assms(1-3,5), of key val] insert_version_view [OF assms(1,5,4), of c key val key']
  by (simp add: fastkv_ht_put_def insert_version_ok [OF assms(5)])

theorem ht_put_snapshot_views_witness:
  "ht_wf sample_ht \<and> env_ok mem_ok \<and>
   (case fastkv_ht_put mem_ok sample_ht 5 [1] (Some [9]) of (rc, h') \<Rightarrow>
      rc = FASTKV_OK \<and> ht_wf h' \<and> ht_upto h' 5 \<and> ht_view h' 7 [1] = Some [9])
   \<and> (case fastkv_ht_put mem_ok sample_ht 5 [1] (Some [9]) of (rc, h') \<Rightarrow>
      rc = FASTKV_OK \<and> ht_wf h' \<and> ht_upto h' 5 \<and> ht_view h' 4 [1] = None)"
  using ht_put_snapshot_views [OF sample_ht_ok(1,2), of 5 7 mem_ok "[1]" "[1]" "Some [9]"]
    ht_put_snapshot_views [OF sample_ht_ok(1,2), of 5 4 mem_ok "[1]" "[1]" "Some [9]"] sample_ht_ok
  by (simp add: FASTKV_TS_MAX_def)

text \<open>
  garbage collection with bound \<open>m\<close> frees versions, never the ones a snapshot needs: every read at a
  snapshot from \<open>m\<close> on returns what it returned before, and the version count stays exact.
\<close>
lemma ht_gc_keeps_reads:
  assumes "ht_wf h" "m \<le> s"
  shows "fastkv_ht_get (snd (fastkv_ht_gc h m)) s key = fastkv_ht_get h s key \<and> ht_wf (snd (fastkv_ht_gc h m))
    \<and> num_versions (snd (fastkv_ht_gc h m)) + fst (fastkv_ht_gc h m) = num_versions h"
  using gc_get [OF assms] gc_wf [OF assms(1)] by (simp add: ht_gc_eq Let_def)

lemma ht_gc_keeps_reads_example:
  "fastkv_ht_get (snd (fastkv_ht_gc (ht_write sample_ht 5 [1] (Some [9])) 6)) 7 [1] = Inr [9]"
proof -
  have "ht_wf (ht_write sample_ht 5 [1] (Some [9]))"
    using sample_ht_ok by (intro hts.wf_write) (simp_all add: FASTKV_TS_MAX_def)
  moreover have "ht_view (ht_write sample_ht 5 [1] (Some [9])) 7 [1] = Some [9]"
    using sample_ht_ok by (subst hts.view_write) (simp_all add: FASTKV_TS_MAX_def)
  then have "fastkv_ht_get (ht_write sample_ht 5 [1] (Some [9])) 7 [1] = Inr [9]"
    by (auto simp: ht_view_def split: sum.splits)
  ultimately show ?thesis using ht_gc_keeps_reads [of "ht_write sample_ht 5 [1] (Some [9])" 6 7 "[1]"] by simp
qed

text \<open>
  an empty value cannot be told from a deletion: \<^verbatim>\<open>slice_dup\<close> turns it into the NULL value of a
  tombstone, so that after a successful put of a zero-length value the key is not found.
\<close>
lemma ht_put_empty_is_tombstone:
  assumes "ht_wf h" "env_ok env" "c \<le> s" "s < FASTKV_TS_MAX"
  shows "fst (fastkv_ht_put env h c key (Some [])) = FASTKV_OK
    \<and> fastkv_ht_get (snd (fastkv_ht_put env h c key (Some []))) s key = Inl FASTKV_ERR_NOTFOUND"
proof -
  have "ht_view (snd (ht_insert_version env h c key (Some []))) s key = None"
    using insert_version_view [OF assms(1,2,4), of c key "Some []" key] assms(3) by simp
  then show ?thesis
    using assms(2) chain_get_err
    by (auto simp: fastkv_ht_put_def insert_version_ok ht_view_def fastkv_ht_get_def split: sum.splits)
qed

lemma ht_put_empty_is_tombstone_example:
  "fst (fastkv_ht_put mem_ok sample_ht 5 [1] (Some [])) = FASTKV_OK
    \<and> fastkv_ht_get (snd (fastkv_ht_put mem_ok sample_ht 5 [1] (Some []))) 5 [1] = Inl FASTKV_ERR_NOTFOUND"
  using ht_put_empty_is_tombstone [OF sample_ht_ok(1), of mem_ok 5 5 "[1]"] by (simp add: FASTKV_TS_MAX_def)

end
