(* ===== verification/Arena.thy ===== *)
theory Arena
  imports Prelude
begin

text \<open>
  \<open>mem/arena.c\<close>: the bump allocator behind every transaction. Blocks are kept in chain order, the
  base block first and the head (newest) block last. The addresses that \<^verbatim>\<open>fkv_malloc\<close> returns
  are arguments (\<open>None\<close> is a failed allocation); sizes are 64-bit words, so that the address
  arithmetic of the alignment is the arithmetic of the machine. The block header (\<^verbatim>\<open>next\<close>,
  \<^verbatim>\<open>cap\<close>, \<^verbatim>\<open>used\<close>) takes 24 bytes, so the data of a block starts 24 bytes after its address.
\<close>

section \<open>Model\<close>

definition FASTKV_ARENA_DEFAULT_BLOCK :: u64 where
  "FASTKV_ARENA_DEFAULT_BLOCK = 64 * 1024"

record arena_block =
  baddr :: u64
  cap :: u64
  used :: u64

record arena =
  blocks :: "arena_block list"
  block_size :: u64
  total_allocated :: u64

definition bdata :: "arena_block \<Rightarrow> u64" where
  "bdata b = baddr b + 24"

definition block_new :: "u64 option \<Rightarrow> u64 \<Rightarrow> arena_block option" where
  "block_new mem c = map_option (\<lambda>a. \<lparr>baddr = a, cap = c, used = 0\<rparr>) mem"

text \<open>\<^verbatim>\<open>fastkv_arena_create\<close>: \<open>a_ok\<close> is the first allocation (the arena), \<open>mem\<close> the second (its base block).\<close>

definition fastkv_arena_create :: "bool \<Rightarrow> u64 option \<Rightarrow> u64 \<Rightarrow> arena option" where
  "fastkv_arena_create a_ok mem bsize =
     (let bsize' = (if bsize = 0 then FASTKV_ARENA_DEFAULT_BLOCK else bsize)
      in if \<not> a_ok then None
         else case block_new mem bsize' of
                None \<Rightarrow> None
              | Some b \<Rightarrow> Some \<lparr>blocks = [b], block_size = bsize', total_allocated = 0\<rparr>)"

text \<open>\<^verbatim>\<open>fastkv_arena_reset\<close> frees every block but the base block; the freed addresses are returned.\<close>

definition fastkv_arena_reset :: "arena \<Rightarrow> u64 list \<times> arena" where
  "fastkv_arena_reset a =
     (map baddr (tl (blocks a)),
      a\<lparr>blocks := [(hd (blocks a))\<lparr>used := 0\<rparr>], total_allocated := 0\<rparr>)"

definition fastkv_arena_destroy :: "arena \<Rightarrow> u64 list" where
  "fastkv_arena_destroy a = map baddr (blocks a)"

text \<open>
  \<^verbatim>\<open>fastkv_arena_alloc_aligned\<close>: \<open>None\<close> is the failing \<^verbatim>\<open>assert\<close>; \<open>Some (None, _)\<close> the
  \<^verbatim>\<open>NULL\<close> of a failed block allocation; \<open>mem\<close> is what \<^verbatim>\<open>fkv_malloc\<close> would return.
\<close>

definition fastkv_arena_alloc_aligned ::
  "u64 option \<Rightarrow> arena \<Rightarrow> u64 \<Rightarrow> u64 \<Rightarrow> (u64 option \<times> arena) option" where
  "fastkv_arena_alloc_aligned mem a sz align =
     (if align AND (align - 1) \<noteq> 0 then None
      else
        let b = last (blocks a);
            base = bdata b + used b;
            aligned = (base + (align - 1)) AND NOT (align - 1);
            offset = aligned - bdata b
        in if offset + sz > cap b
           then
             let new_cap = (if sz > block_size a then sz + align else block_size a)
             in case block_new mem new_cap of
                  None \<Rightarrow> Some (None, a)
                | Some nb \<Rightarrow>
                    Some (Some (bdata nb),
                          a\<lparr>blocks := blocks a @ [nb\<lparr>used := sz\<rparr>],
                            total_allocated := total_allocated a + sz\<rparr>)
           else
             Some (Some (bdata b + offset),
                   a\<lparr>blocks := butlast (blocks a) @ [b\<lparr>used := offset + sz\<rparr>],
                     total_allocated := total_allocated a + sz\<rparr>))"

text \<open>\<^verbatim>\<open>_Alignof(max_align_t)\<close> is 16 on the supported targets.\<close>

definition fastkv_arena_alloc :: "u64 option \<Rightarrow> arena \<Rightarrow> u64 \<Rightarrow> (u64 option \<times> arena) option" where
  "fastkv_arena_alloc mem a sz = fastkv_arena_alloc_aligned mem a sz 16"

text \<open>\<^verbatim>\<open>fastkv_arena_dup\<close>: the address and the bytes stored there (one more than asked, for the NUL).\<close>

definition fastkv_arena_dup ::
  "u64 option \<Rightarrow> arena \<Rightarrow> bytes \<Rightarrow> ((u64 \<times> bytes) option \<times> arena) option" where
  "fastkv_arena_dup mem a buf =
     map_option (\<lambda>(p, a'). (map_option (\<lambda>q. (q, buf @ [0])) p, a'))
       (fastkv_arena_alloc mem a (of_nat (length buf) + 1))"

section \<open>Invariant\<close>

text \<open>A block whose data area does not wrap around the address space and is not overfull.\<close>

definition block_ok :: "arena_block \<Rightarrow> bool" where
  "block_ok b \<longleftrightarrow> used b \<le> cap b \<and> unat (baddr b) + 24 + unat (cap b) < 2 ^ 63"

definition arena_ok :: "arena \<Rightarrow> bool" where
  "arena_ok a \<longleftrightarrow> blocks a \<noteq> [] \<and> (\<forall>b \<in> set (blocks a). block_ok b)"

section \<open>Rounding up to a power of two\<close>

lemma unat_exp: "k < 64 \<Longrightarrow> unat (2 ^ k :: u64) = 2 ^ k"
proof -
  assume "k < 64"
  then have "(2::nat) ^ k < 2 ^ 64" by (intro power_strict_increasing) auto
  then have "take_bit 64 ((2::nat) ^ k) = 2 ^ k" by (intro take_bit_nat_eq_self)
  then have "unat (of_nat (2 ^ k) :: u64) = 2 ^ k" by (simp only: unsigned_of_nat) simp
  then show ?thesis by simp
qed

lemma unat_exp_pred: "k < 64 \<Longrightarrow> unat (2 ^ k - 1 :: u64) = 2 ^ k - 1"
  using unat_exp [of k] by (simp add: unat_sub word_le_nat_alt)

lemma and_not_mask: "x AND NOT (2 ^ k - 1) = push_bit k (drop_bit k x)" for x :: u64
  by (rule bit_word_eqI) (auto simp: bit_simps mask_eq_exp_minus_1 [symmetric])

lemma unat_and_not_mask: "k < 64 \<Longrightarrow> unat (x AND NOT (2 ^ k - 1)) = unat x div 2 ^ k * 2 ^ k" for x :: u64
proof -
  assume "k < 64"
  have "unat x div 2 ^ k * 2 ^ k \<le> unat x" by (rule div_times_less_eq_dividend)
  also have "\<dots> < 2 ^ 64" using unsigned_less [of x] by simp
  finally have "unat x div 2 ^ k * 2 ^ k < 2 ^ 64" .
  moreover have "unat (drop_bit k x) = unat x div 2 ^ k"
    unfolding unat_drop_bit_eq by (rule drop_bit_eq_div)
  ultimately show ?thesis
    unfolding and_not_mask unsigned_push_bit_eq
    by (simp only: push_bit_eq_mult) (simp add: take_bit_nat_eq_self)
qed

lemma round_up:
  fixes x :: u64
  assumes "k < 63" "unat x < 2 ^ 63"
  defines "y \<equiv> (x + (2 ^ k - 1)) AND NOT (2 ^ k - 1)"
  shows "unat x \<le> unat y" "unat y < unat x + 2 ^ k" "2 ^ k dvd unat y"
proof -
  have p: "(2::nat) ^ k \<le> 2 ^ 62" using assms(1) by (intro power_increasing) auto
  have m: "unat (2 ^ k - 1 :: u64) = 2 ^ k - 1"
    using assms(1) by (intro unat_exp_pred) simp
  have u: "unat (x + (2 ^ k - 1)) = unat x + (2 ^ k - 1)"
    using assms(2) p m by (simp add: unat_word_ariths)
  have y: "unat y = (unat x + (2 ^ k - 1)) div 2 ^ k * 2 ^ k"
    unfolding y_def using assms(1) by (simp add: unat_and_not_mask u)
  have "unat x + (2 ^ k - 1) = (unat x + (2 ^ k - 1)) div 2 ^ k * 2 ^ k + (unat x + (2 ^ k - 1)) mod 2 ^ k"
    by (rule div_mult_mod_eq [symmetric])
  moreover have "(unat x + (2 ^ k - 1)) mod 2 ^ k \<le> 2 ^ k - 1"
    using mod_less_divisor [of "2 ^ k" "unat x + (2 ^ k - 1)", OF zero_less_power [OF zero_less_numeral]]
    by linarith
  moreover have "(0::nat) < 2 ^ k" by simp
  ultimately show "unat x \<le> unat y" "unat y < unat x + 2 ^ k" unfolding y by linarith+
  show "2 ^ k dvd unat y" unfolding y by simp
qed

section \<open>Allocation\<close>

lemma power2_check [simp]: "k < 64 \<Longrightarrow> (2 ^ k AND (2 ^ k - 1) :: u64) = 0"
proof -
  have "(2 ^ k AND (2 ^ k - 1) :: u64) = take_bit k (2 ^ k)"
    by (simp add: take_bit_eq_mask mask_eq_exp_minus_1)
  also have "\<dots> = 0" by (rule bit_word_eqI) (auto simp: bit_simps)
  finally show ?thesis .
qed

text \<open>The current block: where the next aligned address lies.\<close>

lemma aligned_offset:
  assumes "block_ok b" "k < 62"
  defines "y \<equiv> (bdata b + used b + (2 ^ k - 1)) AND NOT (2 ^ k - 1)"
  shows "unat (bdata b + used b) = unat (baddr b) + 24 + unat (used b)"
    and "unat (bdata b) = unat (baddr b) + 24"
    and "unat (y - bdata b) = unat y - unat (bdata b)"
    and "unat (bdata b) + unat (used b) \<le> unat y" and "unat y < 2 ^ 63 + 2 ^ 62"
    and "2 ^ k dvd unat y"
proof -
  have bd: "unat (bdata b) = unat (baddr b) + 24"
    using assms(1) by (simp add: block_ok_def bdata_def unat_word_ariths)
  have us: "unat (used b) \<le> unat (cap b)" using assms(1) by (simp add: block_ok_def word_le_nat_alt)
  have bu: "unat (bdata b + used b) = unat (bdata b) + unat (used b)"
    using assms(1) bd us by (simp add: block_ok_def unat_word_ariths)
  have lt: "unat (bdata b + used b) < 2 ^ 63" using bu bd us assms(1) by (simp add: block_ok_def)
  have k: "k < 63" using assms(2) by simp
  note r = round_up [OF k lt, folded y_def]
  show "unat (bdata b + used b) = unat (baddr b) + 24 + unat (used b)" using bu bd by simp
  show "unat (bdata b) + unat (used b) \<le> unat y" using r(1) bu by simp
  then show "unat (y - bdata b) = unat y - unat (bdata b)" by (simp add: unat_sub word_le_nat_alt)
  have "(2::nat) ^ k \<le> 2 ^ 62" using assms(2) by (intro power_increasing) auto
  then show "unat y < 2 ^ 63 + 2 ^ 62" using r(2) lt by simp
  show "2 ^ k dvd unat y" by (rule r(3))
  show "unat (bdata b) = unat (baddr b) + 24" by (rule bd)
qed

lemma alloc_in_place:
  assumes "arena_ok a" "k < 62" "unat sz < 2 ^ 62" "b = last (blocks a)"
    and "fastkv_arena_alloc_aligned mem a sz (2 ^ k) = Some (Some p, a')"
    and "length (blocks a') = length (blocks a)"
  shows "\<exists>b'. blocks a' = butlast (blocks a) @ [b'] \<and> baddr b' = baddr b \<and> cap b' = cap b \<and>
    block_ok b' \<and> 2 ^ k dvd unat p \<and> unat (bdata b) + unat (used b) \<le> unat p \<and>
    unat p + unat sz = unat (bdata b) + unat (used b')"
proof -
  let ?y = "(bdata b + used b + (2 ^ k - 1)) AND NOT (2 ^ k - 1)"
  let ?off = "?y - bdata b"
  have b: "block_ok b" using assms(1,4) by (simp add: arena_ok_def)
  note y = aligned_offset [OF b assms(2)]
  have fits: "?off + sz \<le> cap b"
    and res: "p = bdata b + ?off" "blocks a' = butlast (blocks a) @ [b\<lparr>used := ?off + sz\<rparr>]"
    using assms by (auto simp: fastkv_arena_alloc_aligned_def Let_def not_less split: if_splits option.splits)
  have "unat (?off + sz) = unat ?off + unat sz"
    using y(3,5) assms(3) by (simp add: unat_word_ariths)
  moreover have "unat (bdata b + ?off) = unat ?y" by simp
  moreover have "unat ?y = unat (bdata b) + unat ?off" using y(3,4) by simp
  ultimately show ?thesis
    using res fits y(4,6) b by (intro exI [of _ "b\<lparr>used := ?off + sz\<rparr>"]) (simp add: block_ok_def)
qed

lemma alloc_fresh:
  assumes "k < 62" "blocks a \<noteq> []"
    and "fastkv_arena_alloc_aligned mem a sz (2 ^ k) = Some (Some p, a')"
    and "length (blocks a') \<noteq> length (blocks a)"
  shows "\<exists>m. mem = Some m \<and> p = m + 24 \<and>
    blocks a' = blocks a @ [\<lparr>baddr = m, cap = (if sz > block_size a then sz + 2 ^ k else block_size a), used = sz\<rparr>]"
  using assms
  by (auto simp: fastkv_arena_alloc_aligned_def Let_def block_new_def bdata_def split: if_splits option.splits)

section \<open>Statements\<close>

text \<open>
  (memory safety). A block handed out by the arena lies inside the data area of the
  head block of the resulting arena and ends exactly where that block's used part ends; when it was
  carved from the current block, it starts at or after everything handed out before, so live
  allocations never overlap. The well-formedness of the arena is kept. The hypotheses bound the
  request and say that the memory the system returns does not wrap around the address space.
\<close>

lemma arena_alloc_sound:
  assumes "arena_ok a" "k < 62" "unat sz < 2 ^ 62"
    and "fastkv_arena_alloc_aligned mem a sz (2 ^ k) = Some (Some p, a')"
    and "\<And>m. mem = Some m \<Longrightarrow> unat m + 24 + unat (max (block_size a) (sz + 2 ^ k)) < 2 ^ 63"
  shows "arena_ok a' \<and>
    unat (bdata (last (blocks a'))) \<le> unat p \<and>
    unat p + unat sz = unat (bdata (last (blocks a'))) + unat (used (last (blocks a'))) \<and>
    used (last (blocks a')) \<le> cap (last (blocks a')) \<and>
    (length (blocks a') = length (blocks a) \<longrightarrow>
       bdata (last (blocks a')) = bdata (last (blocks a)) \<and>
       unat (bdata (last (blocks a))) + unat (used (last (blocks a))) \<le> unat p)"
proof (cases "length (blocks a') = length (blocks a)")
  case True
  obtain b' where b': "blocks a' = butlast (blocks a) @ [b']" "baddr b' = baddr (last (blocks a))"
      "block_ok b'" "unat (bdata (last (blocks a))) + unat (used (last (blocks a))) \<le> unat p"
      "unat p + unat sz = unat (bdata (last (blocks a))) + unat (used b')"
    using alloc_in_place [OF assms(1-3) refl assms(4) True] by blast
  then have "arena_ok a'" using assms(1) by (auto simp: arena_ok_def dest: in_set_butlastD)
  then show ?thesis using b' by (simp add: bdata_def block_ok_def)
next
  case False
  have ne: "blocks a \<noteq> []" using assms(1) by (simp add: arena_ok_def)
  obtain m where m: "mem = Some m" "p = m + 24" "blocks a' = blocks a @
      [\<lparr>baddr = m, cap = (if sz > block_size a then sz + 2 ^ k else block_size a), used = sz\<rparr>]"
    using alloc_fresh [OF assms(2) ne assms(4) False] by blast
  let ?c = "if sz > block_size a then sz + 2 ^ k else block_size a"
  have k: "(2::nat) ^ k \<le> 2 ^ 62" using assms(2) by (intro power_increasing) auto
  have "unat (2 ^ k :: u64) = 2 ^ k" using assms(2) by (intro unat_exp) simp
  then have "unat (sz + 2 ^ k) = unat sz + 2 ^ k" using assms(3) k by (simp add: unat_word_ariths)
  then have sc: "unat sz \<le> unat ?c" by (auto simp: word_le_nat_alt not_less)
  have "unat ?c \<le> unat (max (block_size a) (sz + 2 ^ k))" by (simp add: max_def word_le_nat_alt)
  then have "block_ok \<lparr>baddr = m, cap = ?c, used = sz\<rparr>"
    using assms(5) [OF m(1)] sc by (simp add: block_ok_def word_le_nat_alt del: if_split)
  then show ?thesis using assms(1) m False sc
    by (auto simp: arena_ok_def bdata_def word_le_nat_alt simp del: if_split)
qed

definition sample_arena :: arena where
  "sample_arena = \<lparr>blocks = [\<lparr>baddr = 0x10000, cap = 4096, used = 40\<rparr>], block_size = 4096, total_allocated = 40\<rparr>"

lemma sample_arena_alloc:
  "fastkv_arena_alloc_aligned None sample_arena 64 (2 ^ 4) = Some (Some 0x10040,
     \<lparr>blocks = [\<lparr>baddr = 0x10000, cap = 4096, used = 104\<rparr>], block_size = 4096, total_allocated = 104\<rparr>)"
  by (simp add: fastkv_arena_alloc_aligned_def sample_arena_def bdata_def Let_def)

lemma arena_alloc_sound_example:
  "unat (0x10018 :: u64) + 40 \<le> unat (0x10040 :: u64) \<and> unat (0x10040 :: u64) + 64 = unat (0x10018 :: u64) + 104"
proof -
  have ok: "arena_ok sample_arena" by (simp add: arena_ok_def sample_arena_def block_ok_def)
  have "(4::nat) < 62" "unat (64 :: u64) < 2 ^ 62" by simp_all
  from arena_alloc_sound [OF ok this sample_arena_alloc]
  show ?thesis by (simp add: sample_arena_def bdata_def)
qed

text \<open>
  As long as the request fits the current block, the address returned is
  a multiple of the requested power of two.
\<close>

lemma arena_alloc_aligned_in_block:
  assumes "arena_ok a" "k < 62" "unat sz < 2 ^ 62"
    and "fastkv_arena_alloc_aligned mem a sz (2 ^ k) = Some (Some p, a')"
    and "length (blocks a') = length (blocks a)"
  shows "2 ^ k dvd unat p"
  using alloc_in_place [OF assms(1-3) refl assms(4,5)] by blast

lemma arena_alloc_aligned_in_block_example: "2 ^ 4 dvd unat (0x10040 :: u64)"
proof -
  have ok: "arena_ok sample_arena" by (simp add: arena_ok_def sample_arena_def block_ok_def)
  have "(4::nat) < 62" "unat (64 :: u64) < 2 ^ 62" by simp_all
  from arena_alloc_aligned_in_block [OF ok this sample_arena_alloc]
  show ?thesis by (simp add: sample_arena_def)
qed

text \<open>
  (safety, violated by the code). When the request opens a new block, \<^verbatim>\<open>offset\<close> is set
  to 0 without rounding: the address is the block address plus the 24 header bytes. A
  \<^verbatim>\<open>malloc\<close> that returns 16-byte aligned memory therefore makes \<^verbatim>\<open>fastkv_arena_alloc\<close>
  return memory that is not aligned for \<^verbatim>\<open>max_align_t\<close>.
\<close>

lemma arena_fresh_block_misaligned:
  assumes "blocks a \<noteq> []" "16 dvd unat m" "unat m < 2 ^ 63"
    and "fastkv_arena_alloc (Some m) a sz = Some (Some p, a')"
    and "length (blocks a') \<noteq> length (blocks a)"
  shows "\<not> 16 dvd unat p"
proof -
  have al: "fastkv_arena_alloc_aligned (Some m) a sz (2 ^ 4) = Some (Some p, a')"
    using assms(4) by (simp add: fastkv_arena_alloc_def)
  have p: "p = m + 24" using alloc_fresh [OF _ assms(1) al assms(5)] by simp
  have "unat p = unat m + 24" using assms(3) unfolding p by (simp add: unat_word_ariths)
  with assms(2) show ?thesis by presburger
qed

lemma arena_fresh_block_misaligned_example: "\<not> 16 dvd unat (0x20018 :: u64)"
proof -
  have "fastkv_arena_alloc (Some 0x20000) sample_arena 5000 = Some (Some 0x20018,
     \<lparr>blocks = [\<lparr>baddr = 0x10000, cap = 4096, used = 40\<rparr>, \<lparr>baddr = 0x20000, cap = 5016, used = 5000\<rparr>],
      block_size = 4096, total_allocated = 5040\<rparr>)"
    by (simp add: fastkv_arena_alloc_def fastkv_arena_alloc_aligned_def sample_arena_def bdata_def
        block_new_def Let_def)
  from arena_fresh_block_misaligned [OF _ _ _ this] show ?thesis by (simp add: sample_arena_def)
qed

end
