(* ===== verification/Mvcc.thy ===== *)
theory Mvcc
  imports Prelude
begin

text \<open>
  \<open>txn/mvcc.c\<close>: the timestamp oracle, a logical clock and a table of 256 slots holding the begin
  timestamps of the active transactions. Each function is one atomic step of the model;
  \<open>Oracle_Steps\<close> takes them apart into their atomic accesses.
\<close>

section \<open>Model\<close>

definition FASTKV_MAX_CONCURRENT_TXN :: nat where
  "FASTKV_MAX_CONCURRENT_TXN = 256"

record ts_oracle =
  clock :: fastkv_ts
  slots :: "fastkv_ts list"

definition fastkv_oracle_init :: ts_oracle where
  "fastkv_oracle_init = \<lparr>clock = 1, slots = replicate FASTKV_MAX_CONCURRENT_TXN 0\<rparr>"

text \<open>The loop over the slots: the index of the first one the compare-and-swap can claim.\<close>

fun free_slot :: "fastkv_ts list \<Rightarrow> nat \<Rightarrow> nat option" where
  "free_slot [] i = None"
| "free_slot (t # ts) i = (if t = 0 then Some i else free_slot ts (i + 1))"

definition fastkv_oracle_begin :: "ts_oracle \<Rightarrow> fastkv_ts \<times> int \<times> ts_oracle" where
  "fastkv_oracle_begin orc =
     (let ts = clock orc;
          orc' = orc\<lparr>clock := clock orc + 1\<rparr>
      in case free_slot (slots orc') 0 of
           Some i \<Rightarrow> (ts, int i, orc'\<lparr>slots := (slots orc')[i := ts]\<rparr>)
         | None \<Rightarrow> (ts, -1, orc'))"

definition fastkv_oracle_commit :: "ts_oracle \<Rightarrow> fastkv_ts \<times> ts_oracle" where
  "fastkv_oracle_commit orc = (clock orc, orc\<lparr>clock := clock orc + 1\<rparr>)"

definition fastkv_oracle_now :: "ts_oracle \<Rightarrow> fastkv_ts" where
  "fastkv_oracle_now orc = clock orc"

definition fastkv_oracle_release :: "ts_oracle \<Rightarrow> int \<Rightarrow> ts_oracle" where
  "fastkv_oracle_release orc slot =
     (if slot \<ge> 0 \<and> slot < int FASTKV_MAX_CONCURRENT_TXN
      then orc\<lparr>slots := (slots orc)[nat slot := 0]\<rparr> else orc)"

definition fastkv_oracle_min_active :: "ts_oracle \<Rightarrow> fastkv_ts" where
  "fastkv_oracle_min_active orc =
     foldl (\<lambda>min_ts ts. if ts \<noteq> 0 \<and> ts < min_ts then ts else min_ts) (clock orc) (slots orc)"

text \<open>\<^verbatim>\<open>fastkv_oracle_advance\<close>: an early return, else the compare-and-swap stores \<open>at_least\<close>.\<close>

definition fastkv_oracle_advance :: "ts_oracle \<Rightarrow> fastkv_ts \<Rightarrow> ts_oracle" where
  "fastkv_oracle_advance orc at_least =
     (if clock orc \<ge> at_least then orc else orc\<lparr>clock := at_least\<rparr>)"

section \<open>Invariant\<close>

definition oracle_wf :: "ts_oracle \<Rightarrow> bool" where
  "oracle_wf orc \<longleftrightarrow> length (slots orc) = FASTKV_MAX_CONCURRENT_TXN \<and> 0 < clock orc \<and>
     (\<forall>t \<in> set (slots orc). t < clock orc)"

lemma init_wf: "oracle_wf fastkv_oracle_init"
  by (simp add: oracle_wf_def fastkv_oracle_init_def)

lemma clock_step: "c < FASTKV_TS_MAX \<Longrightarrow> c < c + 1 \<and> 0 < c + 1" for c :: fastkv_ts
proof -
  assume "c < FASTKV_TS_MAX"
  then have "unat c < 2 ^ 64 - 2" by (simp add: FASTKV_TS_MAX_def word_less_nat_alt)
  then have "unat (c + 1) = unat c + 1" by (simp add: unat_word_ariths)
  then show ?thesis by (simp add: word_less_nat_alt)
qed

lemma free_slot_Some:
  "free_slot ts k = Some i \<Longrightarrow> k \<le> i \<and> i - k < length ts \<and> ts ! (i - k) = 0 \<and> (\<forall>j < i - k. ts ! j \<noteq> 0)"
proof (induction ts arbitrary: k)
  case (Cons t ts)
  show ?case
  proof (cases "t = 0")
    case False
    then have "free_slot ts (k + 1) = Some i" using Cons.prems by simp
    from Cons.IH [OF this] have *: "k + 1 \<le> i" "i - (k + 1) < length ts" "ts ! (i - (k + 1)) = 0"
      "\<forall>j < i - (k + 1). ts ! j \<noteq> 0" by auto
    then have "i - k = Suc (i - (k + 1))" by simp
    with * False show ?thesis by (auto simp: less_Suc_eq_0_disj)
  qed (use Cons.prems in auto)
qed simp

lemma free_slot_None: "free_slot ts k = None \<longleftrightarrow> 0 \<notin> set ts"
  by (induction ts arbitrary: k) auto

lemma begin_cases:
  assumes "fastkv_oracle_begin orc = (ts, slot, orc')"
  shows "ts = clock orc" "clock orc' = clock orc + 1"
    and "(\<exists>i. slot = int i \<and> i < length (slots orc) \<and> slots orc ! i = 0 \<and> slots orc' = (slots orc)[i := ts])
       \<or> (slot = -1 \<and> 0 \<notin> set (slots orc) \<and> slots orc' = slots orc)"
  using assms free_slot_Some [of "slots orc" 0] free_slot_None [of "slots orc" 0]
  by (auto simp: fastkv_oracle_begin_def Let_def split: option.splits)

lemma begin_wf:
  assumes "oracle_wf orc" "clock orc < FASTKV_TS_MAX" "fastkv_oracle_begin orc = (ts, slot, orc')"
  shows "oracle_wf orc'"
proof -
  note b = begin_cases [OF assms(3)]
  have "clock orc < clock orc'" "0 < clock orc'" using b clock_step assms(2) by auto
  moreover have "\<forall>t \<in> set (slots orc'). t \<le> clock orc"
    using b assms(1)
    by (auto simp: oracle_wf_def order.strict_implies_order dest!: set_update_subset_insert [THEN subsetD])
  ultimately show ?thesis using b assms(1) by (auto simp: oracle_wf_def)
qed

lemma commit_wf:
  "oracle_wf orc \<Longrightarrow> clock orc < FASTKV_TS_MAX \<Longrightarrow> oracle_wf (snd (fastkv_oracle_commit orc))"
  using clock_step [of "clock orc"] by (fastforce simp: oracle_wf_def fastkv_oracle_commit_def)

lemma release_wf: "oracle_wf orc \<Longrightarrow> oracle_wf (fastkv_oracle_release orc slot)"
  by (auto simp: oracle_wf_def fastkv_oracle_release_def dest!: set_update_subset_insert [THEN subsetD])

lemma advance_wf: "oracle_wf orc \<Longrightarrow> oracle_wf (fastkv_oracle_advance orc t)"
  by (auto simp: oracle_wf_def fastkv_oracle_advance_def)

lemma advance_clock [simp]: "clock (fastkv_oracle_advance orc t) = max (clock orc) t"
  by (auto simp: fastkv_oracle_advance_def max_def)

lemma advance_slots [simp]: "slots (fastkv_oracle_advance orc t) = slots orc"
  by (simp add: fastkv_oracle_advance_def)

section \<open>The collection bound\<close>

lemma Min_insert_min: "finite S \<Longrightarrow> Min (insert (min a b) S) = Min (insert a (insert b S))"
  for a b :: fastkv_ts
  by (cases "S = {}") (simp_all add: min.assoc)

lemma min_fold:
  "foldl (\<lambda>m t. if t \<noteq> 0 \<and> t < m then t else m) c ts = Min (insert c {t \<in> set ts. t \<noteq> 0})"
  for c :: fastkv_ts
proof (induction ts arbitrary: c)
  case (Cons t ts)
  let ?S = "{u \<in> set ts. u \<noteq> 0}"
  show ?case
  proof (cases "t = 0")
    case True
    then have "{u \<in> set (t # ts). u \<noteq> 0} = ?S" by auto
    with True show ?thesis by (simp add: Cons.IH)
  next
    case False
    then have set: "{u \<in> set (t # ts). u \<noteq> 0} = insert t ?S" by auto
    have step: "(if t \<noteq> 0 \<and> t < c then t else c) = min c t" using False by (auto simp: min_def)
    show ?thesis unfolding set foldl_Cons step Cons.IH by (rule Min_insert_min) simp
  qed
qed simp

lemma min_active_Min: "fastkv_oracle_min_active orc = Min (insert (clock orc) {t \<in> set (slots orc). t \<noteq> 0})"
  unfolding fastkv_oracle_min_active_def by (rule min_fold)

lemma min_active_le:
  "fastkv_oracle_min_active orc \<le> clock orc"
  "t \<in> set (slots orc) \<Longrightarrow> t \<noteq> 0 \<Longrightarrow> fastkv_oracle_min_active orc \<le> t"
  by (simp_all add: min_active_Min)

lemma min_active_in: "fastkv_oracle_min_active orc \<in> insert (clock orc) {t \<in> set (slots orc). t \<noteq> 0}"
  unfolding min_active_Min by (rule Min_in) auto

section \<open>Statements\<close>

text \<open>
  (bounds). The bound handed to the garbage collector is the least begin timestamp of
  the transactions holding a slot, or the clock when there is none: it never exceeds the snapshot
  of a transaction that holds a slot, and nothing smaller would be needed.
\<close>

lemma oracle_min_active_exact:
  "fastkv_oracle_min_active orc = Min (insert (clock orc) {t \<in> set (slots orc). t \<noteq> 0})"
  by (rule min_active_Min)

text \<open>
  (uniqueness). Two timestamps handed out one after the other, whether by a begin or a
  commit, are strictly increasing, as long as the 64-bit clock has not run out.
\<close>

lemma oracle_timestamps_increase:
  assumes "clock orc < FASTKV_TS_MAX"
    and "fastkv_oracle_begin orc = (ts, slot, orc1)"
    and "fastkv_oracle_commit orc = (cts, orc2)"
  shows "ts < fst (fastkv_oracle_commit orc1) \<and> ts < fst (fastkv_oracle_begin orc1) \<and>
    cts < fst (fastkv_oracle_begin orc2)"
proof (intro conjI)
  have b: "fst (fastkv_oracle_begin o') = clock o'" for o'
    using begin_cases(1) by (metis prod.collapse)
  show "ts < fst (fastkv_oracle_commit orc1)" "ts < fst (fastkv_oracle_begin orc1)"
    using begin_cases(1,2) [OF assms(2)] clock_step [OF assms(1)]
    by (simp_all add: b fastkv_oracle_commit_def)
  show "cts < fst (fastkv_oracle_begin orc2)"
    using assms(3) clock_step [OF assms(1)] by (auto simp: b fastkv_oracle_commit_def)
qed

lemma oracle_timestamps_increase_example:
  "(1::fastkv_ts) < fst (fastkv_oracle_commit \<lparr>clock = 2, slots = [1]\<rparr>) \<and>
   (1::fastkv_ts) < fst (fastkv_oracle_begin \<lparr>clock = 2, slots = [1]\<rparr>) \<and>
   (1::fastkv_ts) < fst (fastkv_oracle_begin \<lparr>clock = 2, slots = [0]\<rparr>)"
  by (rule oracle_timestamps_increase [of "\<lparr>clock = 1, slots = [0]\<rparr>" 1 0])
     (simp_all add: FASTKV_TS_MAX_def fastkv_oracle_begin_def fastkv_oracle_commit_def)

end
