(* ===== verification/Txn.thy ===== *)
theory Txn
  imports Arena Mvcc
begin

text \<open>
  \<open>txn/txn_manager.c\<close>: transactions with a private write set, and the manager that begins, commits and
  aborts them.  The write set is the linked list from \<^verbatim>\<open>write_head\<close>, newest entry first; its entries live
  in the arena of the transaction, whose allocations are threaded through (the addresses \<^verbatim>\<open>fkv_malloc\<close>
  would return are arguments).  The two functions of \<open>kv_api.c\<close> that the manager calls on the database are
  arguments of the commit; the theory \<open>Db\<close> supplies them.

  Shown here: reading back the write set gives the last write, a commit ends in exactly one of its outcomes
  with the counters and the oracle slot accounted for, and a failed copy of a value silently turns a put
  into a deletion.
\<close>

section \<open>Model\<close>

datatype fastkv_txn_state = TXN_ACTIVE | TXN_COMMITTED | TXN_ABORTED

record write_entry =
  wkey :: bytes
  wvalue :: slice

record txn =
  txn_begin_ts :: fastkv_ts
  txn_commit_ts :: fastkv_ts
  txn_state :: fastkv_txn_state
  txn_read_only :: bool
  oracle_slot :: int
  txn_arena :: arena
  write_head :: "write_entry list"
  write_count :: u32

record txn_mgr =
  mgr_oracle :: ts_oracle
  num_committed :: u64
  num_aborted :: u64
  num_conflicts :: u64

definition fastkv_txn_mgr_init :: txn_mgr where
  "fastkv_txn_mgr_init =
     \<lparr>mgr_oracle = fastkv_oracle_init, num_committed = 0, num_aborted = 0, num_conflicts = 0\<rparr>"

text \<open>The three allocations of a begin: the transaction, its arena and the arena's base block.\<close>

record begin_env =
  txn_ok :: bool
  arena_a_ok :: bool
  arena_mem :: "u64 option"

definition fastkv_txn_mgr_begin :: "begin_env \<Rightarrow> txn_mgr \<Rightarrow> bool \<Rightarrow> (fastkv_err + txn) \<times> txn_mgr" where
  "fastkv_txn_mgr_begin env mgr read_only =
     (if \<not> txn_ok env then (Inl FASTKV_ERR_NOMEM, mgr)
      else case fastkv_arena_create (arena_a_ok env) (arena_mem env) FASTKV_ARENA_DEFAULT_BLOCK of
             None \<Rightarrow> (Inl FASTKV_ERR_NOMEM, mgr)
           | Some ar \<Rightarrow>
               (case fastkv_oracle_begin (mgr_oracle mgr) of
                  (ts, slot, orc) \<Rightarrow>
                    (Inr \<lparr>txn_begin_ts = ts, txn_commit_ts = FASTKV_TS_INVALID, txn_state = TXN_ACTIVE,
                          txn_read_only = read_only, oracle_slot = slot, txn_arena = ar,
                          write_head = [], write_count = 0\<rparr>,
                     mgr\<lparr>mgr_oracle := orc\<rparr>)))"

text \<open>\<open>None\<close> as the third component: the transaction has been freed.\<close>

definition fastkv_txn_mgr_abort :: "txn_mgr \<Rightarrow> txn \<Rightarrow> fastkv_err \<times> txn_mgr \<times> txn option" where
  "fastkv_txn_mgr_abort mgr txn =
     (if txn_state txn = TXN_ABORTED then (FASTKV_OK, mgr, Some txn)
      else (FASTKV_OK,
            mgr\<lparr>num_aborted := num_aborted mgr + 1,
                mgr_oracle := fastkv_oracle_release (mgr_oracle mgr) (oracle_slot txn)\<rparr>,
            None))"

definition fastkv_txn_mgr_commit ::
  "('db \<Rightarrow> write_entry list \<Rightarrow> fastkv_ts \<Rightarrow> fastkv_err) \<Rightarrow>
   ('db \<Rightarrow> write_entry list \<Rightarrow> fastkv_ts \<Rightarrow> fastkv_err \<times> 'db) \<Rightarrow>
   txn_mgr \<Rightarrow> 'db \<Rightarrow> txn \<Rightarrow> fastkv_err \<times> txn_mgr \<times> 'db \<times> txn option" where
  "fastkv_txn_mgr_commit check_conflicts apply_write_set mgr db txn =
     (let finish = (\<lambda>mgr db. (FASTKV_OK,
            mgr\<lparr>num_committed := num_committed mgr + 1,
                mgr_oracle := fastkv_oracle_release (mgr_oracle mgr) (oracle_slot txn)\<rparr>,
            db, None));
          fail = (\<lambda>rc mgr db. (case fastkv_txn_mgr_abort mgr txn of (_, mgr', t) \<Rightarrow> (rc, mgr', db, t)))
      in if txn_state txn \<noteq> TXN_ACTIVE then (FASTKV_ERR_TXN_CLOSED, mgr, db, Some txn)
         else if \<not> txn_read_only txn \<and> write_head txn \<noteq> []
         then
           let rc = check_conflicts db (write_head txn) (txn_begin_ts txn)
           in if rc = FASTKV_ERR_TXN_CONFLICT
              then fail rc (mgr\<lparr>num_conflicts := num_conflicts mgr + 1\<rparr>) db
              else if rc \<noteq> FASTKV_OK then fail rc mgr db
              else
                (case fastkv_oracle_commit (mgr_oracle mgr) of
                   (commit_ts, orc) \<Rightarrow>
                     let mgr1 = mgr\<lparr>mgr_oracle := orc\<rparr>
                     in (case apply_write_set db (write_head txn) commit_ts of
                           (rc', db') \<Rightarrow>
                             if rc' \<noteq> FASTKV_OK then fail rc' mgr1 db' else finish mgr1 db'))
         else finish mgr db)"

section \<open>The write set\<close>

text \<open>
  What \<^verbatim>\<open>fkv_malloc\<close> would return in the three arena allocations of a write (entry, key, value).  The
  alignment of \<^verbatim>\<open>fastkv_arena_alloc\<close> is a power of two, so its assertion never fails; the branch is merged
  with the failed allocation.
\<close>

type_synonym mems = "u64 option \<times> u64 option \<times> u64 option"

definition arena_take :: "u64 option \<Rightarrow> arena \<Rightarrow> u64 \<Rightarrow> u64 option \<times> arena" where
  "arena_take mem a sz = (case fastkv_arena_alloc mem a sz of None \<Rightarrow> (None, a) | Some r \<Rightarrow> r)"

definition arena_copy :: "u64 option \<Rightarrow> arena \<Rightarrow> bytes \<Rightarrow> bytes option \<times> arena" where
  "arena_copy mem a buf =
     (case fastkv_arena_dup mem a buf of
        None \<Rightarrow> (None, a)
      | Some (r, a') \<Rightarrow> (map_option (\<lambda>_. buf) r, a'))"

definition write_entry_add :: "mems \<Rightarrow> txn \<Rightarrow> bytes \<Rightarrow> slice \<Rightarrow> fastkv_err \<times> txn" where
  "write_entry_add mems txn key val =
     (if txn_read_only txn then (FASTKV_ERR_TXN_RO, txn)
      else if txn_state txn \<noteq> TXN_ACTIVE then (FASTKV_ERR_TXN_CLOSED, txn)
      else
        (case mems of (m1, m2, m3) \<Rightarrow>
        (case arena_take m1 (txn_arena txn) 40 of
           (None, a1) \<Rightarrow> (FASTKV_ERR_NOMEM, txn\<lparr>txn_arena := a1\<rparr>)
         | (Some _, a1) \<Rightarrow>
             (case arena_copy m2 a1 key of
                (k, a2) \<Rightarrow>
                  (case (case val of None \<Rightarrow> (None, a2) | Some bs \<Rightarrow> arena_copy m3 a2 bs) of
                     (v, a3) \<Rightarrow>
                       if k = None \<and> length key > 0 then (FASTKV_ERR_NOMEM, txn\<lparr>txn_arena := a3\<rparr>)
                       else (FASTKV_OK,
                             txn\<lparr>txn_arena := a3,
                                 write_head := \<lparr>wkey = (case k of None \<Rightarrow> [] | Some bs \<Rightarrow> bs), wvalue = v\<rparr> # write_head txn,
                                 write_count := write_count txn + 1\<rparr>))))))"

definition fastkv_txn_write_put :: "mems \<Rightarrow> txn \<Rightarrow> bytes \<Rightarrow> slice \<Rightarrow> fastkv_err \<times> txn" where
  "fastkv_txn_write_put mems txn key val = write_entry_add mems txn key val"

definition fastkv_txn_write_delete :: "mems \<Rightarrow> txn \<Rightarrow> bytes \<Rightarrow> fastkv_err \<times> txn" where
  "fastkv_txn_write_delete mems txn key = write_entry_add mems txn key FASTKV_SLICE_NULL"

fun write_lookup :: "write_entry list \<Rightarrow> bytes \<Rightarrow> fastkv_err + bytes" where
  "write_lookup [] key = Inl FASTKV_ERR_NOTFOUND"
| "write_lookup (e # es) key =
     (if slice_eq (wkey e) key
      then (case wvalue e of None \<Rightarrow> Inl FASTKV_ERR_NOTFOUND | Some bs \<Rightarrow> Inr bs)
      else write_lookup es key)"

definition fastkv_txn_write_lookup :: "txn \<Rightarrow> bytes \<Rightarrow> fastkv_err + bytes" where
  "fastkv_txn_write_lookup txn key = write_lookup (write_head txn) key"

section \<open>Lemmas\<close>

definition mems_ok :: "mems \<Rightarrow> bool" where
  "mems_ok mems = (case mems of (m1, m2, m3) \<Rightarrow> m1 \<noteq> None \<and> m2 \<noteq> None \<and> m3 \<noteq> None)"

lemma arena_alloc_some: "mem \<noteq> None \<Longrightarrow> \<exists>p a'. fastkv_arena_alloc mem a sz = Some (Some p, a')"
  by (auto simp: fastkv_arena_alloc_def fastkv_arena_alloc_aligned_def block_new_def Let_def)

lemma arena_take_some: "mem \<noteq> None \<Longrightarrow> \<exists>p a'. arena_take mem a sz = (Some p, a')"
  using arena_alloc_some [of mem a sz] by (auto simp: arena_take_def)

lemma arena_copy_some: "mem \<noteq> None \<Longrightarrow> \<exists>a'. arena_copy mem a buf = (Some buf, a')"
  using arena_alloc_some [of mem a "of_nat (length buf) + 1"] by (auto simp: arena_copy_def fastkv_arena_dup_def)

definition writable :: "txn \<Rightarrow> bool" where
  "writable txn = (\<not> txn_read_only txn \<and> txn_state txn = TXN_ACTIVE)"

text \<open>A write with memory at hand pushes exactly the pair it was given.\<close>

lemma write_entry_add_ok:
  assumes "mems_ok mems" "writable txn"
  obtains a where "write_entry_add mems txn key val =
    (FASTKV_OK, txn\<lparr>txn_arena := a, write_head := \<lparr>wkey = key, wvalue = val\<rparr> # write_head txn,
                    write_count := write_count txn + 1\<rparr>)"
proof -
  obtain m1 m2 m3 where m: "mems = (m1, m2, m3)" "m1 \<noteq> None" "m2 \<noteq> None" "m3 \<noteq> None"
    using assms(1) by (cases mems) (auto simp: mems_ok_def)
  obtain p a1 where t: "arena_take m1 (txn_arena txn) 40 = (Some p, a1)" using arena_take_some m(2) by blast
  obtain a2 where k: "arena_copy m2 a1 key = (Some key, a2)" using arena_copy_some m(3) by blast
  obtain a3 where v: "(case val of None \<Rightarrow> (None, a2) | Some bs \<Rightarrow> arena_copy m3 a2 bs) = (val, a3)"
    using arena_copy_some [OF m(4), of a2 "slice_bytes val"] by (cases val) auto
  show thesis by (rule that [of a3]) (use assms(2) m(1) t k v in \<open>simp add: write_entry_add_def writable_def\<close>)
qed

lemma write_entry_add_writable: "writable (snd (write_entry_add mems txn key val)) = writable txn"
  by (auto simp: write_entry_add_def writable_def split: prod.split option.split)

lemma write_lookup_map_of:
  "write_lookup es key =
     (case map_of (map (\<lambda>e. (wkey e, wvalue e)) es) key of
        Some (Some bs) \<Rightarrow> Inr bs | _ \<Rightarrow> Inl FASTKV_ERR_NOTFOUND)"
  by (induction es) (auto split: option.split)

definition txn_writes :: "(mems \<times> bytes \<times> slice) list \<Rightarrow> txn \<Rightarrow> txn" where
  "txn_writes ws txn = fold (\<lambda>(mems, k, v) t. snd (write_entry_add mems t k v)) ws txn"

lemma txn_writes_head:
  assumes "\<forall>w\<in>set ws. mems_ok (fst w)" "writable txn"
  shows "write_head (txn_writes ws txn) = rev (map (\<lambda>(m, k, v). \<lparr>wkey = k, wvalue = v\<rparr>) ws) @ write_head txn
    \<and> writable (txn_writes ws txn)"
  using assms
proof (induction ws rule: rev_induct)
  case (snoc w ws)
  obtain m k v where w: "w = (m, k, v)" by (cases w)
  let ?t = "txn_writes ws txn"
  have IH: "write_head ?t = rev (map (\<lambda>(m, k, v). \<lparr>wkey = k, wvalue = v\<rparr>) ws) @ write_head txn" "writable ?t"
    using snoc by auto
  have "mems_ok m" using snoc.prems w by simp
  then obtain a where "write_entry_add m ?t k v =
    (FASTKV_OK, ?t\<lparr>txn_arena := a, write_head := \<lparr>wkey = k, wvalue = v\<rparr> # write_head ?t,
                   write_count := write_count ?t + 1\<rparr>)"
    using write_entry_add_ok IH(2) by metis
  then show ?case using IH by (simp add: txn_writes_def w writable_def)
qed (simp add: txn_writes_def)

section \<open>Properties\<close>

definition sample_txn :: txn where
  "sample_txn = \<lparr>txn_begin_ts = 5, txn_commit_ts = FASTKV_TS_INVALID, txn_state = TXN_ACTIVE,
     txn_read_only = False, oracle_slot = 0, txn_arena = \<lparr>blocks = [\<lparr>baddr = 0x10000, cap = 65536, used = 0\<rparr>],
     block_size = 65536, total_allocated = 0\<rparr>, write_head = [], write_count = 0\<rparr>"

text \<open>
  after any sequence of buffered writes (a NULL value is a deletion) on an active read-write
  transaction, with memory for the copies, looking a key up in the write set gives its last write: the value
  put, or \<^verbatim>\<open>FASTKV_ERR_NOTFOUND\<close> when that was a deletion or there was none.
\<close>
lemma txn_lookup_last_write:
  assumes "\<forall>w\<in>set ws. mems_ok (fst w)" "writable txn" "write_head txn = []"
  shows "fastkv_txn_write_lookup (txn_writes ws txn) key =
     (case map_of (rev (map snd ws)) key of Some (Some bs) \<Rightarrow> Inr bs | _ \<Rightarrow> Inl FASTKV_ERR_NOTFOUND)"
proof -
  have "map (\<lambda>e. (wkey e, wvalue e)) (rev (map (\<lambda>(m, k, v). \<lparr>wkey = k, wvalue = v\<rparr>) ws)) = rev (map snd ws)"
    by (induction ws) auto
  then show ?thesis
    using txn_writes_head [OF assms(1,2)] assms(3) by (simp add: fastkv_txn_write_lookup_def write_lookup_map_of)
qed

lemma txn_lookup_last_write_example:
  "writable sample_txn \<and> write_head sample_txn = [] \<and>
   fastkv_txn_write_lookup
     (txn_writes [((Some 0x20000, Some 0x30000, Some 0x40000), [7], Some [1]),
                  ((Some 0x20000, Some 0x30000, Some 0x40000), [7], Some [2])] sample_txn) [7] = Inr [2]"
  using txn_lookup_last_write [of "[((Some 0x20000, Some 0x30000, Some 0x40000), [7], Some [1]),
      ((Some 0x20000, Some 0x30000, Some 0x40000), [7], Some [2])]" sample_txn "[7]"]
  by (simp add: mems_ok_def writable_def sample_txn_def)

text \<open>
  whatever the conflict check and the application of the write set answer, committing an
  active transaction frees it, releases its oracle slot and moves exactly one of the counters: \<^verbatim>\<open>num_committed\<close>
  when it returns \<^verbatim>\<open>FASTKV_OK\<close>, \<^verbatim>\<open>num_aborted\<close> otherwise; \<^verbatim>\<open>num_conflicts\<close> moves only on a conflict.
\<close>
lemma txn_commit_accounting:
  assumes "txn_state txn = TXN_ACTIVE" and apply_ok: "\<And>db es ts. fst (ap db es ts) \<noteq> FASTKV_ERR_TXN_CONFLICT"
  shows "(case fastkv_txn_mgr_commit ck ap mgr db txn of (rc, mgr', db', t) \<Rightarrow>
      t = None
      \<and> slots (mgr_oracle mgr') = slots (fastkv_oracle_release (mgr_oracle mgr) (oracle_slot txn))
      \<and> num_committed mgr' = num_committed mgr + (if rc = FASTKV_OK then 1 else 0)
      \<and> num_aborted mgr' = num_aborted mgr + (if rc = FASTKV_OK then 0 else 1)
      \<and> num_conflicts mgr' = num_conflicts mgr + (if rc = FASTKV_ERR_TXN_CONFLICT then 1 else 0))"
  using assms(1) apply_ok [of db "write_head txn" "clock (mgr_oracle mgr)"]
  by (auto simp: fastkv_txn_mgr_commit_def fastkv_txn_mgr_abort_def fastkv_oracle_commit_def
      fastkv_oracle_release_def Let_def split: prod.splits)

lemma txn_commit_accounting_example:
  "fastkv_txn_mgr_commit (\<lambda>db es ts. FASTKV_ERR_TXN_CONFLICT) (\<lambda>db es ts. (FASTKV_OK, db)) fastkv_txn_mgr_init ()
      (sample_txn\<lparr>write_head := [\<lparr>wkey = [7], wvalue = None\<rparr>]\<rparr>)
     = (FASTKV_ERR_TXN_CONFLICT, fastkv_txn_mgr_init\<lparr>num_aborted := 1, num_conflicts := 1\<rparr>, (), None)
   \<and> (case fastkv_txn_mgr_commit (\<lambda>db es ts. FASTKV_ERR_TXN_CONFLICT) (\<lambda>db es ts. (FASTKV_OK, db))
        fastkv_txn_mgr_init () sample_txn of (rc, mgr', db', t) \<Rightarrow> t = None)"
proof -
  have r: "(replicate 256 0)[0 := 0] = (replicate 256 0 :: fastkv_ts list)"
    by (metis list_update_id nth_replicate zero_less_numeral)
  have "txn_state sample_txn = TXN_ACTIVE" by (simp add: sample_txn_def)
  then show ?thesis
    using txn_commit_accounting [of sample_txn "\<lambda>(db::unit) es ts. (FASTKV_OK, db)"
        fastkv_txn_mgr_init "\<lambda>db es ts. FASTKV_ERR_TXN_CONFLICT" "()"] r
    by (simp add: fastkv_txn_mgr_commit_def fastkv_txn_mgr_abort_def sample_txn_def fastkv_txn_mgr_init_def
        fastkv_oracle_release_def fastkv_oracle_init_def FASTKV_MAX_CONCURRENT_TXN_def Let_def)
qed

text \<open>
  when the arena has no memory left for the copy of a non-NULL value, the put is still answered
  with \<^verbatim>\<open>FASTKV_OK\<close>, and the write set holds a deletion of the key: only the copy of the key is checked.
\<close>
lemma txn_put_value_oom_is_delete:
  assumes "writable txn" "arena_take m1 (txn_arena txn) 40 = (Some p, a1)"
    "arena_copy m2 a1 key = (Some key, a2)" "arena_copy m3 a2 bs = (None, a3)"
  shows "(case fastkv_txn_write_put (m1, m2, m3) txn key (Some bs) of (rc, txn') \<Rightarrow>
      rc = FASTKV_OK \<and> write_head txn' = \<lparr>wkey = key, wvalue = None\<rparr> # write_head txn)"
  using assms by (simp add: fastkv_txn_write_put_def write_entry_add_def writable_def)

definition small_txn :: txn where
  "small_txn = sample_txn\<lparr>txn_arena := \<lparr>blocks = [\<lparr>baddr = 0x10000, cap = 128, used = 0\<rparr>],
     block_size = 128, total_allocated = 0\<rparr>\<rparr>"

lemma small_txn_arena:
  "arena_take None (txn_arena small_txn) 40 = (Some 0x10020,
     \<lparr>blocks = [\<lparr>baddr = 0x10000, cap = 128, used = 48\<rparr>], block_size = 128, total_allocated = 40\<rparr>)"
  "arena_copy None \<lparr>blocks = [\<lparr>baddr = 0x10000, cap = 128, used = 48\<rparr>], block_size = 128, total_allocated = 40\<rparr> [7]
     = (Some [7], \<lparr>blocks = [\<lparr>baddr = 0x10000, cap = 128, used = 58\<rparr>], block_size = 128, total_allocated = 42\<rparr>)"
  "arena_copy None \<lparr>blocks = [\<lparr>baddr = 0x10000, cap = 128, used = 58\<rparr>], block_size = 128, total_allocated = 42\<rparr>
       (replicate 100 1)
     = (None, \<lparr>blocks = [\<lparr>baddr = 0x10000, cap = 128, used = 58\<rparr>], block_size = 128, total_allocated = 42\<rparr>)"
  by (simp_all add: small_txn_def sample_txn_def arena_take_def arena_copy_def fastkv_arena_dup_def
      fastkv_arena_alloc_def fastkv_arena_alloc_aligned_def block_new_def bdata_def Let_def)

lemma txn_put_value_oom_is_delete_example:
  "writable small_txn \<and>
   write_head (snd (fastkv_txn_write_put (None, None, None) small_txn [7] (Some (replicate 100 1))))
     = [\<lparr>wkey = [7], wvalue = None\<rparr>]
   \<and> fst (fastkv_txn_write_put (None, None, None) small_txn [7] (Some (replicate 100 1))) = FASTKV_OK"
proof -
  have w: "writable small_txn" "write_head small_txn = []"
    by (simp_all add: small_txn_def sample_txn_def writable_def)
  then show ?thesis
    using txn_put_value_oom_is_delete [OF w(1) small_txn_arena]
    by (cases "fastkv_txn_write_put (None, None, None) small_txn [7] (Some (replicate 100 1))") simp
qed

end
