(* ===== verification/Crc32.thy ===== *)
theory Crc32
  imports Bytes
begin

text \<open>
  \<open>util/crc32.c\<close>: CRC-32C. The software path (lookup table built by \<^verbatim>\<open>init_table\<close>) and the
  hardware path (SSE4.2 instructions, eight bytes at a time) are both modelled; the two
  instructions are parameters, with their documented behaviour as the assumptions of the locale
  \<open>crc32_instructions\<close>. The lemmas show that the two paths compute the same function, that the
  checksum of a concatenation can be computed piecewise (the WAL and the snapshot writer depend on
  it), and that any change of a single byte changes the checksum.
\<close>

section \<open>Model\<close>

definition crc_bit :: "u32 \<Rightarrow> u32" where
  "crc_bit crc = drop_bit 1 crc XOR (0x82F63B78 AND (- (crc AND 1)))"

text \<open>\<^verbatim>\<open>init_table\<close>: entry \<open>i\<close> is \<open>i\<close> after eight bit steps.\<close>

definition crc32c_table :: "u32 list" where
  "crc32c_table = map (\<lambda>i. (crc_bit ^^ 8) (of_nat i)) [0..<256]"

definition crc_byte :: "u32 \<Rightarrow> byte \<Rightarrow> u32" where
  "crc_byte crc b = drop_bit 8 crc XOR crc32c_table ! unat ((crc XOR ucast b) AND 0xFF)"

definition fastkv_crc32c :: "u32 \<Rightarrow> bytes \<Rightarrow> u32" where
  "fastkv_crc32c crc buf = NOT (foldl crc_byte (NOT crc) buf)"

text \<open>The hardware path: \<^verbatim>\<open>while (len >= 8)\<close> with the 64-bit instruction, then byte by byte.\<close>

fun crc_hw_loop :: "(u32 \<Rightarrow> u64 \<Rightarrow> u32) \<Rightarrow> (u32 \<Rightarrow> byte \<Rightarrow> u32) \<Rightarrow> u32 \<Rightarrow> bytes \<Rightarrow> u32" where
  "crc_hw_loop mm64 mm8 crc buf =
     (if 8 \<le> length buf
      then crc_hw_loop mm64 mm8 (mm64 crc (le_dec (take 8 buf))) (drop 8 buf)
      else foldl mm8 crc buf)"

declare crc_hw_loop.simps [simp del]

definition fastkv_crc32c_hw ::
  "(u32 \<Rightarrow> u64 \<Rightarrow> u32) \<Rightarrow> (u32 \<Rightarrow> byte \<Rightarrow> u32) \<Rightarrow> u32 \<Rightarrow> bytes \<Rightarrow> u32" where
  "fastkv_crc32c_hw mm64 mm8 crc buf = NOT (crc_hw_loop mm64 mm8 (NOT crc) buf)"

section \<open>The bit step\<close>

lemma xor_cancel_right: "a XOR c = b XOR c \<longleftrightarrow> a = (b :: 'a::len word)"
proof
  assume "a XOR c = b XOR c"
  then have "(a XOR c) XOR c = (b XOR c) XOR c" by simp
  then show "a = b" by (simp add: xor.assoc)
qed simp

lemma crc_bit_odd: "crc_bit c = drop_bit 1 c XOR (if odd c then 0x82F63B78 else 0)"
proof (cases "odd c")
  case True
  then have "c AND 1 = 1" by (simp add: and_one_eq odd_iff_mod_2_eq_one)
  with True show ?thesis by (simp add: crc_bit_def)
next
  case False
  then have "c AND 1 = 0" by (simp add: and_one_eq even_iff_mod_2_eq_zero)
  with False show ?thesis by (simp add: crc_bit_def)
qed

lemma odd_xor: "odd (a XOR b :: u32) \<longleftrightarrow> odd a \<noteq> odd b"
  by (simp add: even_xor_iff)

lemma crc_bit_xor: "crc_bit (a XOR b) = crc_bit a XOR crc_bit b"
  by (rule bit_word_eqI) (auto simp: crc_bit_odd odd_xor bit_simps)

lemma crc_bits_xor: "(crc_bit ^^ n) (a XOR b) = (crc_bit ^^ n) a XOR (crc_bit ^^ n) b"
  by (induction n) (simp_all add: crc_bit_xor)

lemma top_bit_crc_bit: "bit (crc_bit c) 31 \<longleftrightarrow> odd c"
proof -
  have "bit (0x82F63B78 :: u32) 31" by simp
  then show ?thesis using bit_imp_le_length [of c 32] by (auto simp: crc_bit_odd bit_simps)
qed

lemma inj_crc_bit: "inj crc_bit"
proof (rule injI)
  fix a b assume eq: "crc_bit a = crc_bit b"
  then have odd: "odd a \<longleftrightarrow> odd b" by (metis top_bit_crc_bit)
  then have d: "drop_bit 1 a = drop_bit 1 b"
    using eq by (auto simp: crc_bit_odd xor_cancel_right split: if_splits)
  show "a = b"
  proof (rule bit_word_eqI)
    fix n
    show "bit a n = bit b n"
    proof (cases n)
      case 0
      then show ?thesis using odd by (simp add: bit_0)
    next
      case (Suc m)
      have "bit (drop_bit 1 a) m = bit (drop_bit 1 b) m" by (simp only: d)
      with Suc show ?thesis by (simp add: bit_simps)
    qed
  qed
qed

lemma inj_crc_bits: "inj (crc_bit ^^ n)"
  by (induction n) (simp_all add: inj_crc_bit inj_compose del: comp_apply flip: comp_def)

lemma crc_bits_shift: "(crc_bit ^^ n) (push_bit n c) = drop_bit n (push_bit n c)"
proof (induction n arbitrary: c)
  case (Suc n)
  have "even (push_bit (Suc n) c)" by simp
  then have "crc_bit (push_bit (Suc n) c) = drop_bit 1 (push_bit (Suc n) c)"
    by (simp add: crc_bit_odd)
  also have "\<dots> = push_bit n (take_bit (31 - n) c)"
    by (rule bit_word_eqI) (auto simp: bit_simps simp del: push_bit_Suc)
  finally have "(crc_bit ^^ Suc n) (push_bit (Suc n) c)
      = drop_bit n (push_bit n (take_bit (31 - n) c))"
    unfolding funpow_Suc_right comp_def by (simp only: Suc.IH)
  also have "\<dots> = drop_bit (Suc n) (push_bit (Suc n) c)"
    by (rule bit_word_eqI) (auto simp: bit_simps simp del: push_bit_Suc)
  finally show ?case .
qed simp

section \<open>The byte step\<close>

lemma crc_table_nth: "crc32c_table ! unat (x AND 0xFF) = (crc_bit ^^ 8) (x AND 0xFF)"
proof -
  have "x AND 0xFF \<le> 0xFF" by (rule word_and_le1)
  then have "unat (x AND 0xFF) < 256" by (simp add: word_le_nat_alt)
  then show ?thesis by (simp add: crc32c_table_def del: funpow.simps)
qed

text \<open>One table step is eight bit steps of the register with the byte folded in.\<close>

lemma crc_byte_bits: "crc_byte c b = (crc_bit ^^ 8) (c XOR ucast b)"
proof -
  let ?x = "c XOR ucast b :: u32"
  have m: "(0xFF :: u32) = mask 8" by (simp add: mask_eq_exp_minus_1)
  have split: "?x = (?x AND 0xFF) XOR push_bit 8 (drop_bit 8 ?x)"
    unfolding m by (rule bit_word_eqI) (auto simp: bit_simps simp del: bit_mask_iff)
  have "drop_bit 8 (ucast b :: u32) = 0"
    by (rule bit_word_eqI) (auto simp: bit_simps dest: bit_imp_le_length)
  then have hi: "drop_bit 8 ?x = drop_bit 8 c" by (simp add: drop_bit_xor)
  have "(crc_bit ^^ 8) ?x = (crc_bit ^^ 8) (?x AND 0xFF) XOR (crc_bit ^^ 8) (push_bit 8 (drop_bit 8 ?x))"
    by (subst split) (rule crc_bits_xor)
  also have "(crc_bit ^^ 8) (push_bit 8 (drop_bit 8 ?x)) = drop_bit 8 c"
    unfolding crc_bits_shift hi by (rule bit_word_eqI) (auto simp: bit_simps dest: bit_imp_le_length)
  finally show ?thesis
    unfolding crc_byte_def crc_table_nth by (simp only: xor.commute)
qed

lemma crc_byte_unfold: "crc_byte c b =
  crc_bit (crc_bit (crc_bit (crc_bit (crc_bit (crc_bit (crc_bit (crc_bit (c XOR ucast b))))))))"
  by (simp add: crc_byte_bits numeral_eq_Suc)

lemmas crc_eval = fastkv_crc32c_def crc_byte_unfold crc_bit_odd

lemma crc_byte_inject: "crc_byte c x = crc_byte d x \<longleftrightarrow> c = d"
  unfolding crc_byte_bits inj_eq [OF inj_crc_bits] by (rule xor_cancel_right)

lemma crc_byte_inject_byte: "crc_byte c x = crc_byte c y \<longleftrightarrow> x = y"
proof
  assume "crc_byte c x = crc_byte c y"
  then have "ucast x XOR c = ucast y XOR c"
    unfolding crc_byte_bits inj_eq [OF inj_crc_bits] by (simp only: xor.commute)
  then have eq: "(ucast x :: u32) = ucast y" unfolding xor_cancel_right .
  have "(ucast (ucast z :: u32) :: byte) = z" for z :: byte
    by (rule bit_word_eqI) (simp add: bit_simps)
  with eq show "x = y" by metis
qed simp

lemma crc_fold_inject: "foldl crc_byte c xs = foldl crc_byte d xs \<longleftrightarrow> c = d"
  by (induction xs arbitrary: c d) (simp_all add: crc_byte_inject)

section \<open>Properties of the checksum\<close>

lemma crc_append [simp]: "fastkv_crc32c (fastkv_crc32c c xs) ys = fastkv_crc32c c (xs @ ys)"
  by (simp add: fastkv_crc32c_def)

lemma crc_Nil [simp]: "fastkv_crc32c c [] = c"
  by (simp add: fastkv_crc32c_def)

lemma crc_one_byte:
  "x \<noteq> y \<Longrightarrow> fastkv_crc32c c (pre @ x # post) \<noteq> fastkv_crc32c c (pre @ y # post)"
  by (simp add: fastkv_crc32c_def crc_fold_inject crc_byte_inject_byte)

section \<open>The hardware path\<close>

text \<open>
  What the SSE4.2 reference promises of \<^verbatim>\<open>_mm_crc32_u8\<close> (the CRC-32C register after one more
  byte, bit by bit) and of \<^verbatim>\<open>_mm_crc32_u64\<close> (eight of these, low byte first).
\<close>

locale crc32_instructions =
  fixes mm64 :: "u32 \<Rightarrow> u64 \<Rightarrow> u32" and mm8 :: "u32 \<Rightarrow> byte \<Rightarrow> u32"
  assumes mm8_bits: "mm8 crc b = (crc_bit ^^ 8) (crc XOR ucast b)"
    and mm64_bytes: "mm64 crc q = foldl mm8 crc (le_enc 8 q)"
begin

lemma mm8_table: "mm8 = crc_byte"
  by (intro ext) (simp only: mm8_bits crc_byte_bits)

lemma hw_loop: "crc_hw_loop mm64 mm8 crc buf = foldl crc_byte crc buf"
proof (induction "length buf" arbitrary: crc buf rule: less_induct)
  case less
  show ?case
  proof (cases "8 \<le> length buf")
    case True
    have "crc_hw_loop mm64 mm8 crc buf
        = crc_hw_loop mm64 mm8 (mm64 crc (le_dec (take 8 buf))) (drop 8 buf)"
      using True by (simp add: crc_hw_loop.simps [of mm64 mm8 crc buf])
    also have "\<dots> = foldl crc_byte (mm64 crc (le_dec (take 8 buf))) (drop 8 buf)"
      using True by (intro less) simp
    also have "mm64 crc (le_dec (take 8 buf)) = foldl crc_byte crc (take 8 buf)"
      using True by (simp add: mm64_bytes mm8_table le_enc_dec)
    finally show ?thesis by (simp flip: foldl_append)
  next
    case False
    then show ?thesis unfolding crc_hw_loop.simps [of mm64 mm8 crc buf] by (simp add: mm8_table)
  qed
qed

lemma hw_software: "fastkv_crc32c_hw mm64 mm8 crc buf = fastkv_crc32c crc buf"
  by (simp add: fastkv_crc32c_hw_def fastkv_crc32c_def hw_loop)

end

interpretation sw_instr: crc32_instructions "\<lambda>crc q. foldl crc_byte crc (le_enc 8 q)" crc_byte
  by unfold_locales (simp_all only: crc_byte_bits)

section \<open>Statements\<close>



text \<open>
  Property C38 (equivalence of the optimised routine). Compiled for SSE4.2, \<^verbatim>\<open>fastkv_crc32c\<close>
  returns the same checksum as the portable table-driven code, for every start value and buffer,
  given the documented meaning of the two instructions.
\<close>

theorem crc32c_hardware_eq_software:
  assumes "\<And>crc b. mm8 crc b = (crc_bit ^^ 8) (crc XOR ucast b)"
    and "\<And>crc q. mm64 crc q = foldl mm8 crc (le_enc 8 q)"
  shows "fastkv_crc32c_hw mm64 mm8 crc buf = fastkv_crc32c crc buf"
  by (rule crc32_instructions.hw_software, unfold_locales) (fact assms)+

theorem crc32c_hardware_eq_software_witness:
  "fastkv_crc32c_hw (\<lambda>crc q. foldl crc_byte crc (le_enc 8 q)) crc_byte 0 (replicate 19 65)
     = fastkv_crc32c 0 (replicate 19 65)"
  by (rule crc32c_hardware_eq_software) (simp_all only: crc_byte_bits)

text \<open>
  The check value of CRC-32C: the checksum of the ASCII string \<^verbatim>\<open>123456789\<close> is
  \<^verbatim>\<open>0xE3069283\<close>, as \<open>tests/unit/test_crc32.c\<close> expects of a known vector.
\<close>

lemma crc32c_check_value:
  "fastkv_crc32c 0 [0x31, 0x32, 0x33, 0x34, 0x35, 0x36, 0x37, 0x38, 0x39] = 0xE3069283"
  by (simp add: crc_eval)

end
