(* ===== verification/Io.thy ===== *)
theory Io
  imports Bytes "HOL-Library.Sublist"
begin

text \<open>
  \<open>persist/io.c\<close>, the POSIX backend: files written at explicit offsets and flushed by \<^verbatim>\<open>fsync\<close>.  The disk
  maps the names of one directory to contents and remembers what the last \<^verbatim>\<open>fsync\<close> of each file made
  durable.  What the operating system does is an argument: \<open>os n\<close> is the outcome of the \<open>n\<close>-th system call,
  so that full, short and failed writes and failed syncs are all covered.
\<close>

section \<open>The operating system\<close>

type_synonym fname = bytes

datatype sysres = SysOk | SysShort nat | SysErr

type_synonym os = "nat \<Rightarrow> sysres"

record disk =
  files :: "fname \<Rightarrow> bytes option"
  durable :: "fname \<Rightarrow> bytes option"
  calls :: nat

text \<open>\<^verbatim>\<open>pwrite\<close> of a whole block: the file is extended with zeros up to the offset if it is shorter.\<close>

definition file_put :: "bytes \<Rightarrow> nat \<Rightarrow> bytes \<Rightarrow> bytes" where
  "file_put f off bs =
     (if bs = [] then f
      else take off f @ replicate (off - length f) 0 @ bs @ drop (off + length bs) f)"

text \<open>The number of bytes \<^verbatim>\<open>pwrite\<close> returns (-1 for an error) and the disk after it.\<close>

definition sys_pwrite :: "os \<Rightarrow> fname \<Rightarrow> bytes \<Rightarrow> nat \<Rightarrow> disk \<Rightarrow> int \<times> disk" where
  "sys_pwrite os name buf off d =
     (let d' = d\<lparr>calls := calls d + 1\<rparr>
      in case files d name of
           None \<Rightarrow> (-1, d')
         | Some f \<Rightarrow>
             (case os (calls d) of
                SysErr \<Rightarrow> (-1, d')
              | SysShort n \<Rightarrow>
                  (int (min n (length buf)),
                   d'\<lparr>files := (files d)(name \<mapsto> file_put f off (take n buf))\<rparr>)
              | SysOk \<Rightarrow>
                  (int (length buf), d'\<lparr>files := (files d)(name \<mapsto> file_put f off buf)\<rparr>)))"

text \<open>\<^verbatim>\<open>fsync\<close>: 0 and everything written is durable, or -1.\<close>

definition sys_fsync :: "os \<Rightarrow> fname \<Rightarrow> disk \<Rightarrow> int \<times> disk" where
  "sys_fsync os name d =
     (let d' = d\<lparr>calls := calls d + 1\<rparr>
      in if os (calls d) = SysOk then (0, d'\<lparr>durable := (durable d)(name := files d name)\<rparr>) else (-1, d'))"

section \<open>The backend\<close>

definition INT64_MAX :: nat where
  "INT64_MAX = 2 ^ 63 - 1"

definition fastkv_offset_to_offt :: "u64 \<Rightarrow> fastkv_err + nat" where
  "fastkv_offset_to_offt offset =
     (if unat offset > INT64_MAX then Inl FASTKV_ERR_INVAL else Inr (unat offset))"

text \<open>Opening with \<^verbatim>\<open>O_CREAT | O_RDWR\<close>; the two flags are the allocation and the system call.\<close>

definition fastkv_io_open :: "bool \<Rightarrow> bool \<Rightarrow> fname \<Rightarrow> disk \<Rightarrow> fastkv_err \<times> disk" where
  "fastkv_io_open c_ok open_ok name d =
     (if \<not> c_ok then (FASTKV_ERR_NOMEM, d)
      else if \<not> open_ok then (FASTKV_ERR_IO, d)
      else (FASTKV_OK,
            d\<lparr>files := (files d)(name := Some (case files d name of None \<Rightarrow> [] | Some f \<Rightarrow> f))\<rparr>))"

definition fastkv_io_size :: "fname \<Rightarrow> disk \<Rightarrow> fastkv_err + u64" where
  "fastkv_io_size name d =
     (case files d name of None \<Rightarrow> Inl FASTKV_ERR_IO | Some f \<Rightarrow> Inr (of_nat (length f)))"

definition fastkv_io_pwrite :: "os \<Rightarrow> fname \<Rightarrow> bytes \<Rightarrow> u64 \<Rightarrow> disk \<Rightarrow> fastkv_err \<times> disk" where
  "fastkv_io_pwrite os name buf offset d =
     (case fastkv_offset_to_offt offset of
        Inl rc \<Rightarrow> (rc, d)
      | Inr off \<Rightarrow>
          (case sys_pwrite os name buf off d of
             (written, d') \<Rightarrow> (if written = int (length buf) then FASTKV_OK else FASTKV_ERR_IO, d')))"

definition fastkv_io_sync :: "os \<Rightarrow> fname \<Rightarrow> disk \<Rightarrow> fastkv_err \<times> disk" where
  "fastkv_io_sync os name d =
     (case sys_fsync os name d of (r, d') \<Rightarrow> (if r = 0 then FASTKV_OK else FASTKV_ERR_IO, d'))"

text \<open>
  Mapping \<open>length\<close> bytes for reading: \<^verbatim>\<open>mmap\<close> fails for a length of 0, or when the system refuses (\<open>map_ok\<close>).
\<close>

definition fastkv_io_mmap :: "bool \<Rightarrow> fname \<Rightarrow> u64 \<Rightarrow> u64 \<Rightarrow> disk \<Rightarrow> fastkv_err + bytes" where
  "fastkv_io_mmap map_ok name offset len d =
     (case fastkv_offset_to_offt offset of
        Inl rc \<Rightarrow> Inl rc
      | Inr off \<Rightarrow>
          if len = 0 \<or> \<not> map_ok then Inl FASTKV_ERR_IO
          else case files d name of None \<Rightarrow> Inl FASTKV_ERR_IO | Some f \<Rightarrow> Inr (take (unat len) (drop off f)))"

text \<open>
  The other calls of the POSIX branch: its asynchronous write is the synchronous one; a NULL handle or address
  is tested for; \<open>unmap_ok\<close> is the system's answer to \<^verbatim>\<open>munmap\<close>.
\<close>

definition fastkv_io_pwrite_async :: "os \<Rightarrow> fname \<Rightarrow> bytes \<Rightarrow> u64 \<Rightarrow> disk \<Rightarrow> fastkv_err \<times> disk" where
  "fastkv_io_pwrite_async os name buf offset d = fastkv_io_pwrite os name buf offset d"

definition fastkv_io_munmap :: "bool \<Rightarrow> bytes option \<Rightarrow> fastkv_err" where
  "fastkv_io_munmap unmap_ok addr =
     (case addr of None \<Rightarrow> FASTKV_ERR_INVAL | Some _ \<Rightarrow> if unmap_ok then FASTKV_OK else FASTKV_ERR_IO)"

text \<open>\<^verbatim>\<open>remove\<close> and \<^verbatim>\<open>rename\<close> of the C library; a renamed file keeps what has been synced of it.\<close>

definition sys_remove :: "bool \<Rightarrow> fname \<Rightarrow> disk \<Rightarrow> disk" where
  "sys_remove ok name d = (if ok then d\<lparr>files := (files d)(name := None), durable := (durable d)(name := None)\<rparr> else d)"

definition sys_rename :: "fname \<Rightarrow> fname \<Rightarrow> disk \<Rightarrow> disk" where
  "sys_rename old new d =
     d\<lparr>files := (files d)(old := None, new := files d old), durable := (durable d)(old := None, new := durable d old)\<rparr>"

section \<open>Lemmas\<close>

lemma file_put_append: "file_put f (length f) bs = f @ bs"
  by (simp add: file_put_def)

text \<open>Writing again what a short write left behind.\<close>

lemma file_put_over:
  assumes "off = length base" "prefix junk bs"
  shows "file_put (base @ junk) off bs = base @ bs"
  using assms by (auto simp: file_put_def prefix_def)

lemma file_put_short:
  assumes "off = length base" "prefix junk bs"
  shows "\<exists>junk'. file_put (base @ junk) off (take n bs) = base @ junk' \<and> prefix junk' bs"
proof (cases "take n bs = []")
  case False
  then have "file_put (base @ junk) off (take n bs) = base @ take n bs @ drop (length (take n bs)) junk"
    using assms(1) by (simp add: file_put_def)
  moreover have "prefix (take n bs @ drop (length (take n bs)) junk) bs"
  proof (cases "length junk \<le> n")
    case True
    with assms(2) have "drop (length (take n bs)) junk = []" by (auto simp: prefix_def)
    then show ?thesis by (simp add: take_is_prefix)
  next
    case False
    with assms(2) have "take n bs @ drop (length (take n bs)) junk = junk"
      by (auto simp: prefix_def min_def)
    with assms(2) show ?thesis by simp
  qed
  ultimately show ?thesis by blast
next
  case True
  with assms show ?thesis by (auto simp: file_put_def)
qed

text \<open>
  A write of \<open>bs\<close> at the end of \<open>base\<close>, where an earlier short write may have left a prefix of \<open>bs\<close>: on
  success the file is \<open>base @ bs\<close>, otherwise still \<open>base\<close> and a prefix of \<open>bs\<close>.
\<close>

lemma io_pwrite_prefix:
  assumes "files d name = Some (base @ junk)" "unat offset = length base" "prefix junk bs"
    and res: "fastkv_io_pwrite os name bs offset d = (rc, d')"
  shows "\<exists>junk'. files d' name = Some (base @ junk') \<and> prefix junk' bs \<and> (rc = FASTKV_OK \<longrightarrow> junk' = bs)"
    "durable d' = durable d" "\<forall>n. n \<noteq> name \<longrightarrow> files d' n = files d n"
proof -
  show "durable d' = durable d" "\<forall>n. n \<noteq> name \<longrightarrow> files d' n = files d n"
    using res by (auto simp: fastkv_io_pwrite_def fastkv_offset_to_offt_def sys_pwrite_def Let_def
        split: if_splits option.splits sysres.splits)
  show "\<exists>junk'. files d' name = Some (base @ junk') \<and> prefix junk' bs \<and> (rc = FASTKV_OK \<longrightarrow> junk' = bs)"
  proof (cases "unat offset > INT64_MAX")
    case True
    with res assms show ?thesis by (auto simp: fastkv_io_pwrite_def fastkv_offset_to_offt_def)
  next
    case False
    note off = assms(2)
    show ?thesis
    proof (cases "os (calls d)")
      case SysOk
      then have "files d' name = Some (file_put (base @ junk) (length base) bs)"
        using res False assms(1,2) by (auto simp: fastkv_io_pwrite_def fastkv_offset_to_offt_def sys_pwrite_def Let_def)
      then show ?thesis using file_put_over [OF refl assms(3)] by auto
    next
      case (SysShort n)
      then have d': "files d' name = Some (file_put (base @ junk) (length base) (take n bs))"
        and rc: "rc = FASTKV_OK \<longrightarrow> length bs \<le> n"
        using res False assms(1,2)
        by (auto simp: fastkv_io_pwrite_def fastkv_offset_to_offt_def sys_pwrite_def Let_def min_def split: if_splits)
      show ?thesis
      proof (cases "length bs \<le> n")
        case True
        then show ?thesis using d' file_put_over [OF refl assms(3)] by auto
      next
        case False
        then show ?thesis using d' rc file_put_short [OF refl assms(3), of base n] by auto
      qed
    next
      case SysErr
      then show ?thesis using res False assms(1,3)
        by (auto simp: fastkv_io_pwrite_def fastkv_offset_to_offt_def sys_pwrite_def Let_def)
    qed
  qed
qed

lemma io_sync_cases:
  assumes "fastkv_io_sync os name d = (rc, d')"
  shows "files d' = files d" "rc = FASTKV_OK \<longrightarrow> durable d' = (durable d)(name := files d name)"
    "rc \<noteq> FASTKV_OK \<longrightarrow> durable d' = durable d"
  using assms by (auto simp: fastkv_io_sync_def sys_fsync_def Let_def split: if_splits)

end
