(* ===== verification/Wal.thy ===== *)
theory Wal
  imports Crc32 Io
begin

text \<open>
  \<open>wal/wal.c\<close>: the write-ahead log.  Records are serialised into a 64 KiB buffer that is written to the
  current segment file when full, on \<^verbatim>\<open>sync\<close>, and after each record in synchronous mode; recovery replays
  the segments of the directory in name order and stops at the first torn or corrupt record.  The buffer is a
  list (\<^verbatim>\<open>buf_len\<close> is its length), the files are those of the theory \<open>Io\<close>, and the segment name that
  \<^verbatim>\<open>uuid7_hex\<close> generates is an argument (see \<open>Uuid7\<close>).  The allocations of the recovery succeed; the lock only
  serialises the operations.

  Shown here: whatever the operating system does, the file always holds a prefix of the stream of appended
  records and a successful synchronous append is durable; the replay of any prefix of the stream delivers
  exactly the records it contains completely; a corrupted byte never gets delivered.
\<close>

section \<open>Records\<close>

definition WAL_VLEN_TOMBSTONE :: u32 where
  "WAL_VLEN_TOMBSTONE = 0xFFFFFFFF"

definition WAL_HEADER_SIZE :: nat where
  "WAL_HEADER_SIZE = 4 + 1 + 8 + 4 + 4"

definition WAL_BUF_CAP :: nat where
  "WAL_BUF_CAP = 65536"

datatype wal_rec_type = WAL_REC_PUT | WAL_REC_DELETE | WAL_REC_COMMIT | WAL_REC_BEGIN

fun rec_code :: "wal_rec_type \<Rightarrow> byte" where
  "rec_code WAL_REC_PUT = 1"
| "rec_code WAL_REC_DELETE = 2"
| "rec_code WAL_REC_COMMIT = 3"
| "rec_code WAL_REC_BEGIN = 4"

record wal_record =
  rcrc :: u32
  rts :: fastkv_ts
  rtype :: byte
  rkey :: bytes
  rvalue :: slice

text \<open>The lengths and the checksum as \<^verbatim>\<open>fastkv_wal_append\<close> computes them, one call per field.\<close>

definition rec_vlen :: "slice \<Rightarrow> u32" where
  "rec_vlen val = (case val of None \<Rightarrow> WAL_VLEN_TOMBSTONE | Some bs \<Rightarrow> of_nat (length bs))"

definition rec_crc :: "byte \<Rightarrow> fastkv_ts \<Rightarrow> bytes \<Rightarrow> slice \<Rightarrow> u32" where
  "rec_crc t ts key val =
     (let crc = fastkv_crc32c 0 [t];
          crc = fastkv_crc32c crc (le64 ts);
          crc = fastkv_crc32c crc (le32 (of_nat (length key)));
          crc = fastkv_crc32c crc (le32 (rec_vlen val));
          crc = (if key \<noteq> [] then fastkv_crc32c crc key else crc);
          crc = (if slice_bytes val \<noteq> [] then fastkv_crc32c crc (slice_bytes val) else crc)
      in crc)"

definition rec_chunks :: "wal_rec_type \<Rightarrow> fastkv_ts \<Rightarrow> bytes \<Rightarrow> slice \<Rightarrow> bytes list" where
  "rec_chunks ty ts key val =
     [le32 (rec_crc (rec_code ty) ts key val), [rec_code ty], le64 ts, le32 (of_nat (length key)),
      le32 (rec_vlen val)]
     @ (if key \<noteq> [] then [key] else []) @ (if slice_bytes val \<noteq> [] then [slice_bytes val] else [])"

section \<open>Writing\<close>

record wal =
  sync_writes :: bool
  bytes_written :: u64
  file_offset :: u64
  segment_id :: bytes
  wbuf :: bytes
  hook_set :: bool

text \<open>\<^verbatim>\<open>wal-\<close> and \<^verbatim>\<open>.log\<close>, and the file name of a segment.\<close>

definition WAL_FILENAME_PFX :: bytes where
  "WAL_FILENAME_PFX = [0x77, 0x61, 0x6C, 0x2D]"

definition WAL_FILENAME_SFX :: bytes where
  "WAL_FILENAME_SFX = [0x2E, 0x6C, 0x6F, 0x67]"

definition WAL_SEG_ID_LEN :: nat where
  "WAL_SEG_ID_LEN = 32"

definition seg_file :: "bytes \<Rightarrow> fname" where
  "seg_file seg = WAL_FILENAME_PFX @ seg @ WAL_FILENAME_SFX"

definition flush_buf :: "os \<Rightarrow> bool \<Rightarrow> wal \<Rightarrow> disk \<Rightarrow> fastkv_err \<times> wal \<times> disk" where
  "flush_buf os sync w d =
     (let r = (if length (wbuf w) > 0
               then case fastkv_io_pwrite os (seg_file (segment_id w)) (wbuf w) (file_offset w) d of
                      (rc, d1) \<Rightarrow>
                        if rc \<noteq> FASTKV_OK then (rc, w, d1)
                        else (FASTKV_OK, w\<lparr>file_offset := file_offset w + of_nat (length (wbuf w)), wbuf := []\<rparr>, d1)
               else (FASTKV_OK, w, d))
      in case r of (rc, w1, d1) \<Rightarrow>
           if rc \<noteq> FASTKV_OK then (rc, w1, d1)
           else if sync
           then (case fastkv_io_sync os (seg_file (segment_id w1)) d1 of (rc', d2) \<Rightarrow> (rc', w1, d2))
           else (FASTKV_OK, w1, d1))"

text \<open>
  The copy loop of \<^verbatim>\<open>wal_write_buf\<close>; after a successful flush the whole buffer is free.
\<close>

function wal_write_buf :: "os \<Rightarrow> bytes \<Rightarrow> wal \<Rightarrow> disk \<Rightarrow> fastkv_err \<times> wal \<times> disk" where
  "wal_write_buf os data w d =
     (if data = [] then (FASTKV_OK, w, d)
      else if WAL_BUF_CAP - length (wbuf w) = 0
      then case flush_buf os False w d of
             (rc, w1, d1) \<Rightarrow>
               if rc \<noteq> FASTKV_OK then (rc, w1, d1)
               else let to_copy = min (length data) WAL_BUF_CAP
                    in wal_write_buf os (drop to_copy data) (w1\<lparr>wbuf := wbuf w1 @ take to_copy data\<rparr>) d1
      else let to_copy = min (length data) (WAL_BUF_CAP - length (wbuf w))
           in wal_write_buf os (drop to_copy data) (w\<lparr>wbuf := wbuf w @ take to_copy data\<rparr>) d)"
  by pat_completeness auto
termination
  by (relation "measure (\<lambda>(os, data, w, d). length data)") (auto simp: WAL_BUF_CAP_def)

declare wal_write_buf.simps [simp del]

fun wal_write_all :: "os \<Rightarrow> bytes list \<Rightarrow> wal \<Rightarrow> disk \<Rightarrow> fastkv_err \<times> wal \<times> disk" where
  "wal_write_all os [] w d = (FASTKV_OK, w, d)"
| "wal_write_all os (c # cs) w d =
     (case wal_write_buf os c w d of
        (rc, w1, d1) \<Rightarrow> if rc \<noteq> FASTKV_OK then (rc, w1, d1) else wal_write_all os cs w1 d1)"

text \<open>
  \<^verbatim>\<open>fastkv_wal_append\<close>.  The last component is what the replication hook is called with, if it is set and
  its temporary buffer can be allocated (\<open>tmp_ok\<close>).
\<close>

definition fastkv_wal_append ::
  "os \<Rightarrow> bool \<Rightarrow> wal \<Rightarrow> disk \<Rightarrow> wal_rec_type \<Rightarrow> fastkv_ts \<Rightarrow> bytes \<Rightarrow> slice \<Rightarrow>
   fastkv_err \<times> wal \<times> disk \<times> bytes option" where
  "fastkv_wal_append os tmp_ok w d ty ts key val =
     (let chunks = rec_chunks ty ts key val
      in case wal_write_all os chunks w d of
           (rc, w1, d1) \<Rightarrow>
             if rc \<noteq> FASTKV_OK then (rc, w1, d1, None)
             else
               let w2 = w1\<lparr>bytes_written := bytes_written w1
                            + of_nat (WAL_HEADER_SIZE + length key + slice_len val)\<rparr>;
                   hooked = (if hook_set w2 \<and> tmp_ok then Some (concat chunks) else None)
               in if sync_writes w2
                  then case flush_buf os True w2 d1 of (rc', w3, d3) \<Rightarrow> (rc', w3, d3, hooked)
                  else (FASTKV_OK, w2, d1, hooked))"

definition fastkv_wal_set_hook :: "wal \<Rightarrow> bool \<Rightarrow> wal" where
  "fastkv_wal_set_hook w fn = w\<lparr>hook_set := fn\<rparr>"

definition fastkv_wal_sync :: "os \<Rightarrow> wal \<Rightarrow> disk \<Rightarrow> fastkv_err \<times> wal \<times> disk" where
  "fastkv_wal_sync os w d = flush_buf os True w d"

definition fastkv_wal_close :: "os \<Rightarrow> wal \<Rightarrow> disk \<Rightarrow> disk" where
  "fastkv_wal_close os w d = (case flush_buf os True w d of (_, _, d') \<Rightarrow> d')"

definition fastkv_wal_bytes_written :: "wal option \<Rightarrow> u64" where
  "fastkv_wal_bytes_written w = (case w of None \<Rightarrow> 0 | Some w \<Rightarrow> bytes_written w)"

definition fastkv_wal_current_segment :: "wal \<Rightarrow> bytes" where
  "fastkv_wal_current_segment w = segment_id w"

section \<open>Segments\<close>

text \<open>\<^verbatim>\<open>strstr\<close>: the index of the first occurrence.\<close>

fun strstr :: "bytes \<Rightarrow> bytes \<Rightarrow> nat option" where
  "strstr pat [] = (if pat = [] then Some 0 else None)"
| "strstr pat (c # cs) = (if take (length pat) (c # cs) = pat then Some 0 else map_option Suc (strstr pat cs))"

text \<open>The tests of the directory loops: the segment id of a name, or none when the loop continues.\<close>

definition seg_of_name :: "fname \<Rightarrow> bytes option" where
  "seg_of_name name =
     (if take (length WAL_FILENAME_PFX) name \<noteq> WAL_FILENAME_PFX then None
      else case strstr WAL_FILENAME_SFX name of
             None \<Rightarrow> None
           | Some sfx \<Rightarrow>
               let hex = drop (length WAL_FILENAME_PFX) name;
                   hexlen = (of_nat sfx - of_nat (length WAL_FILENAME_PFX) :: u64)
               in if hexlen \<noteq> of_nat WAL_SEG_ID_LEN then None else Some (take WAL_SEG_ID_LEN hex))"

text \<open>\<open>listing\<close> is what \<^verbatim>\<open>readdir\<close> returns, in its order; \<^term>\<open>None\<close> is a failed \<^verbatim>\<open>opendir\<close>.\<close>

definition collect_segments :: "fname list option \<Rightarrow> fastkv_err + bytes list" where
  "collect_segments listing =
     (case listing of
        None \<Rightarrow> Inl FASTKV_ERR_IO
      | Some names \<Rightarrow> Inr (sort (List.map_filter seg_of_name names)))"

text \<open>The newest segment: the comparison is with the rest of the file name, suffix included.\<close>

definition newest_segment :: "fname list option \<Rightarrow> bytes" where
  "newest_segment listing =
     (case listing of
        None \<Rightarrow> []
      | Some names \<Rightarrow>
          foldl (\<lambda>cur name. case seg_of_name name of
                   None \<Rightarrow> cur
                 | Some seg \<Rightarrow> if cmp (drop (length WAL_FILENAME_PFX) name) cur > 0 then seg else cur) [] names)"

record wal_open_env =
  w_ok :: bool
  dir_ok :: bool
  listing :: "fname list option"
  fresh_seg :: bytes
  ctx_ok :: bool
  open_ok :: bool

definition fastkv_wal_open :: "wal_open_env \<Rightarrow> bool \<Rightarrow> disk \<Rightarrow> (fastkv_err + wal) \<times> disk" where
  "fastkv_wal_open env sync d =
     (if \<not> w_ok env then (Inl FASTKV_ERR_NOMEM, d)
      else if \<not> dir_ok env then (Inl FASTKV_ERR_NOMEM, d)
      else
        let found = newest_segment (listing env);
            seg = (if found = [] then fresh_seg env else found);
            off = (case files d (seg_file seg) of None \<Rightarrow> 0 | Some f \<Rightarrow> of_nat (length f))
        in case fastkv_io_open (ctx_ok env) (open_ok env) (seg_file seg) d of
             (rc, d') \<Rightarrow>
               if rc \<noteq> FASTKV_OK then (Inl rc, d')
               else (Inr \<lparr>sync_writes = sync, bytes_written = 0, file_offset = off, segment_id = seg,
                          wbuf = [], hook_set = False\<rparr>, d'))"

text \<open>\<^verbatim>\<open>fastkv_wal_rotate\<close> ignores the result of the flush; the buffer is not emptied when it fails.\<close>

definition fastkv_wal_rotate :: "os \<Rightarrow> bool \<Rightarrow> bool \<Rightarrow> bytes \<Rightarrow> wal \<Rightarrow> disk \<Rightarrow> fastkv_err \<times> wal \<times> disk" where
  "fastkv_wal_rotate os c_ok op_ok seg w d =
     (case flush_buf os True w d of
        (_, w1, d1) \<Rightarrow>
          let w2 = w1\<lparr>segment_id := seg, file_offset := 0\<rparr>
          in case fastkv_io_open c_ok op_ok (seg_file seg) d1 of (rc, d2) \<Rightarrow> (rc, w2, d2))"

text \<open>\<open>rm\<close> says for which names \<^verbatim>\<open>remove\<close> succeeds.\<close>

definition fastkv_wal_trim ::
  "(fname \<Rightarrow> bool) \<Rightarrow> fname list option \<Rightarrow> bytes \<Rightarrow> disk \<Rightarrow> fastkv_err \<times> disk" where
  "fastkv_wal_trim rm names keep_from d =
     (case collect_segments names of
        Inl rc \<Rightarrow> (rc, d)
      | Inr segs \<Rightarrow>
          (FASTKV_OK,
           foldl (\<lambda>d seg. if cmp seg keep_from \<ge> 0 then d
                          else if rm (seg_file seg) then d\<lparr>files := (files d)(seg_file seg := None)\<rparr> else d) d segs))"

section \<open>Recovery\<close>

text \<open>
  One turn of the loop of \<^verbatim>\<open>replay_segment\<close> up to the checksum test: the fields of the next record and the
  rest of the file, or \<^term>\<open>None\<close> for any of its \<^verbatim>\<open>break\<close>s.
\<close>

definition read_bytes :: "nat \<Rightarrow> bytes \<Rightarrow> (bytes \<times> bytes) option" where
  "read_bytes n f = (if length f < n then None else Some (take n f, drop n f))"

record raw_record =
  stored_crc :: u32
  type_byte :: byte
  raw_ts :: u64
  raw_vlen :: u32
  key_buf :: bytes
  val_buf :: bytes

text \<open>Behind the header: the plausibility of the lengths, the payload, and the checksum over all fields.\<close>

definition read_payload :: "bytes \<Rightarrow> bytes \<Rightarrow> bytes \<Rightarrow> bytes \<Rightarrow> bytes \<Rightarrow> bytes \<Rightarrow> (raw_record \<times> bytes) option" where
  "read_payload crc ty ts kl vl f5 =
     (let klen = le_dec kl :: u32;
          vlen = le_dec vl :: u32;
          real_vlen = (if vlen = WAL_VLEN_TOMBSTONE then 0 else vlen)
      in if unat klen > FASTKV_MAX_KEY_LEN then None
         else if unat real_vlen > FASTKV_MAX_VAL_LEN then None
         else
           Option.bind (read_bytes (unat klen) f5) (\<lambda>(key, f6).
           Option.bind (read_bytes (unat real_vlen) f6) (\<lambda>(val, f7).
             let computed = fastkv_crc32c 0 ty;
                 computed = fastkv_crc32c computed ts;
                 computed = fastkv_crc32c computed kl;
                 computed = fastkv_crc32c computed vl;
                 computed = (if klen \<noteq> 0 then fastkv_crc32c computed key else computed);
                 computed = (if real_vlen \<noteq> 0 then fastkv_crc32c computed val else computed)
             in if computed \<noteq> le_dec crc then None
                else Some (\<lparr>stored_crc = le_dec crc, type_byte = hd ty, raw_ts = le_dec ts,
                            raw_vlen = vlen, key_buf = key, val_buf = val\<rparr>, f7))))"

definition read_record :: "bytes \<Rightarrow> (raw_record \<times> bytes) option" where
  "read_record f0 =
     Option.bind (read_bytes 4 f0) (\<lambda>(crc, f1).
     Option.bind (read_bytes 1 f1) (\<lambda>(ty, f2).
     Option.bind (read_bytes 8 f2) (\<lambda>(ts, f3).
     Option.bind (read_bytes 4 f3) (\<lambda>(kl, f4).
     Option.bind (read_bytes 4 f4) (\<lambda>(vl, f5). read_payload crc ty ts kl vl f5)))))"

lemma read_bytes_iff: "read_bytes n f = Some (a, g) \<longleftrightarrow> f = a @ g \<and> length a = n"
  by (auto simp: read_bytes_def)

lemma read_recordE:
  assumes "read_record f = Some x"
  obtains c ty ts kl vl g where "f = c @ ty @ ts @ kl @ vl @ g" "length c = 4" "length ty = 1" "length ts = 8"
    "length kl = 4" "length vl = 4" "read_payload c ty ts kl vl g = Some x"
  using assms by (clarsimp simp: read_record_def bind_eq_Some_conv read_bytes_iff)

lemma read_payloadE:
  assumes "read_payload c ty ts kl vl f = Some (r, rest)"
  obtains key val where "f = key @ val @ rest" "length key = unat (le_dec kl :: u32)"
    "length val = unat (if (le_dec vl :: u32) = WAL_VLEN_TOMBSTONE then 0 else le_dec vl :: u32)"
    "length key \<le> FASTKV_MAX_KEY_LEN" "length val \<le> FASTKV_MAX_VAL_LEN"
proof -
  define vn where "vn = (if (le_dec vl :: u32) = WAL_VLEN_TOMBSTONE then 0 else le_dec vl :: u32)"
  have "\<not> unat (le_dec kl :: u32) > FASTKV_MAX_KEY_LEN" "\<not> unat vn > FASTKV_MAX_VAL_LEN"
    using assms unfolding read_payload_def Let_def vn_def [symmetric] by (metis option.distinct(1))+
  moreover from this obtain key f6 val where "read_bytes (unat (le_dec kl :: u32)) f = Some (key, f6)"
    "read_bytes (unat vn) f6 = Some (val, rest)"
    using assms unfolding read_payload_def Let_def vn_def [symmetric]
    by (fastforce simp: bind_eq_Some_conv split: if_splits)
  ultimately show thesis using that [of key val] by (auto simp: read_bytes_iff vn_def)
qed

lemma read_record_shorter: "read_record f = Some (r, rest) \<Longrightarrow> length rest < length f"
  by (elim read_recordE read_payloadE) simp

type_synonym 'u replay_fn = "wal_record \<Rightarrow> 'u \<Rightarrow> fastkv_err \<times> 'u"

record 'u replay =
  udata :: 'u
  max_ts :: fastkv_ts
  rec_count :: u64

text \<open>
  The loop.  \<open>have_vbuf\<close>: a value buffer has been allocated, so that a later empty value is a non-NULL
  slice of length 0.
\<close>

function replay_loop :: "fastkv_ts \<Rightarrow> 'u replay_fn \<Rightarrow> bool \<Rightarrow> bytes \<Rightarrow> 'u replay \<Rightarrow> fastkv_err \<times> 'u replay" where
  "replay_loop since fn have_vbuf f s =
     (case read_record f of
        None \<Rightarrow> (FASTKV_OK, s)
      | Some (r, rest) \<Rightarrow>
          let vb = (have_vbuf \<or> val_buf r \<noteq> []);
              s1 = (if raw_ts r > max_ts s then s\<lparr>max_ts := raw_ts r\<rparr> else s)
          in if raw_ts r \<le> since then replay_loop since fn vb rest s1
             else if type_byte r \<noteq> rec_code WAL_REC_PUT \<and> type_byte r \<noteq> rec_code WAL_REC_DELETE
             then replay_loop since fn vb rest s1
             else
               (case fn \<lparr>rcrc = stored_crc r, rts = raw_ts r, rtype = type_byte r, rkey = key_buf r,
                         rvalue = (if raw_vlen r = WAL_VLEN_TOMBSTONE then None
                                   else if vb then Some (val_buf r) else None)\<rparr> (udata s1) of
                  (rc, u) \<Rightarrow>
                    if rc \<noteq> FASTKV_OK then (rc, s1\<lparr>udata := u\<rparr>)
                    else replay_loop since fn vb rest (s1\<lparr>udata := u, rec_count := rec_count s1 + 1\<rparr>)))"
  by pat_completeness auto
termination
  by (relation "measure (\<lambda>(since, fn, vb, f, s). length f)") (auto dest: read_record_shorter)

declare replay_loop.simps [simp del]

text \<open>A segment that cannot be opened is skipped with a warning.\<close>

definition replay_segment ::
  "(fname \<Rightarrow> bytes option) \<Rightarrow> bytes \<Rightarrow> fastkv_ts \<Rightarrow> 'u replay_fn \<Rightarrow> 'u replay \<Rightarrow> fastkv_err \<times> 'u replay" where
  "replay_segment fs seg since fn s =
     (case fs (seg_file seg) of
        None \<Rightarrow> (FASTKV_OK, s)
      | Some f \<Rightarrow> replay_loop since fn False f s)"

fun replay_segments ::
  "(fname \<Rightarrow> bytes option) \<Rightarrow> bytes list \<Rightarrow> fastkv_ts \<Rightarrow> 'u replay_fn \<Rightarrow> 'u replay \<Rightarrow> fastkv_err \<times> 'u replay" where
  "replay_segments fs [] since fn s = (FASTKV_OK, s)"
| "replay_segments fs (seg # segs) since fn s =
     (case replay_segment fs seg since fn s of
        (rc, s') \<Rightarrow> if rc \<noteq> FASTKV_OK then (rc, s') else replay_segments fs segs since fn s')"

text \<open>The result: the code, the callback's state and \<^verbatim>\<open>*max_ts_out\<close> (0, its initial value, when it is not set).\<close>

definition fastkv_wal_replay ::
  "(fname \<Rightarrow> bytes option) \<Rightarrow> fname list option \<Rightarrow> fastkv_ts \<Rightarrow> 'u replay_fn \<Rightarrow> 'u \<Rightarrow> fastkv_err \<times> 'u \<times> fastkv_ts" where
  "fastkv_wal_replay fs names since fn u =
     (case collect_segments names of
        Inl rc \<Rightarrow> (rc, u, 0)
      | Inr segs \<Rightarrow>
          if segs = [] then (FASTKV_OK, u, 0)
          else (case replay_segments fs segs since fn \<lparr>udata = u, max_ts = since, rec_count = 0\<rparr> of
                  (rc, s) \<Rightarrow> (rc, udata s, max_ts s)))"

section \<open>The log on disk\<close>

definition rec_enc :: "wal_rec_type \<Rightarrow> fastkv_ts \<Rightarrow> bytes \<Rightarrow> slice \<Rightarrow> bytes" where
  "rec_enc ty ts key val = concat (rec_chunks ty ts key val)"

definition rec_body :: "byte \<Rightarrow> fastkv_ts \<Rightarrow> bytes \<Rightarrow> slice \<Rightarrow> bytes" where
  "rec_body t ts key val =
     [t] @ le64 ts @ le32 (of_nat (length key)) @ le32 (rec_vlen val) @ key @ slice_bytes val"

lemma rec_crc_body: "rec_crc t ts key val = fastkv_crc32c 0 (rec_body t ts key val)"
  by (simp add: rec_crc_def rec_body_def Let_def)

lemma rec_enc_body: "rec_enc ty ts key val = le32 (rec_crc (rec_code ty) ts key val) @ rec_body (rec_code ty) ts key val"
  by (simp add: rec_enc_def rec_chunks_def rec_body_def)

lemma length_rec_body: "length (rec_body t ts key val) = 17 + length key + slice_len val"
  by (simp add: rec_body_def)

text \<open>
  The stream \<open>s\<close> of bytes given to the log so far: what is in the file up to \<^verbatim>\<open>file_offset\<close>, then the
  buffer.  Behind the offset the file may hold the prefix of the buffer that a short write left.
\<close>

definition wal_log :: "bytes \<Rightarrow> wal \<Rightarrow> disk \<Rightarrow> bool" where
  "wal_log s w d \<longleftrightarrow> (\<exists>base junk. files d (seg_file (segment_id w)) = Some (base @ junk)
     \<and> unat (file_offset w) = length base \<and> prefix junk (wbuf w) \<and> length (wbuf w) \<le> WAL_BUF_CAP
     \<and> s = base @ wbuf w)"

definition same_wal :: "wal \<Rightarrow> wal \<Rightarrow> bool" where
  "same_wal w w' \<longleftrightarrow> segment_id w' = segment_id w \<and> sync_writes w' = sync_writes w \<and> hook_set w' = hook_set w"

lemma same_wal_refl [simp]: "same_wal w w"
  by (simp add: same_wal_def)

lemma same_wal_trans: "same_wal w w' \<Longrightarrow> same_wal w' w'' \<Longrightarrow> same_wal w w''"
  by (simp add: same_wal_def)

lemma wal_log_file: "wal_log s w d \<Longrightarrow> \<exists>f. files d (seg_file (segment_id w)) = Some f \<and> prefix f s"
  by (auto simp: wal_log_def prefix_def)

lemma wal_log_bytes_written: "wal_log s (w\<lparr>bytes_written := n\<rparr>) d = wal_log s w d"
  by (simp add: wal_log_def)

lemma wal_log_push:
  assumes "wal_log s w d" "length (wbuf w) + length x \<le> WAL_BUF_CAP"
  shows "wal_log (s @ x) (w\<lparr>wbuf := wbuf w @ x\<rparr>) d"
proof -
  obtain base junk where "files d (seg_file (segment_id w)) = Some (base @ junk)"
    "unat (file_offset w) = length base" "prefix junk (wbuf w)" "s = base @ wbuf w"
    using assms(1) by (auto simp: wal_log_def)
  with assms(2) show ?thesis
    unfolding wal_log_def by (intro exI [of _ base] exI [of _ junk]) (simp add: prefix_prefix)
qed

lemma unat_offset_add:
  assumes "unat (off :: u64) \<le> INT64_MAX" "n \<le> WAL_BUF_CAP"
  shows "unat (off + of_nat n) = unat off + n"
proof -
  have n: "unat (of_nat n :: u64) = n" using assms(2) by (simp add: WAL_BUF_CAP_def unsigned_of_nat take_bit_nat_eq_self)
  have "unat off + unat (of_nat n :: u64) < 2 ^ LENGTH(64)"
    using assms n by (simp add: INT64_MAX_def WAL_BUF_CAP_def)
  then have "unat (off + of_nat n) = unat off + unat (of_nat n :: u64)" by (simp add: unat_word_ariths)
  with n show ?thesis by simp
qed

lemma flush_log:
  assumes "wal_log s w d" "flush_buf os sync w d = (rc, w', d')"
  shows "wal_log s w' d' \<and> same_wal w w'
    \<and> (rc = FASTKV_OK \<longrightarrow> wbuf w' = [] \<and> files d' (seg_file (segment_id w)) = Some s)
    \<and> (rc = FASTKV_OK \<and> sync \<longrightarrow> durable d' (seg_file (segment_id w)) = Some s)"
proof -
  let ?n = "seg_file (segment_id w)"
  obtain base junk where b: "files d ?n = Some (base @ junk)" "unat (file_offset w) = length base"
    "prefix junk (wbuf w)" "length (wbuf w) \<le> WAL_BUF_CAP" "s = base @ wbuf w"
    using assms(1) by (auto simp: wal_log_def)
  have tail: "wal_log s w' d' \<and> same_wal w w'
      \<and> (rc = FASTKV_OK \<longrightarrow> wbuf w' = [] \<and> files d' ?n = Some s)
      \<and> (rc = FASTKV_OK \<and> sync \<longrightarrow> durable d' ?n = Some s)"
    if w1: "wbuf w1 = []" "files d1 ?n = Some s" "same_wal w w1" "unat (file_offset w1) = length s"
      and r: "(if sync then case fastkv_io_sync os (seg_file (segment_id w1)) d1 of (rc', d2) \<Rightarrow> (rc', w1, d2)
               else (FASTKV_OK, w1, d1)) = (rc, w', d')" for w1 d1
  proof -
    have seg: "segment_id w1 = segment_id w" using w1(3) by (simp add: same_wal_def)
    have "w' = w1" "files d' = files d1" "rc = FASTKV_OK \<and> sync \<longrightarrow> durable d' ?n = Some s"
      using r w1(2) io_sync_cases [of os ?n d1 rc d'] seg by (auto split: if_splits prod.splits)
    then show ?thesis using w1 seg by (auto simp: wal_log_def)
  qed
  show ?thesis
  proof (cases "wbuf w = []")
    case True
    with b have "junk = []" by simp
    then show ?thesis
      using assms(2) b True by (intro tail [of w d]) (auto simp: flush_buf_def split: prod.splits)
  next
    case False
    obtain rc1 d1 where p: "fastkv_io_pwrite os ?n (wbuf w) (file_offset w) d = (rc1, d1)" by fastforce
    obtain junk' where j: "files d1 ?n = Some (base @ junk')" "prefix junk' (wbuf w)"
      "rc1 = FASTKV_OK \<longrightarrow> junk' = wbuf w" using io_pwrite_prefix(1) [OF b(1-3) p] by blast
    show ?thesis
    proof (cases "rc1 = FASTKV_OK")
      case True
      then have "unat (file_offset w) \<le> INT64_MAX"
        using p by (auto simp: fastkv_io_pwrite_def fastkv_offset_to_offt_def split: if_splits)
      then have "unat (file_offset w + of_nat (length (wbuf w))) = length s"
        using unat_offset_add b(2,4,5) by simp
      then show ?thesis
        using assms(2) p True False j b(5)
        by (intro tail [of "w\<lparr>file_offset := file_offset w + of_nat (length (wbuf w)), wbuf := []\<rparr>" d1])
          (auto simp: flush_buf_def same_wal_def split: prod.splits)
    next
      case bad: False
      then have "rc = rc1" "w' = w" "d' = d1" using assms(2) p False by (auto simp: flush_buf_def)
      with bad j b show ?thesis by (auto simp: wal_log_def)
    qed
  qed
qed

lemma write_buf_log:
  "wal_log s w d \<Longrightarrow> wal_write_buf os data w d = (rc, w', d') \<Longrightarrow>
   \<exists>p. prefix p data \<and> wal_log (s @ p) w' d' \<and> same_wal w w' \<and> (rc = FASTKV_OK \<longrightarrow> p = data)"
proof (induction os data w d arbitrary: s rule: wal_write_buf.induct)
  case (1 os data w d)
  note simp = wal_write_buf.simps [of os data w d]
  show ?case
  proof (cases "data = []")
    case True
    with "1.prems" simp show ?thesis by auto
  next
    case ne: False
    have step: "\<exists>p. prefix p data \<and> wal_log (s @ p) w' d' \<and> same_wal w w' \<and> (rc = FASTKV_OK \<longrightarrow> p = data)"
      if log: "wal_log s w1 d1" "same_wal w w1" and sp: "length (wbuf w1) + k \<le> WAL_BUF_CAP"
        and IH: "\<And>s'. wal_log s' (w1\<lparr>wbuf := wbuf w1 @ take k data\<rparr>) d1 \<Longrightarrow>
          \<exists>p. prefix p (drop k data) \<and> wal_log (s' @ p) w' d'
            \<and> same_wal (w1\<lparr>wbuf := wbuf w1 @ take k data\<rparr>) w' \<and> (rc = FASTKV_OK \<longrightarrow> p = drop k data)" for w1 d1 k
    proof -
      have "wal_log (s @ take k data) (w1\<lparr>wbuf := wbuf w1 @ take k data\<rparr>) d1"
        using log(1) by (rule wal_log_push) (use sp in simp)
      from IH [OF this] obtain p where p: "prefix p (drop k data)" "wal_log ((s @ take k data) @ p) w' d'"
        "same_wal (w1\<lparr>wbuf := wbuf w1 @ take k data\<rparr>) w'" "rc = FASTKV_OK \<longrightarrow> p = drop k data" by blast
      have "prefix (take k data @ p) data"
        using p(1) by (metis append_take_drop_id same_prefix_prefix)
      moreover have "same_wal w w'" using p(3) log(2) by (simp add: same_wal_def)
      ultimately show ?thesis using p(2,4) by (intro exI [of _ "take k data @ p"]) auto
    qed
    show ?thesis
    proof (cases "WAL_BUF_CAP - length (wbuf w) = 0")
      case full: True
      obtain rc1 w1 d1 where f: "flush_buf os False w d = (rc1, w1, d1)" by (metis prod_cases3)
      note fl = flush_log [OF "1.prems"(1) f]
      show ?thesis
      proof (cases "rc1 = FASTKV_OK")
        case True
        let ?k = "min (length data) WAL_BUF_CAP"
        have r: "wal_write_buf os (drop ?k data) (w1\<lparr>wbuf := wbuf w1 @ take ?k data\<rparr>) d1 = (rc, w', d')"
          using "1.prems"(2) ne full f True by (simp add: simp Let_def)
        have nn: "\<not> rc1 \<noteq> FASTKV_OK" using True by simp
        show ?thesis
          by (rule step [of w1 d1 ?k])
            (use fl True "1.IH"(1) [OF ne full f [symmetric] refl nn refl _ r] in auto)
      next
        case False
        then have "rc = rc1" "w' = w1" "d' = d1" using "1.prems"(2) ne full f by (auto simp: simp)
        with False fl show ?thesis by (intro exI [of _ "[]"]) auto
      qed
    next
      case room: False
      let ?k = "min (length data) (WAL_BUF_CAP - length (wbuf w))"
      have r: "wal_write_buf os (drop ?k data) (w\<lparr>wbuf := wbuf w @ take ?k data\<rparr>) d = (rc, w', d')"
        using "1.prems"(2) ne room by (simp add: simp Let_def)
      show ?thesis
        by (rule step [of w d ?k]) (use "1.prems"(1) room "1.IH"(2) [OF ne room refl _ r] in auto)
    qed
  qed
qed

lemma write_all_log:
  "wal_log s w d \<Longrightarrow> wal_write_all os cs w d = (rc, w', d') \<Longrightarrow>
   \<exists>p. prefix p (concat cs) \<and> wal_log (s @ p) w' d' \<and> same_wal w w' \<and> (rc = FASTKV_OK \<longrightarrow> p = concat cs)"
proof (induction os cs w d arbitrary: s rule: wal_write_all.induct)
  case (2 os c cs w d)
  obtain rc1 w1 d1 where c: "wal_write_buf os c w d = (rc1, w1, d1)" by (metis prod_cases3)
  obtain p where p: "prefix p c" "wal_log (s @ p) w1 d1" "same_wal w w1" "rc1 = FASTKV_OK \<longrightarrow> p = c"
    using write_buf_log [OF "2.prems"(1) c] by blast
  show ?case
  proof (cases "rc1 = FASTKV_OK")
    case True
    then have "\<exists>q. prefix q (concat cs) \<and> wal_log ((s @ p) @ q) w' d' \<and> same_wal w1 w'
        \<and> (rc = FASTKV_OK \<longrightarrow> q = concat cs)"
      using "2.IH" [OF c [symmetric] refl _ p(2)] "2.prems"(2) c by simp
    then obtain q where q: "prefix q (concat cs)" "wal_log ((s @ p) @ q) w' d'" "same_wal w1 w'"
      "rc = FASTKV_OK \<longrightarrow> q = concat cs" by blast
    show ?thesis
      using p q True same_wal_trans [OF p(3) q(3)] by (intro exI [of _ "p @ q"]) auto
  next
    case False
    with "2.prems"(2) c p show ?thesis by (intro exI [of _ p]) (auto simp: prefix_prefix)
  qed
qed simp

lemma append_log:
  assumes "wal_log s w d" "fastkv_wal_append os tmp w d ty ts key val = (rc, w', d', h)"
  shows "\<exists>p. prefix p (rec_enc ty ts key val) \<and> wal_log (s @ p) w' d' \<and> same_wal w w'
    \<and> (rc = FASTKV_OK \<longrightarrow> p = rec_enc ty ts key val
        \<and> (sync_writes w \<longrightarrow> durable d' (seg_file (segment_id w)) = Some (s @ p) \<and> files d' (seg_file (segment_id w)) = Some (s @ p)))"
proof -
  let ?cs = "rec_chunks ty ts key val"
  obtain rc1 w1 d1 where c: "wal_write_all os ?cs w d = (rc1, w1, d1)" by (metis prod_cases3)
  obtain p where p: "prefix p (rec_enc ty ts key val)" "wal_log (s @ p) w1 d1" "same_wal w w1"
    "rc1 = FASTKV_OK \<longrightarrow> p = rec_enc ty ts key val"
    using write_all_log [OF assms(1) c] by (auto simp: rec_enc_def)
  let ?w2 = "w1\<lparr>bytes_written := bytes_written w1 + of_nat (WAL_HEADER_SIZE + length key + slice_len val)\<rparr>"
  have w2: "wal_log (s @ p) ?w2 d1" "same_wal w ?w2" "segment_id ?w2 = segment_id w" "sync_writes ?w2 = sync_writes w"
    using p(2,3) by (simp_all add: wal_log_def same_wal_def)
  show ?thesis
  proof (cases "rc1 = FASTKV_OK")
    case True
    show ?thesis
    proof (cases "sync_writes w")
      case sync: True
      obtain rc2 w3 d3 where f: "flush_buf os True ?w2 d1 = (rc2, w3, d3)" by (metis prod_cases3)
      have "rc = rc2" "w' = w3" "d' = d3"
        using assms(2) c True f sync w2(4) by (auto simp: fastkv_wal_append_def Let_def)
      then show ?thesis
        using flush_log [OF w2(1) f] p True w2(2,3) same_wal_trans by (intro exI [of _ p]) auto
    next
      case False
      then have "rc = FASTKV_OK" "w' = ?w2" "d' = d1"
        using assms(2) c True w2(4) by (auto simp: fastkv_wal_append_def Let_def)
      with w2 p True False show ?thesis by (intro exI [of _ p]) auto
    qed
  next
    case False
    then have "rc = rc1" "w' = w1" "d' = d1" using assms(2) c by (auto simp: fastkv_wal_append_def)
    with p False show ?thesis by auto
  qed
qed

text \<open>On a healthy system, and below the largest file offset, no write to the log fails.\<close>

definition healthy :: "os \<Rightarrow> bool" where
  "healthy os \<longleftrightarrow> (\<forall>n. os n = SysOk)"

lemma io_healthy:
  "healthy os \<Longrightarrow> files d name = Some f \<Longrightarrow> unat off \<le> INT64_MAX \<Longrightarrow> fst (fastkv_io_pwrite os name buf off d) = FASTKV_OK"
  "healthy os \<Longrightarrow> fst (fastkv_io_sync os name d) = FASTKV_OK"
  by (simp_all add: healthy_def fastkv_io_pwrite_def fastkv_offset_to_offt_def sys_pwrite_def fastkv_io_sync_def
      sys_fsync_def Let_def)

lemma flush_healthy:
  assumes "healthy os" "wal_log s w d" "length s \<le> INT64_MAX"
  shows "fst (flush_buf os sync w d) = FASTKV_OK"
proof -
  let ?n = "seg_file (segment_id w)"
  obtain f where f: "files d ?n = Some f" "unat (file_offset w) \<le> INT64_MAX"
    using assms(2,3) by (auto simp: wal_log_def)
  have "fst (fastkv_io_pwrite os ?n (wbuf w) (file_offset w) d) = FASTKV_OK" by (rule io_healthy(1) [OF assms(1) f])
  then show ?thesis
    using io_healthy(2) [OF assms(1)] by (auto simp: flush_buf_def Let_def split: prod.split) (metis fst_conv)+
qed

lemma write_buf_healthy:
  "healthy os \<Longrightarrow> wal_log s w d \<Longrightarrow> length s + length data \<le> INT64_MAX \<Longrightarrow> fst (wal_write_buf os data w d) = FASTKV_OK"
proof (induction os data w d arbitrary: s rule: wal_write_buf.induct)
  case (1 os data w d)
  note simp = wal_write_buf.simps [of os data w d]
  show ?case
  proof (cases "data = []")
    case ne: False
    show ?thesis
    proof (cases "WAL_BUF_CAP - length (wbuf w) = 0")
      case full: True
      let ?k = "min (length data) WAL_BUF_CAP"
      obtain w1 d1 where f: "flush_buf os False w d = (FASTKV_OK, w1, d1)"
        using flush_healthy [OF "1.prems"(1,2)] "1.prems"(3) by (metis add_leD1 prod.exhaust_sel)
      have log: "wal_log s w1 d1" "wbuf w1 = []" using flush_log [OF "1.prems"(2) f] by auto
      have "wal_log (s @ take ?k data) (w1\<lparr>wbuf := wbuf w1 @ take ?k data\<rparr>) d1"
        using log by (intro wal_log_push) auto
      then have "fst (wal_write_buf os (drop ?k data) (w1\<lparr>wbuf := wbuf w1 @ take ?k data\<rparr>) d1) = FASTKV_OK"
        using "1.IH"(1) [OF ne full f [symmetric] refl _ refl "1.prems"(1)] "1.prems"(3) by simp
      then show ?thesis using ne full f by (simp add: simp Let_def)
    next
      case room: False
      let ?k = "min (length data) (WAL_BUF_CAP - length (wbuf w))"
      have "wal_log (s @ take ?k data) (w\<lparr>wbuf := wbuf w @ take ?k data\<rparr>) d"
        using "1.prems"(2) room by (intro wal_log_push) auto
      then have "fst (wal_write_buf os (drop ?k data) (w\<lparr>wbuf := wbuf w @ take ?k data\<rparr>) d) = FASTKV_OK"
        using "1.IH"(2) [OF ne room refl "1.prems"(1)] "1.prems"(3) by simp
      then show ?thesis using ne room by (simp add: simp Let_def)
    qed
  qed (simp add: wal_write_buf.simps)
qed

lemma write_all_healthy:
  "healthy os \<Longrightarrow> wal_log s w d \<Longrightarrow> length s + length (concat cs) \<le> INT64_MAX \<Longrightarrow> fst (wal_write_all os cs w d) = FASTKV_OK"
proof (induction cs arbitrary: s w d)
  case (Cons c cs)
  obtain w1 d1 where c: "wal_write_buf os c w d = (FASTKV_OK, w1, d1)"
    using write_buf_healthy [OF Cons.prems(1,2), of c] Cons.prems(3) by (cases "wal_write_buf os c w d") auto
  then have "wal_log (s @ c) w1 d1" using write_buf_log [OF Cons.prems(2) c] by auto
  then show ?case using Cons.IH [OF Cons.prems(1)] Cons.prems(3) c by auto
qed simp

lemma append_healthy:
  assumes "healthy os" "wal_log s w d" "length s + length (rec_enc ty ts key val) \<le> INT64_MAX"
  shows "fst (fastkv_wal_append os tmp w d ty ts key val) = FASTKV_OK"
proof -
  let ?cs = "rec_chunks ty ts key val"
  obtain w1 d1 where c: "wal_write_all os ?cs w d = (FASTKV_OK, w1, d1)"
    using write_all_healthy [OF assms(1,2), of ?cs] assms(3) by (cases "wal_write_all os ?cs w d") (auto simp: rec_enc_def)
  let ?w2 = "w1\<lparr>bytes_written := bytes_written w1 + of_nat (WAL_HEADER_SIZE + length key + slice_len val)\<rparr>"
  have "wal_log (s @ rec_enc ty ts key val) ?w2 d1"
    using write_all_log [OF assms(2) c] by (auto simp: rec_enc_def wal_log_bytes_written)
  then have "fst (flush_buf os True ?w2 d1) = FASTKV_OK" using flush_healthy [OF assms(1)] assms(3) by simp
  then show ?thesis
    by (simp add: fastkv_wal_append_def c Let_def split: prod.split) (metis fst_conv)
qed

text \<open>Appending touches no file but the current segment.\<close>

definition same_file :: "fname \<Rightarrow> disk \<Rightarrow> disk \<Rightarrow> bool" where
  "same_file n d d' \<longleftrightarrow> files d' n = files d n \<and> durable d' n = durable d n"

lemma same_file_refl [simp]: "same_file n d d"
  by (simp add: same_file_def)

lemma same_file_trans: "same_file n d d' \<Longrightarrow> same_file n d' d'' \<Longrightarrow> same_file n d d''"
  by (simp add: same_file_def)

lemma flush_frame:
  assumes "flush_buf os sync w d = (rc, w', d')" "n \<noteq> seg_file (segment_id w)"
  shows "same_file n d d' \<and> segment_id w' = segment_id w"
  using assms
  by (auto simp: flush_buf_def same_file_def fastkv_io_pwrite_def fastkv_offset_to_offt_def sys_pwrite_def
      fastkv_io_sync_def sys_fsync_def Let_def split: if_splits option.splits sysres.splits prod.splits)

lemma write_buf_frame:
  "wal_write_buf os data w d = (rc, w', d') \<Longrightarrow> n \<noteq> seg_file (segment_id w) \<Longrightarrow>
   same_file n d d' \<and> segment_id w' = segment_id w"
proof (induction os data w d rule: wal_write_buf.induct)
  case (1 os data w d)
  note simp = wal_write_buf.simps [of os data w d]
  show ?case
  proof (cases "data = []")
    case ne: False
    show ?thesis
    proof (cases "WAL_BUF_CAP - length (wbuf w) = 0")
      case full: True
      let ?k = "min (length data) WAL_BUF_CAP"
      obtain rc1 w1 d1 where f: "flush_buf os False w d = (rc1, w1, d1)" by (metis prod_cases3)
      note fr = flush_frame [OF f "1.prems"(2)]
      show ?thesis
      proof (cases "rc1 = FASTKV_OK")
        case True
        then have "same_file n d1 d' \<and> segment_id w' = segment_id w1"
          using "1.IH"(1) [OF ne full f [symmetric] refl _ refl] "1.prems" fr ne full f by (simp add: simp Let_def)
        with fr show ?thesis using same_file_trans by metis
      qed (use "1.prems" fr ne full f in \<open>simp add: simp\<close>)
    next
      case room: False
      then show ?thesis using "1.IH"(2) [OF ne room refl] "1.prems" ne by (simp add: simp Let_def)
    qed
  qed (use "1.prems" in \<open>simp add: wal_write_buf.simps\<close>)
qed

lemma write_all_frame:
  "wal_write_all os cs w d = (rc, w', d') \<Longrightarrow> n \<noteq> seg_file (segment_id w) \<Longrightarrow>
   same_file n d d' \<and> segment_id w' = segment_id w"
proof (induction cs arbitrary: w d)
  case (Cons c cs)
  obtain rc1 w1 d1 where c: "wal_write_buf os c w d = (rc1, w1, d1)" by (metis prod_cases3)
  note fr = write_buf_frame [OF c Cons.prems(2)]
  show ?case
  proof (cases "rc1 = FASTKV_OK")
    case True
    then have "same_file n d1 d' \<and> segment_id w' = segment_id w1" using Cons c fr by simp
    with fr show ?thesis using same_file_trans by metis
  qed (use Cons.prems fr c in simp)
qed simp

lemma append_frame:
  assumes "fastkv_wal_append os tmp w d ty ts key val = (rc, w', d', h)" "n \<noteq> seg_file (segment_id w)"
  shows "same_file n d d' \<and> segment_id w' = segment_id w"
proof -
  obtain rc1 w1 d1 where c: "wal_write_all os (rec_chunks ty ts key val) w d = (rc1, w1, d1)" by (metis prod_cases3)
  note fr = write_all_frame [OF c assms(2)]
  let ?w2 = "w1\<lparr>bytes_written := bytes_written w1 + of_nat (WAL_HEADER_SIZE + length key + slice_len val)\<rparr>"
  obtain rc2 w2 d2 where f: "flush_buf os True ?w2 d1 = (rc2, w2, d2)" by (metis prod_cases3)
  have "same_file n d1 d2 \<and> segment_id w2 = segment_id w1" using flush_frame [OF f] fr assms(2) by simp
  then show ?thesis
    using assms(1) c f fr same_file_trans [of n d d1 d2] by (auto simp: fastkv_wal_append_def Let_def split: if_splits)
qed

text \<open>A record that fits into the free part of the buffer is only copied.\<close>

lemma write_buf_fits:
  "length (wbuf w) + length data < WAL_BUF_CAP \<Longrightarrow> wal_write_buf os data w d = (FASTKV_OK, w\<lparr>wbuf := wbuf w @ data\<rparr>, d)"
  by (simp add: wal_write_buf.simps [of os data w d] wal_write_buf.simps [of os "[]"] Let_def min_def)

lemma write_all_fits:
  "length (wbuf w) + length (concat cs) < WAL_BUF_CAP \<Longrightarrow>
   wal_write_all os cs w d = (FASTKV_OK, w\<lparr>wbuf := wbuf w @ concat cs\<rparr>, d)"
  by (induction cs arbitrary: w) (simp_all add: write_buf_fits)

lemma append_fits:
  assumes "length (wbuf w) + length (rec_enc ty ts key val) < WAL_BUF_CAP" "sync_writes w"
    "flush_buf os True (w\<lparr>wbuf := wbuf w @ rec_enc ty ts key val,
       bytes_written := bytes_written w + of_nat (WAL_HEADER_SIZE + length key + slice_len val)\<rparr>) d = (rc, w', d')"
  shows "\<exists>h. fastkv_wal_append os tmp w d ty ts key val = (rc, w', d', h)"
  using assms write_all_fits [of w "rec_chunks ty ts key val" os d] by (simp add: fastkv_wal_append_def rec_enc_def Let_def)

section \<open>Reading records back\<close>

lemma read_bytes_append [simp]: "length a = n \<Longrightarrow> read_bytes n (a @ f) = Some (a, f)"
  by (simp add: read_bytes_def)

lemma read_bytes_exact [simp]: "length a = n \<Longrightarrow> read_bytes n a = Some (a, [])"
  by (simp add: read_bytes_def)

text \<open>The reader on a block whose length fields agree with it: only the checksum decides.\<close>

lemma read_payload_fields:
  assumes k: "length key = unat (le_dec kl :: u32)" "length key \<le> FASTKV_MAX_KEY_LEN"
    and v: "length val = unat (if (le_dec vl :: u32) = WAL_VLEN_TOMBSTONE then 0 else le_dec vl :: u32)"
      "length val \<le> FASTKV_MAX_VAL_LEN"
  shows "read_payload c ty ts kl vl (key @ val @ rest) =
    (if fastkv_crc32c 0 (ty @ ts @ kl @ vl @ key @ val) \<noteq> le_dec c then None
     else Some (\<lparr>stored_crc = le_dec c, type_byte = hd ty, raw_ts = le_dec ts, raw_vlen = le_dec vl,
                 key_buf = key, val_buf = val\<rparr>, rest))"
proof -
  define kn where "kn = (le_dec kl :: u32)"
  define vn where "vn = (if (le_dec vl :: u32) = WAL_VLEN_TOMBSTONE then 0 else le_dec vl :: u32)"
  have kn: "length key = unat kn" and vn: "length val = unat vn" using k v by (simp_all add: kn_def vn_def)
  have z: "kn = 0 \<longleftrightarrow> key = []" "vn = 0 \<longleftrightarrow> val = []"
    using kn vn by (metis length_0_conv unat_eq_zero)+
  have le: "\<not> unat kn > FASTKV_MAX_KEY_LEN" "\<not> unat vn > FASTKV_MAX_VAL_LEN" using k(2) v(2) kn vn by simp_all
  have r: "read_bytes (unat kn) (key @ val @ rest) = Some (key, val @ rest)"
    "read_bytes (unat vn) (val @ rest) = Some (val, rest)" using kn vn by simp_all
  have cr: "(if vn \<noteq> 0 then fastkv_crc32c (if kn \<noteq> 0 then fastkv_crc32c x key else x) val
      else (if kn \<noteq> 0 then fastkv_crc32c x key else x)) = fastkv_crc32c x (key @ val)" for x
    unfolding z by simp
  show ?thesis
    unfolding read_payload_def Let_def kn_def [symmetric] vn_def [symmetric] if_not_P [OF le(1)] if_not_P [OF le(2)]
      r Option.bind.simps prod.case cr crc_append
    by (auto simp: z)
qed

lemma read_record_fields:
  assumes "length c = 4" "length ty = 1" "length ts = 8" "length kl = 4" "length vl = 4"
  shows "read_record (c @ ty @ ts @ kl @ vl @ f) = read_payload c ty ts kl vl f"
  using assms by (simp add: read_record_def)

text \<open>Reading is not disturbed by what follows.\<close>

lemma read_payload_mono:
  assumes "read_payload c ty ts kl vl f = Some (r, rest)"
  shows "read_payload c ty ts kl vl (f @ x) = Some (r, rest @ x)"
proof -
  obtain key val where f: "f = key @ val @ rest" "length key = unat (le_dec kl :: u32)"
    "length val = unat (if (le_dec vl :: u32) = WAL_VLEN_TOMBSTONE then 0 else le_dec vl :: u32)"
    "length key \<le> FASTKV_MAX_KEY_LEN" "length val \<le> FASTKV_MAX_VAL_LEN"
    by (rule read_payloadE [OF assms])
  note p = read_payload_fields [OF f(2,4,3,5), of c ty ts]
  show ?thesis using assms p [of rest] p [of "rest @ x"] by (simp add: f(1) split: if_splits)
qed

lemma read_record_mono:
  assumes "read_record f = Some (r, rest)"
  shows "read_record (f @ x) = Some (r, rest @ x)"
proof -
  obtain c ty ts kl vl g where f: "f = c @ ty @ ts @ kl @ vl @ g" "length c = 4" "length ty = 1" "length ts = 8"
    "length kl = 4" "length vl = 4" "read_payload c ty ts kl vl g = Some (r, rest)"
    by (rule read_recordE [OF assms])
  show ?thesis using read_record_fields [OF f(2-6), of "g @ x"] read_payload_mono [OF f(7)] by (simp add: f(1))
qed

section \<open>Encoding and decoding\<close>

definition rec_fits :: "bytes \<Rightarrow> slice \<Rightarrow> bool" where
  "rec_fits key val \<longleftrightarrow> length key \<le> FASTKV_MAX_KEY_LEN \<and> slice_len val \<le> FASTKV_MAX_VAL_LEN"

lemma rec_fits_lengths:
  assumes "rec_fits key val"
  shows "length key = unat (of_nat (length key) :: u32)"
    "slice_len val = unat (if rec_vlen val = WAL_VLEN_TOMBSTONE then 0 else rec_vlen val)"
    "rec_vlen val = WAL_VLEN_TOMBSTONE \<longleftrightarrow> val = None"
proof -
  have small: "unat (of_nat n :: u32) = n" if "n \<le> 64 * 1024 * 1024" for n
    using that by (simp add: unsigned_of_nat take_bit_nat_eq_self)
  show "length key = unat (of_nat (length key) :: u32)"
    using assms by (simp add: rec_fits_def FASTKV_MAX_KEY_LEN_def small)
  have v: "unat (of_nat (length bs) :: u32) = length bs" if "val = Some bs" for bs
    using assms that by (intro small) (simp add: rec_fits_def FASTKV_MAX_VAL_LEN_def)
  have ne: "of_nat (length bs) \<noteq> WAL_VLEN_TOMBSTONE" if "val = Some bs" for bs
  proof
    assume "of_nat (length bs) = WAL_VLEN_TOMBSTONE"
    then have "length bs = 0xFFFFFFFF" using v [OF that] by (simp add: WAL_VLEN_TOMBSTONE_def)
    then show False using assms that by (simp add: rec_fits_def FASTKV_MAX_VAL_LEN_def)
  qed
  show "rec_vlen val = WAL_VLEN_TOMBSTONE \<longleftrightarrow> val = None"
    using ne by (cases val) (simp_all add: rec_vlen_def)
  show "slice_len val = unat (if rec_vlen val = WAL_VLEN_TOMBSTONE then 0 else rec_vlen val)"
    using ne v by (cases val) (simp_all add: rec_vlen_def)
qed

abbreviation raw_of :: "wal_rec_type \<Rightarrow> fastkv_ts \<Rightarrow> bytes \<Rightarrow> slice \<Rightarrow> raw_record" where
  "raw_of ty ts key val \<equiv> \<lparr>stored_crc = rec_crc (rec_code ty) ts key val, type_byte = rec_code ty, raw_ts = ts,
     raw_vlen = rec_vlen val, key_buf = key, val_buf = slice_bytes val\<rparr>"

lemma read_rec_enc:
  assumes "rec_fits key val"
  shows "read_record (rec_enc ty ts key val @ rest) = Some (raw_of ty ts key val, rest)"
proof -
  let ?c = "le32 (rec_crc (rec_code ty) ts key val)" and ?kl = "le32 (of_nat (length key))" and ?vl = "le32 (rec_vlen val)"
  have "read_record (rec_enc ty ts key val @ rest)
      = read_record (?c @ [rec_code ty] @ le64 ts @ ?kl @ ?vl @ (key @ slice_bytes val @ rest))"
    by (simp add: rec_enc_body rec_body_def)
  also have "\<dots> = read_payload ?c [rec_code ty] (le64 ts) ?kl ?vl (key @ slice_bytes val @ rest)"
    by (rule read_record_fields) simp_all
  also have "\<dots> = Some (raw_of ty ts key val, rest)"
    using assms rec_fits_lengths [OF assms]
    by (subst read_payload_fields) (simp_all add: rec_fits_def rec_crc_body rec_body_def)
  finally show ?thesis .
qed

text \<open>A record cut short is not read.\<close>

lemma read_rec_torn:
  assumes "rec_fits key val" "n < length (rec_enc ty ts key val)"
  shows "read_record (take n (rec_enc ty ts key val)) = None"
proof (rule ccontr)
  let ?e = "rec_enc ty ts key val"
  assume "read_record (take n ?e) \<noteq> None"
  then obtain r rest where "read_record (take n ?e) = Some (r, rest)" by auto
  then have "read_record (take n ?e @ drop n ?e) = Some (r, rest @ drop n ?e)" by (rule read_record_mono)
  moreover have "read_record (?e @ []) = Some (raw_of ty ts key val, [])" using assms(1) by (rule read_rec_enc)
  ultimately show False using assms(2) by simp
qed

section \<open>Replaying a stream of records\<close>

type_synonym wrec = "wal_rec_type \<times> fastkv_ts \<times> bytes \<times> slice"

definition enc :: "wrec \<Rightarrow> bytes" where
  "enc r = (case r of (ty, ts, key, val) \<Rightarrow> rec_enc ty ts key val)"

definition enc_all :: "wrec list \<Rightarrow> bytes" where
  "enc_all rs = concat (map enc rs)"

definition fits :: "wrec \<Rightarrow> bool" where
  "fits r = (case r of (ty, ts, key, val) \<Rightarrow> rec_fits key val)"

text \<open>How many of the records are completely inside the first \<open>n\<close> bytes of the stream.\<close>

fun complete :: "nat \<Rightarrow> wrec list \<Rightarrow> nat" where
  "complete n [] = 0"
| "complete n (r # rs) = (if length (enc r) \<le> n then Suc (complete (n - length (enc r)) rs) else 0)"

text \<open>
  The records the callback gets: the puts and deletions newer than \<open>since\<close>, in order.  An empty value comes as
  NULL as long as no earlier record of the segment had a non-empty one.
\<close>

fun seen :: "fastkv_ts \<Rightarrow> bool \<Rightarrow> wrec list \<Rightarrow> wal_record list" where
  "seen since vb [] = []"
| "seen since vb ((ty, ts, key, val) # rs) =
     (let vb' = (vb \<or> slice_bytes val \<noteq> [])
      in (if ts > since \<and> (ty = WAL_REC_PUT \<or> ty = WAL_REC_DELETE)
          then [\<lparr>rcrc = rec_crc (rec_code ty) ts key val, rts = ts, rtype = rec_code ty, rkey = key,
                 rvalue = (if val = None then None else if vb' then val else None)\<rparr>]
          else []) @ seen since vb' rs)"

definition newest :: "fastkv_ts \<Rightarrow> wrec list \<Rightarrow> fastkv_ts" where
  "newest m rs = fold (\<lambda>(ty, ts, key, val) m. max ts m) rs m"

lemma rec_code_data: "rec_code ty \<noteq> 1 \<and> rec_code ty \<noteq> 2 \<longleftrightarrow> \<not> (ty = WAL_REC_PUT \<or> ty = WAL_REC_DELETE)"
  by (cases ty) simp_all

text \<open>One complete record in front.\<close>

lemma replay_loop_rec:
  assumes "rec_fits key val" and fn: "\<And>r u. fst (fn r u) = FASTKV_OK"
  shows "replay_loop since fn vb (rec_enc ty ts key val @ rest) s =
    (let one = seen since vb [(ty, ts, key, val)]
     in replay_loop since fn (vb \<or> slice_bytes val \<noteq> []) rest
          (s\<lparr>udata := fold (\<lambda>r u. snd (fn r u)) one (udata s), max_ts := max ts (max_ts s),
             rec_count := rec_count s + of_nat (length one)\<rparr>))"
proof -
  let ?vb = "vb \<or> slice_bytes val \<noteq> []"
  let ?s1 = "if ts > max_ts s then s\<lparr>max_ts := ts\<rparr> else s"
  have s1: "?s1 = s\<lparr>max_ts := max ts (max_ts s)\<rparr>" by (auto simp: max_def)
  have v: "(if rec_vlen val = WAL_VLEN_TOMBSTONE then None else if ?vb then Some (slice_bytes val) else None)
      = (if val = None then None else if ?vb then val else None)"
    using rec_fits_lengths(3) [OF assms(1)] by (cases val) auto
  have codes: "rec_code WAL_REC_PUT = 1" "rec_code WAL_REC_DELETE = 2" by simp_all
  note unf = replay_loop.simps [of since fn vb "rec_enc ty ts key val @ rest" s, unfolded read_rec_enc [OF assms(1)]]
  show ?thesis
  proof (cases "ts > since \<and> (ty = WAL_REC_PUT \<or> ty = WAL_REC_DELETE)")
    case True
    let ?r = "\<lparr>rcrc = rec_crc (rec_code ty) ts key val, rts = ts, rtype = rec_code ty, rkey = key,
               rvalue = (if val = None then None else if ?vb then val else None)\<rparr>"
    obtain u where u: "fn ?r (udata s) = (FASTKV_OK, u)" using fn [of ?r "udata s"] by (metis prod.collapse)
    have seen: "seen since vb [(ty, ts, key, val)] = [?r]" using True by (simp add: Let_def)
    have c: "\<not> ts \<le> since" "(rec_code ty \<noteq> 1 \<and> rec_code ty \<noteq> 2) = False" using True rec_code_data [of ty] by auto
    show ?thesis
      unfolding unf seen option.case prod.case Let_def raw_record.select_convs s1 v codes c(2)
      using c(1) u by (cases s) simp
  next
    case False
    then have seen: "seen since vb [(ty, ts, key, val)] = []" by (auto simp: Let_def)
    show ?thesis
      unfolding unf seen using False rec_code_data [of ty] by (auto simp: Let_def s1 codes)
  qed
qed

lemma seen_Cons: "seen since vb (r # rs) = seen since vb [r] @ seen since (vb \<or> slice_bytes (snd (snd (snd r))) \<noteq> []) rs"
  by (cases r) (simp add: Let_def)

text \<open>A stream of complete records followed by bytes that do not read as a record.\<close>

lemma replay_loop_all:
  assumes "\<forall>r\<in>set rs. fits r" "read_record tail = None" and fn: "\<And>r u. fst (fn r u) = FASTKV_OK"
  shows "replay_loop since fn vb (enc_all rs @ tail) s =
    (FASTKV_OK, s\<lparr>udata := fold (\<lambda>r u. snd (fn r u)) (seen since vb rs) (udata s),
                  max_ts := newest (max_ts s) rs,
                  rec_count := rec_count s + of_nat (length (seen since vb rs))\<rparr>)"
  using assms(1)
proof (induction rs arbitrary: vb s)
  case Nil
  show ?case
    using assms(2) by (simp add: enc_all_def newest_def replay_loop.simps [of since fn vb tail])
next
  case (Cons r rs)
  obtain ty ts key val where r: "r = (ty, ts, key, val)" by (metis prod_cases4)
  have f: "rec_fits key val" using Cons.prems r by (simp add: fits_def)
  have e: "enc_all (r # rs) @ tail = rec_enc ty ts key val @ (enc_all rs @ tail)"
    by (simp add: enc_all_def enc_def r)
  show ?case
    unfolding e replay_loop_rec [OF f fn] Let_def
    using Cons.IH [of "vb \<or> slice_bytes val \<noteq> []"] Cons.prems
    by (simp add: r seen_Cons [of since vb _ rs] newest_def add.assoc del: seen.simps)
qed

lemma read_torn_enc: "fits r \<Longrightarrow> n < length (enc r) \<Longrightarrow> read_record (take n (enc r)) = None"
  by (cases r) (simp add: fits_def enc_def read_rec_torn)

lemma read_record_Nil [simp]: "read_record [] = None"
  by (simp add: read_record_def read_bytes_def)

lemma take_enc_all:
  assumes "\<forall>r\<in>set rs. fits r"
  obtains tail where "take n (enc_all rs) = enc_all (take (complete n rs) rs) @ tail" "read_record tail = None"
  using assms
proof (induction n rs arbitrary: thesis rule: complete.induct)
  case (1 n)
  show ?case by (rule "1.prems"(1) [of "[]"]) (simp_all add: enc_all_def)
next
  case (2 n r rs)
  show ?case
  proof (cases "length (enc r) \<le> n")
    case True
    obtain tail where "take (n - length (enc r)) (enc_all rs)
        = enc_all (take (complete (n - length (enc r)) rs) rs) @ tail" "read_record tail = None"
      using "2.IH" [OF True] "2.prems"(2) by auto
    with True show ?thesis by (intro "2.prems"(1) [of tail]) (simp_all add: enc_all_def)
  next
    case False
    then show ?thesis
      using read_torn_enc [of r n] "2.prems"(2) by (intro "2.prems"(1) [of "take n (enc r)"]) (simp_all add: enc_all_def)
  qed
qed

section \<open>Corruption\<close>

lemma crc_update: "j < length xs \<Longrightarrow> b \<noteq> xs ! j \<Longrightarrow> fastkv_crc32c c (xs[j := b]) \<noteq> fastkv_crc32c c xs"
  using crc_one_byte [of b "xs ! j" c "take j xs" "drop (Suc j) xs"]
  by (simp add: upd_conv_take_nth_drop id_take_nth_drop [symmetric])

lemma le_dec_update:
  fixes c :: bytes
  assumes "length c = 4" "i < 4" "b \<noteq> c ! i"
  shows "(le_dec (c[i := b]) :: u32) \<noteq> le_dec c"
proof
  assume "(le_dec (c[i := b]) :: u32) = le_dec c"
  then have "c[i := b] = c" using assms(1) le_enc_dec [of c 4, where 'a = 32] le_enc_dec [of "c[i := b]" 4, where 'a = 32]
    by simp
  then show False using assms by (metis nth_list_update_eq)
qed

lemma drop_split: "drop n xs = take m (drop n xs) @ drop (n + m) xs"
  by (metis add.commute append_take_drop_id drop_drop)

lemma read_body:
  assumes "length c = 4" "length body = 17 + length key + slice_len val" "rec_fits key val"
    "take 4 (drop 9 body) = le32 (of_nat (length key))" "take 4 (drop 13 body) = le32 (rec_vlen val)"
    "fastkv_crc32c 0 body \<noteq> le_dec c"
  shows "read_record (c @ body @ rest) = None"
proof -
  let ?ty = "take 1 body" and ?ts = "take 8 (drop 1 body)" and ?kl = "take 4 (drop 9 body)"
    and ?vl = "take 4 (drop 13 body)" and ?k = "take (length key) (drop 17 body)" and ?v = "drop (17 + length key) body"
  have body: "body = ?ty @ ?ts @ ?kl @ ?vl @ ?k @ ?v"
  proof -
    have "body = drop 0 body" by simp
    also have "\<dots> = ?ty @ drop 1 body" using drop_split [of 0 body 1] by simp
    also have "drop 1 body = ?ts @ drop 9 body" using drop_split [of 1 body 8] by simp
    also have "drop 9 body = ?kl @ drop 13 body" using drop_split [of 9 body 4] by simp
    also have "drop 13 body = ?vl @ drop 17 body" using drop_split [of 13 body 4] by simp
    also have "drop 17 body = ?k @ ?v" by (rule drop_split)
    finally show ?thesis .
  qed
  have len: "length ?k = length key" "length ?v = slice_len val" using assms(2) by simp_all
  have "read_record (c @ body @ rest) = read_record (c @ ?ty @ ?ts @ ?kl @ ?vl @ (?k @ ?v @ rest))"
    by (subst (1) body) (simp only: append.assoc)
  also have "\<dots> = read_payload c ?ty ?ts ?kl ?vl (?k @ ?v @ rest)"
    by (rule read_record_fields) (use assms(1,2) in simp_all)
  also have "\<dots> = None"
    using rec_fits_lengths [OF assms(3)] assms(3,6) len body
    by (subst read_payload_fields) (simp_all add: assms(4,5) rec_fits_def flip: body)
  finally show ?thesis .
qed

lemma read_corrupt:
  assumes "rec_fits key val" "i < length (rec_enc ty ts key val)" "\<not> (13 \<le> i \<and> i < 21)"
    "b \<noteq> rec_enc ty ts key val ! i"
  shows "read_record ((rec_enc ty ts key val)[i := b] @ rest) = None"
proof -
  let ?c = "le32 (rec_crc (rec_code ty) ts key val)" and ?body = "rec_body (rec_code ty) ts key val"
  have e: "rec_enc ty ts key val = ?c @ ?body" by (rule rec_enc_body)
  have crc: "le_dec ?c = fastkv_crc32c 0 ?body" by (simp add: rec_crc_body)
  have fields: "take 4 (drop 9 ?body) = le32 (of_nat (length key))" "take 4 (drop 13 ?body) = le32 (rec_vlen val)"
    by (simp_all add: rec_body_def)
  show ?thesis
  proof (cases "i < 4")
    case True
    then have "(rec_enc ty ts key val)[i := b] @ rest = ?c[i := b] @ ?body @ rest"
      by (simp add: e list_update_append)
    moreover have "le_dec (?c[i := b]) \<noteq> (le_dec ?c :: u32)"
      using True assms(4) by (intro le_dec_update) (simp_all add: e nth_append)
    ultimately show ?thesis
      using assms(1) fields crc by (simp only:) (intro read_body, simp_all add: length_rec_body)
  next
    case False
    let ?j = "i - 4"
    have j: "?j < length ?body" "b \<noteq> ?body ! ?j" "?j < 9 \<or> 17 \<le> ?j"
      using False assms(2,3,4) by (auto simp: e nth_append)
    have "(rec_enc ty ts key val)[i := b] @ rest = ?c @ ?body[?j := b] @ rest"
      using False by (simp add: e list_update_append)
    moreover have "take 4 (drop 9 (?body[?j := b])) = take 4 (drop 9 ?body)"
      "take 4 (drop 13 (?body[?j := b])) = take 4 (drop 13 ?body)"
      using j(3) by (auto simp: drop_update_swap take_update_swap list_update_beyond)
    ultimately show ?thesis
      using assms(1) fields crc crc_update [OF j(1,2), of 0]
      by (simp only:) (intro read_body, simp_all add: length_rec_body)
  qed
qed

section \<open>Segments\<close>

lemma strstr_bound: "strstr pat s = Some i \<Longrightarrow> i + length pat \<le> length s"
proof (induction pat s arbitrary: i rule: strstr.induct)
  case (2 pat c cs)
  show ?case
  proof (cases "take (length pat) (c # cs) = pat")
    case True
    then have "length pat \<le> length (c # cs)" by (metis length_take min.cobounded1)
    with True "2.prems" show ?thesis by simp
  next
    case False
    then obtain j where "i = Suc j" "strstr pat cs = Some j" using "2.prems" by auto
    with "2.IH" [OF False] show ?thesis by simp
  qed
qed (simp split: if_splits)

lemma length_affixes [simp]: "length WAL_FILENAME_PFX = 4" "length WAL_FILENAME_SFX = 4"
  by (simp_all add: WAL_FILENAME_PFX_def WAL_FILENAME_SFX_def)

lemma seg_of_name_shape:
  assumes "seg_of_name name = Some seg"
  shows "length seg = 32 \<and> (\<exists>rest. rest \<noteq> [] \<and> drop 4 name = seg @ rest)"
proof -
  obtain sfx where s: "strstr WAL_FILENAME_SFX name = Some sfx" "(of_nat sfx - 4 :: u64) = 32"
    "seg = take 32 (drop 4 name)"
    using assms by (auto simp: seg_of_name_def WAL_SEG_ID_LEN_def Let_def split: if_splits option.splits)
  have "(of_nat sfx :: u64) = 32 + 4" using s(2) by (metis diff_add_cancel)
  then have "unat (of_nat sfx :: u64) = 36" by simp
  then have "36 \<le> sfx" by (simp add: unsigned_of_nat take_bit_nat_def)
  then have "40 \<le> length name" using strstr_bound [OF s(1)] by simp
  then show ?thesis using s(3) drop_split [of 4 name 32] by (auto intro!: exI [of _ "drop 36 name"])
qed

text \<open>Comparing with the suffix attached is the same as taking the maximum.\<close>

lemma newest_step:
  assumes "length seg = 32" "rest \<noteq> []" "cur = [] \<or> length cur = 32"
  shows "(if cmp (seg @ rest) cur > 0 then seg else cur) = max cur seg"
proof (cases "cur = []")
  case True
  have "seg \<noteq> []" using assms(1) by auto
  then have "[] < seg" by (cases seg) simp_all
  with True assms(2) show ?thesis by (cases seg) (simp_all add: max_def)
next
  case False
  then have len: "length cur = length seg" using assms by simp
  have "cur < seg @ rest \<longleftrightarrow> cur \<le> seg"
  proof (cases cur seg rule: linorder_cases)
    case less
    then show ?thesis using lex_less_append_same_length [of cur seg "[]" rest] len by simp
  next
    case equal
    have "cur < cur @ rest" using assms(2) by (induction cur) (cases rest, simp_all)
    with equal show ?thesis by simp
  next
    case greater
    then have "seg @ rest < cur @ []" using lex_less_append_same_length [of seg cur rest "[]"] len by simp
    with greater show ?thesis by (auto simp: not_le dest: order.asym)
  qed
  then show ?thesis by (auto simp: max_def)
qed

lemma newest_foldl:
  "cur = [] \<or> length cur = 32 \<Longrightarrow>
   foldl (\<lambda>cur name. case seg_of_name name of None \<Rightarrow> cur
            | Some seg \<Rightarrow> if cmp (drop (length WAL_FILENAME_PFX) name) cur > 0 then seg else cur) cur names
   = fold max (List.map_filter seg_of_name names) cur"
proof (induction names arbitrary: cur)
  case (Cons name names)
  show ?case
  proof (cases "seg_of_name name")
    case None
    with Cons show ?thesis by (simp add: List.map_filter_def)
  next
    case (Some seg)
    obtain rest where r: "length seg = 32" "rest \<noteq> []" "drop 4 name = seg @ rest"
      using seg_of_name_shape [OF Some] by blast
    have step: "(if cmp (drop (length WAL_FILENAME_PFX) name) cur > 0 then seg else cur) = max cur seg"
      using newest_step [OF r(1,2) Cons.prems] r(3) by simp
    have "max cur seg = [] \<or> length (max cur seg) = 32" using Cons.prems r(1) by (auto simp: max_def)
    from Cons.IH [OF this] show ?thesis using Some step by (simp add: List.map_filter_def max.commute)
  qed
qed (simp add: List.map_filter_def)

section \<open>Properties\<close>

definition sample_wal :: wal where
  "sample_wal = \<lparr>sync_writes = True, bytes_written = 0, file_offset = 0, segment_id = replicate 32 0x30,
     wbuf = [], hook_set = False\<rparr>"

definition sample_disk :: disk where
  "sample_disk = \<lparr>files = [seg_file (replicate 32 0x30) \<mapsto> []], durable = Map.empty, calls = 0\<rparr>"

lemma sample_wal_log: "wal_log [] sample_wal sample_disk"
  by (simp add: wal_log_def sample_wal_def sample_disk_def)

text \<open>
  Property C26: whatever the operating system does with each write and sync (complete it, cut it short, fail),
  the current segment file always holds a prefix of the stream of bytes given to the log.  An append adds a
  prefix of its encoded record to the stream, all of it when it returns \<^verbatim>\<open>FASTKV_OK\<close>; and when it returns
  \<^verbatim>\<open>FASTKV_OK\<close> in synchronous mode, the whole stream up to and including the record is durable.
\<close>
theorem wal_append_durable:
  assumes "wal_log s w d"
  shows "(case fastkv_wal_append os tmp w d ty ts key val of (rc, w', d', h) \<Rightarrow>
     \<exists>p f. prefix p (rec_enc ty ts key val) \<and> wal_log (s @ p) w' d'
       \<and> files d' (seg_file (segment_id w)) = Some f \<and> prefix f (s @ p)
       \<and> (rc = FASTKV_OK \<longrightarrow> p = rec_enc ty ts key val)
       \<and> (rc = FASTKV_OK \<and> sync_writes w \<longrightarrow> durable d' (seg_file (segment_id w)) = Some (s @ rec_enc ty ts key val)))"
proof -
  obtain rc w' d' h where r: "fastkv_wal_append os tmp w d ty ts key val = (rc, w', d', h)" by (metis prod_cases4)
  obtain p where p: "prefix p (rec_enc ty ts key val)" "wal_log (s @ p) w' d'" "same_wal w w'"
    "rc = FASTKV_OK \<longrightarrow> p = rec_enc ty ts key val
        \<and> (sync_writes w \<longrightarrow> durable d' (seg_file (segment_id w)) = Some (s @ p) \<and> files d' (seg_file (segment_id w)) = Some (s @ p))"
    using append_log [OF assms r] by blast
  obtain f where "files d' (seg_file (segment_id w)) = Some f" "prefix f (s @ p)"
    using wal_log_file [OF p(2)] p(3) by (auto simp: same_wal_def)
  with p r show ?thesis by auto
qed

theorem wal_append_durable_witness:
  "wal_log [] sample_wal sample_disk \<and> sync_writes sample_wal \<and>
   (case fastkv_wal_append (\<lambda>n. if n = 0 then SysShort 7 else SysOk) True sample_wal sample_disk
      WAL_REC_PUT 3 [65] (Some [66]) of (rc, w', d', h) \<Rightarrow>
     \<exists>p f. prefix p (rec_enc WAL_REC_PUT 3 [65] (Some [66])) \<and> wal_log ([] @ p) w' d'
       \<and> files d' (seg_file (segment_id sample_wal)) = Some f \<and> prefix f ([] @ p)
       \<and> (rc = FASTKV_OK \<longrightarrow> p = rec_enc WAL_REC_PUT 3 [65] (Some [66]))
       \<and> (rc = FASTKV_OK \<and> sync_writes sample_wal \<longrightarrow>
           durable d' (seg_file (segment_id sample_wal)) = Some ([] @ rec_enc WAL_REC_PUT 3 [65] (Some [66]))))"
  using wal_append_durable [OF sample_wal_log] sample_wal_log by (simp add: sample_wal_def)

text \<open>
  Property C28: a log is replayed as far as it is complete.  Of the first \<open>n\<close> bytes of a stream of records
  (what a crash may leave of the file), the replay delivers to the callback exactly the puts and deletions newer
  than \<open>since\<close> among the records that lie completely inside, in order, and ends without error; the largest
  timestamp is that of all complete records.
\<close>
theorem wal_replay_crash_prefix:
  assumes "\<forall>r\<in>set rs. fits r" "\<And>r u. fst (fn r u) = FASTKV_OK"
  shows "replay_loop since fn False (take n (enc_all rs)) s =
    (FASTKV_OK, s\<lparr>udata := fold (\<lambda>r u. snd (fn r u)) (seen since False (take (complete n rs) rs)) (udata s),
                  max_ts := newest (max_ts s) (take (complete n rs) rs),
                  rec_count := rec_count s + of_nat (length (seen since False (take (complete n rs) rs)))\<rparr>)"
proof -
  obtain tail where t: "take n (enc_all rs) = enc_all (take (complete n rs) rs) @ tail" "read_record tail = None"
    by (rule take_enc_all [OF assms(1)])
  show ?thesis
    unfolding t(1) by (rule replay_loop_all [OF _ t(2) assms(2)]) (use assms(1) in_set_takeD in fast)
qed

theorem wal_replay_crash_prefix_witness:
  "replay_loop 4 (\<lambda>r u. (FASTKV_OK, u @ [(rts r, rkey r, rvalue r)])) False
     (take 50 (enc_all [(WAL_REC_PUT, 4, [1], Some [9]), (WAL_REC_DELETE, 5, [1], None), (WAL_REC_PUT, 6, [2], Some [8])]))
     \<lparr>udata = [], max_ts = 4, rec_count = 0\<rparr>
   = (FASTKV_OK, \<lparr>udata = [(5, [1], None)], max_ts = 5, rec_count = 1\<rparr>)"
proof -
  let ?rs = "[(WAL_REC_PUT, 4, [1], Some [9]), (WAL_REC_DELETE, 5, [1], None), (WAL_REC_PUT, 6, [2], Some [8])] :: wrec list"
  have f: "\<forall>r\<in>set ?rs. fits r"
    by (simp add: fits_def rec_fits_def FASTKV_MAX_KEY_LEN_def FASTKV_MAX_VAL_LEN_def)
  have "complete 50 ?rs = 2" by (simp add: enc_def rec_enc_body length_rec_body)
  then show ?thesis
    using wal_replay_crash_prefix [OF f, of "\<lambda>r u. (FASTKV_OK, u @ [(rts r, rkey r, rvalue r)])" 4 50
        "\<lparr>udata = [], max_ts = 4, rec_count = 0\<rparr>"]
    by (simp add: newest_def Let_def)
qed

text \<open>
  Property C29: a damaged record is never delivered.  If any one byte of a record outside its two length fields
  has changed on disk, the replay delivers what precedes the record and stops there, whatever follows.
\<close>
theorem wal_replay_stops_at_corruption:
  assumes "\<forall>r\<in>set rs. fits r" "fits bad" "i < length (enc bad)" "\<not> (13 \<le> i \<and> i < 21)" "b \<noteq> enc bad ! i"
    "\<And>r u. fst (fn r u) = FASTKV_OK"
  shows "replay_loop since fn False (enc_all rs @ (enc bad)[i := b] @ rest) s =
    (FASTKV_OK, s\<lparr>udata := fold (\<lambda>r u. snd (fn r u)) (seen since False rs) (udata s),
                  max_ts := newest (max_ts s) rs,
                  rec_count := rec_count s + of_nat (length (seen since False rs))\<rparr>)"
proof -
  obtain ty ts key val where bad: "bad = (ty, ts, key, val)" by (metis prod_cases4)
  have "read_record ((enc bad)[i := b] @ rest) = None"
    using assms(2-5) unfolding bad enc_def fits_def prod.case by (rule read_corrupt)
  then show ?thesis by (intro replay_loop_all [OF assms(1) _ assms(6)])
qed

theorem wal_replay_stops_at_corruption_witness:
  "(enc (WAL_REC_PUT, 5, [2], Some [7]))[4 := 9] \<noteq> enc (WAL_REC_PUT, 5, [2], Some [7]) \<and>
   udata (snd (replay_loop 0 (\<lambda>r u. (FASTKV_OK, u @ [rkey r])) False
     (enc_all [(WAL_REC_PUT, 4, [1], Some [9])] @ (enc (WAL_REC_PUT, 5, [2], Some [7]))[4 := 9]
        @ enc (WAL_REC_PUT, 6, [3], Some [6]))
     \<lparr>udata = [], max_ts = 0, rec_count = 0\<rparr>)) = [[1]]"
proof -
  have f: "\<forall>r\<in>set [(WAL_REC_PUT, 4, [1], Some [9])]. fits r" "fits (WAL_REC_PUT, 5, [2], Some [7])"
    by (simp_all add: fits_def rec_fits_def FASTKV_MAX_KEY_LEN_def FASTKV_MAX_VAL_LEN_def)
  have i: "4 < length (enc (WAL_REC_PUT, 5, [2], Some [7]))" "\<not> (13 \<le> (4::nat) \<and> 4 < (21::nat))"
    "9 \<noteq> enc (WAL_REC_PUT, 5, [2], Some [7]) ! 4"
    by (simp_all add: enc_def rec_enc_body length_rec_body nth_append rec_body_def)
  have "(enc (WAL_REC_PUT, 5, [2], Some [7]))[4 := 9] \<noteq> enc (WAL_REC_PUT, 5, [2], Some [7])"
    using i(1,3) by (metis nth_list_update_eq)
  then show ?thesis
    using wal_replay_stops_at_corruption [OF f i, of "\<lambda>r u. (FASTKV_OK, u @ [rkey r])" 0 "enc (WAL_REC_PUT, 6, [3], Some [6])"
        "\<lparr>udata = [], max_ts = 0, rec_count = 0\<rparr>"]
    by (simp add: Let_def)
qed

lemma strstr_found: "b \<notin> set pre \<Longrightarrow> strstr (b # bs) (pre @ b # bs) = Some (length pre)"
  by (induction pre) auto

lemma seg_of_name_file: "length seg = 32 \<Longrightarrow> 0x2E \<notin> set seg \<Longrightarrow> seg_of_name (seg_file seg) = Some seg"
  using strstr_found [of "0x2E" "WAL_FILENAME_PFX @ seg" "[0x6C, 0x6F, 0x67]"]
  by (simp add: seg_of_name_def seg_file_def WAL_FILENAME_SFX_def WAL_SEG_ID_LEN_def WAL_FILENAME_PFX_def)

lemma replicate_less: "a < b \<Longrightarrow> 0 < n \<Longrightarrow> replicate n a < replicate n (b :: byte)"
  by (cases n) simp_all

text \<open>
  the replay reads the segments in ascending order of their names, however the directory lists
  them, and opening the log continues the last of them (a new one is started only if there is none).
\<close>
lemma wal_open_continues_last_segment:
  "collect_segments (Some names) = Inr segs \<Longrightarrow>
   sorted segs \<and> set segs = {seg. \<exists>name\<in>set names. seg_of_name name = Some seg}
   \<and> newest_segment (Some names) = (if segs = [] then [] else last segs)"
proof -
  assume "collect_segments (Some names) = Inr segs"
  then have segs: "segs = sort (List.map_filter seg_of_name names)" by (simp add: collect_segments_def)
  have st: "set (List.map_filter seg_of_name names) = {seg. \<exists>name\<in>set names. seg_of_name name = Some seg}"
    by (force simp: List.map_filter_def)
  have "newest_segment (Some names) = fold max (List.map_filter seg_of_name names) []"
    using newest_foldl [of "[]" names] by (simp add: newest_segment_def)
  also have "\<dots> = Max (set ([] # List.map_filter seg_of_name names))" by (simp only: Max.set_eq_fold)
  also have "\<dots> = (if segs = [] then [] else last segs)"
  proof (cases "segs = []")
    case True
    with segs have "List.map_filter seg_of_name names = []" by (metis length_0_conv length_sort)
    with True show ?thesis by simp
  next
    case False
    have "sorted (butlast segs @ [last segs])" using False segs by simp
    then have "Max (set (butlast segs @ [last segs])) = last segs"
      by (intro Max_eqI) (auto simp: sorted_append)
    then have "Max (set segs) = last segs" using False by simp
    moreover have "[] \<le> x" for x :: bytes by (cases x) simp_all
    moreover have "Max (set ([] # List.map_filter seg_of_name names)) = max [] (Max (set segs))"
      using False by (subst Max_insert [symmetric]) (auto simp: segs)
    ultimately show ?thesis using False by (simp add: max_def)
  qed
  finally show ?thesis using segs st by simp
qed

lemma wal_open_continues_last_segment_example:
  "newest_segment (Some [seg_file (replicate 32 0x32), [0x2E], seg_file (replicate 32 0x31)]) = replicate 32 0x32
   \<and> sorted [replicate 32 0x31, replicate 32 0x32 :: bytes]"
proof -
  have seg: "seg_of_name (seg_file (replicate 32 c)) = Some (replicate 32 c)" if "c \<noteq> 0x2E" for c
    using that by (intro seg_of_name_file) simp_all
  have lt: "replicate 32 0x31 < (replicate 32 0x32 :: bytes)" by (simp add: replicate_less)
  have "seg_of_name [0x2E] = None" by (simp add: seg_of_name_def WAL_FILENAME_PFX_def)
  then have "collect_segments (Some [seg_file (replicate 32 0x32), [0x2E], seg_file (replicate 32 0x31)])
      = Inr (sort [replicate 32 0x32, replicate 32 0x31])"
    by (simp add: collect_segments_def List.map_filter_def seg)
  also have "sort [replicate 32 0x32, replicate 32 0x31 :: bytes] = [replicate 32 0x31, replicate 32 0x32]"
    using lt by simp
  finally show ?thesis using wal_open_continues_last_segment by fastforce
qed

end
