(* ===== verification/Btree.thy ===== *)
theory Btree
  imports Prelude
begin

text \<open>
  The B+-tree of \<open>src/src/index/btree/btree.c\<close>, the ordered index behind cursors and secondary
  indexes.  A node is a value of \<^verbatim>\<open>bnode\<close>; a leaf carries its address, so that the doubly linked
  list of the leaves (\<^verbatim>\<open>prev\<close>, \<^verbatim>\<open>next\<close>, \<^verbatim>\<open>leftmost\<close>) is modelled by explicit link maps and not by the
  shape of the tree: that the two agree is part of the invariant.  The arrays \<^verbatim>\<open>k[]\<close> and \<^verbatim>\<open>v[]\<close> of a
  leaf are one list of pairs and \<^verbatim>\<open>n\<close> is its length; an internal node has the lists of its
  separators and children.  Allocations succeed; the out-of-memory exits of the insertion,
  which lose entries, are in \<open>Btree_Mem\<close>.  The lock only serialises the operations.

  Shown here: insertion (with the leaf and internal splits), deletion, lookup and both directions of
  the scan implement a sorted association list; the arrays are never overrun, all leaves have the
  same depth and the leaf chain enumerates the leaves in order.
\<close>

section \<open>Nodes and tree\<close>

definition BTREE_ORDER :: nat where
  "BTREE_ORDER = 32"

definition LEAF_MAX :: nat where
  "LEAF_MAX = BTREE_ORDER"

definition INTR_MAX :: nat where
  "INTR_MAX = BTREE_ORDER - 1"

type_synonym addr = nat
type_synonym entry = "bytes \<times> slice"

datatype bnode = Lnode addr "entry list" | Inode "bytes list" "bnode list"

text \<open>The \<^verbatim>\<open>prev\<close> and \<^verbatim>\<open>next\<close> fields of the leaves, and the next address \<^verbatim>\<open>lnode_new\<close> returns.\<close>

record links =
  nxt :: "addr \<Rightarrow> addr option"
  prv :: "addr \<Rightarrow> addr option"
  brk :: addr

record btree =
  root :: bnode
  leftmost :: addr
  chain :: links

section \<open>Searching a node\<close>

definition leaf_lower :: "entry list \<Rightarrow> bytes \<Rightarrow> nat" where
  "leaf_lower es key = bsearch (\<lambda>i. cmp (fst (es ! i)) key < 0) 0 (length es)"

definition intr_child_idx :: "bytes list \<Rightarrow> bytes \<Rightarrow> nat" where
  "intr_child_idx ks key = bsearch (\<lambda>i. cmp (ks ! i) key \<le> 0) 0 (length ks)"

lemma intr_child_idx_le: "intr_child_idx ks key \<le> length ks"
  using bsearch_bounds [of 0 "length ks"] by (simp add: intr_child_idx_def)

lemma size_nth_child [termination_simp]: "i < length cs \<Longrightarrow> size (cs ! i) < Suc (size_list size cs)"
  by (meson le_imp_less_Suc nth_mem order_refl size_list_estimation')

text \<open>
  The descent to the leaf that holds a key.  \<^verbatim>\<open>c[]\<close> has one more element than \<^verbatim>\<open>k[]\<close>, so the index is
  always in range; the other branch is there to make the function total.
\<close>

function (sequential) find_leaf :: "bnode \<Rightarrow> bytes \<Rightarrow> addr \<times> entry list" where
  "find_leaf (Lnode a es) key = (a, es)"
| "find_leaf (Inode ks cs) key =
     (let ci = intr_child_idx ks key
      in if ci < length cs then find_leaf (cs ! ci) key else (0, []))"
  by pat_completeness auto
termination
  by (relation "measure (size \<circ> fst)") (auto simp: termination_simp)

text \<open>The rightmost leaf, where an unbounded backward scan starts.\<close>

function (sequential) last_leaf :: "bnode \<Rightarrow> addr \<times> entry list" where
  "last_leaf (Lnode a es) = (a, es)"
| "last_leaf (Inode ks cs) =
     (if length ks < length cs then last_leaf (cs ! length ks) else (0, []))"
  by pat_completeness auto
termination
  by (relation "measure size") (auto simp: termination_simp)

section \<open>Insertion\<close>

text \<open>The four pointer updates that put the new leaf \<open>r\<close> behind \<open>l\<close>.\<close>

definition link_after :: "addr \<Rightarrow> addr \<Rightarrow> links \<Rightarrow> links" where
  "link_after l r L =
     (let L1 = L\<lparr>nxt := (nxt L)(r := nxt L l), prv := (prv L)(r := Some l)\<rparr>;
          L2 = (case nxt L1 l of
                  None \<Rightarrow> L1
                | Some n \<Rightarrow> L1\<lparr>prv := (prv L1)(n := Some r)\<rparr>)
      in L2\<lparr>nxt := (nxt L2)(l := Some r)\<rparr>)"

text \<open>\<^verbatim>\<open>split_t\<close>: \<^verbatim>\<open>NO_SPLIT\<close> is \<^term>\<open>None\<close>; otherwise the separator and the new right node.\<close>

type_synonym split = "(bytes \<times> bnode) option"

definition leaf_insert :: "links \<Rightarrow> addr \<Rightarrow> entry list \<Rightarrow> bytes \<Rightarrow> slice \<Rightarrow> bnode \<times> links \<times> split" where
  "leaf_insert L a es key val =
     (let i = leaf_lower es key
      in if i < length es \<and> cmp (fst (es ! i)) key = 0
         then (Lnode a (es[i := (fst (es ! i), slice_dup val)]), L, None)
         else
           let t = take i es @ (key, slice_dup val) # drop i es
           in if length es < LEAF_MAX then (Lnode a t, L, None)
              else
                let left_n = length t div 2;
                    r = brk L;
                    right = drop left_n t
                in (Lnode a (take left_n t),
                    link_after a r (L\<lparr>brk := r + 1\<rparr>),
                    Some (fst (right ! 0), Lnode r right)))"

text \<open>What \<^verbatim>\<open>intr_insert\<close> does after the recursive call on child \<open>ci\<close>, which is now \<open>c\<close>.\<close>

fun intr_absorb :: "bytes list \<Rightarrow> bnode list \<Rightarrow> nat \<Rightarrow> bnode \<Rightarrow> split \<Rightarrow> bnode \<times> split" where
  "intr_absorb ks cs ci c None = (Inode ks (cs[ci := c]), None)"
| "intr_absorb ks cs ci c (Some (sep, right)) =
     (let tk = take ci ks @ sep # drop ci ks;
          tc = take ci cs @ c # right # drop (ci + 1) cs
      in if length ks < INTR_MAX then (Inode tk tc, None)
         else
           let mid = length ks div 2
           in (Inode (take mid tk) (take (mid + 1) tc),
               Some (tk ! mid, Inode (drop (mid + 1) tk) (drop (mid + 1) tc))))"

function (sequential) node_insert ::
  "bnode \<Rightarrow> links \<Rightarrow> bytes \<Rightarrow> slice \<Rightarrow> bnode \<times> links \<times> split" where
  "node_insert (Lnode a es) L key val = leaf_insert L a es key val"
| "node_insert (Inode ks cs) L key val =
     (let ci = intr_child_idx ks key
      in if ci < length cs
         then case node_insert (cs ! ci) L key val of
                (c, L', s) \<Rightarrow> (case intr_absorb ks cs ci c s of (p, s') \<Rightarrow> (p, L', s'))
         else (Inode ks cs, L, None))"
  by pat_completeness auto
termination
  by (relation "measure (\<lambda>(t, L, key, val). size t)") (auto simp: termination_simp)

definition fastkv_btree_create :: btree where
  "fastkv_btree_create =
     \<lparr>root = Lnode 0 [], leftmost = 0,
      chain = \<lparr>nxt = (\<lambda>_. None), prv = (\<lambda>_. None), brk = 1\<rparr>\<rparr>"

definition fastkv_btree_insert :: "btree \<Rightarrow> slice \<Rightarrow> slice \<Rightarrow> btree" where
  "fastkv_btree_insert t key val =
     (case node_insert (root t) (chain t) (slice_bytes key) val of
        (rt, L, None) \<Rightarrow> t\<lparr>root := rt, chain := L\<rparr>
      | (rt, L, Some (sep, right)) \<Rightarrow> t\<lparr>root := Inode [sep] [rt, right], chain := L\<rparr>)"

section \<open>Deletion and lookup\<close>

text \<open>A write through the pointer to the leaf at address \<open>a\<close>.\<close>

fun set_leaf :: "addr \<Rightarrow> entry list \<Rightarrow> bnode \<Rightarrow> bnode" where
  "set_leaf a es (Lnode b xs) = Lnode b (if b = a then es else xs)"
| "set_leaf a es (Inode ks cs) = Inode ks (map (set_leaf a es) cs)"

definition fastkv_btree_delete :: "btree \<Rightarrow> slice \<Rightarrow> fastkv_err \<times> btree" where
  "fastkv_btree_delete t key =
     (case find_leaf (root t) (slice_bytes key) of
        (a, es) \<Rightarrow>
          let i = leaf_lower es (slice_bytes key)
          in if i \<ge> length es \<or> cmp (fst (es ! i)) (slice_bytes key) \<noteq> 0
             then (FASTKV_ERR_NOTFOUND, t)
             else (FASTKV_OK, t\<lparr>root := set_leaf a (take i es @ drop (i + 1) es) (root t)\<rparr>))"

definition fastkv_btree_get :: "btree \<Rightarrow> slice \<Rightarrow> fastkv_err + slice" where
  "fastkv_btree_get t key =
     (case find_leaf (root t) (slice_bytes key) of
        (a, es) \<Rightarrow>
          let i = leaf_lower es (slice_bytes key)
          in if i < length es \<and> cmp (fst (es ! i)) (slice_bytes key) = 0
             then Inr (snd (es ! i))
             else Inl FASTKV_ERR_NOTFOUND)"

section \<open>Scans\<close>

text \<open>
  The callback gets the entry and its own state and answers with a code.  The \<^verbatim>\<open>for\<close> loop over one
  leaf either runs to its end (\<^term>\<open>None\<close>) or jumps to \<^verbatim>\<open>done\<close> with a code.
\<close>

type_synonym 'u scan_cb = "bytes \<Rightarrow> slice \<Rightarrow> 'u \<Rightarrow> fastkv_err \<times> 'u"

fun scan_leaf :: "(bytes \<Rightarrow> bool) \<Rightarrow> 'u scan_cb \<Rightarrow> entry list \<Rightarrow> 'u \<Rightarrow> fastkv_err option \<times> 'u" where
  "scan_leaf stop cb [] u = (None, u)"
| "scan_leaf stop cb ((k, v) # es) u =
     (if stop k then (Some FASTKV_OK, u)
      else case cb k v u of
             (rc, u') \<Rightarrow> if rc \<noteq> FASTKV_OK then (Some rc, u') else scan_leaf stop cb es u')"

text \<open>Reading through the pointer to a leaf.\<close>

fun leaves :: "bnode \<Rightarrow> (addr \<times> entry list) list" where
  "leaves (Lnode a es) = [(a, es)]"
| "leaves (Inode ks cs) = concat (map leaves cs)"

definition load_leaf :: "bnode \<Rightarrow> addr \<Rightarrow> entry list" where
  "load_leaf t a = (case map_of (leaves t) a of None \<Rightarrow> [] | Some es \<Rightarrow> es)"

text \<open>
  The outer \<^verbatim>\<open>while (l)\<close> loops.  The first leaf is read from index \<open>start\<close> (forward) or only its
  first \<open>cnt\<close> entries, from the last of them down (backward, \<open>cnt\<close> is \<^verbatim>\<open>start + 1\<close>).  The fuel bounds
  the number of leaves visited; \<^term>\<open>None\<close> is a loop that has not ended.
\<close>

fun scan_fwd :: "nat \<Rightarrow> btree \<Rightarrow> slice \<Rightarrow> 'u scan_cb \<Rightarrow> addr option \<Rightarrow> nat \<Rightarrow> 'u \<Rightarrow> (fastkv_err \<times> 'u) option" where
  "scan_fwd fuel t mx cb None start u = Some (FASTKV_OK, u)"
| "scan_fwd 0 t mx cb (Some l) start u = None"
| "scan_fwd (Suc fuel) t mx cb (Some l) start u =
     (case scan_leaf (\<lambda>k. mx \<noteq> None \<and> cmp k (slice_bytes mx) > 0) cb
             (drop start (load_leaf (root t) l)) u of
        (Some rc, u') \<Rightarrow> Some (rc, u')
      | (None, u') \<Rightarrow> scan_fwd fuel t mx cb (nxt (chain t) l) 0 u')"

fun scan_bwd :: "nat \<Rightarrow> btree \<Rightarrow> slice \<Rightarrow> 'u scan_cb \<Rightarrow> addr option \<Rightarrow> nat \<Rightarrow> 'u \<Rightarrow> (fastkv_err \<times> 'u) option" where
  "scan_bwd fuel t mn cb None cnt u = Some (FASTKV_OK, u)"
| "scan_bwd 0 t mn cb (Some l) cnt u = None"
| "scan_bwd (Suc fuel) t mn cb (Some l) cnt u =
     (case scan_leaf (\<lambda>k. mn \<noteq> None \<and> cmp k (slice_bytes mn) < 0) cb
             (rev (take cnt (load_leaf (root t) l))) u of
        (Some rc, u') \<Rightarrow> Some (rc, u')
      | (None, u') \<Rightarrow>
          (case prv (chain t) l of
             None \<Rightarrow> scan_bwd fuel t mn cb None cnt u'
           | Some p \<Rightarrow> scan_bwd fuel t mn cb (Some p) (length (load_leaf (root t) p)) u'))"

definition scan_rc :: "fastkv_err \<times> 'u \<Rightarrow> fastkv_err \<times> 'u" where
  "scan_rc r = ((if fst r = FASTKV_ERR_CURSOR_EOF then FASTKV_OK else fst r), snd r)"

definition fastkv_btree_scan ::
  "nat \<Rightarrow> btree \<Rightarrow> slice \<Rightarrow> slice \<Rightarrow> fastkv_cursor_dir \<Rightarrow> 'u scan_cb \<Rightarrow> 'u \<Rightarrow> (fastkv_err \<times> 'u) option" where
  "fastkv_btree_scan fuel t mn mx dir cb u =
     map_option scan_rc
       (if dir = FASTKV_CURSOR_FORWARD
        then
          (if mn \<noteq> None
           then case find_leaf (root t) (slice_bytes mn) of
                  (l, es) \<Rightarrow> scan_fwd fuel t mx cb (Some l) (leaf_lower es (slice_bytes mn)) u
           else scan_fwd fuel t mx cb (Some (leftmost t)) 0 u)
        else
          (if mx \<noteq> None
           then case find_leaf (root t) (slice_bytes mx) of
                  (l, es) \<Rightarrow>
                    let i = leaf_lower es (slice_bytes mx)
                    in scan_bwd fuel t mn cb (Some l)
                         (if i < length es \<and> cmp (fst (es ! i)) (slice_bytes mx) = 0 then i + 1 else i) u
           else case last_leaf (root t) of
                  (l, es) \<Rightarrow> scan_bwd fuel t mn cb (Some l) (length es) u))"

section \<open>The specification: a sorted association list\<close>

definition entries :: "bnode \<Rightarrow> entry list" where
  "entries t = concat (map snd (leaves t))"

definition keys_of :: "entry list \<Rightarrow> bytes list" where
  "keys_of es = map fst es"

definition al_put :: "bytes \<Rightarrow> slice \<Rightarrow> entry list \<Rightarrow> entry list" where
  "al_put k v xs = filter (\<lambda>e. fst e < k) xs @ (k, v) # filter (\<lambda>e. k < fst e) xs"

definition al_del :: "bytes \<Rightarrow> entry list \<Rightarrow> entry list" where
  "al_del k xs = filter (\<lambda>e. fst e \<noteq> k) xs"

definition ascending :: "entry list \<Rightarrow> bool" where
  "ascending xs = sorted_wrt (\<lambda>x y. fst x < fst y) xs"

text \<open>Feeding a list of entries to a callback until it asks to stop.\<close>

fun feed :: "'u scan_cb \<Rightarrow> entry list \<Rightarrow> 'u \<Rightarrow> fastkv_err \<times> 'u" where
  "feed cb [] u = (FASTKV_OK, u)"
| "feed cb ((k, v) # es) u =
     (case cb k v u of (rc, u') \<Rightarrow> if rc \<noteq> FASTKV_OK then (rc, u') else feed cb es u')"

definition in_range :: "slice \<Rightarrow> slice \<Rightarrow> bytes \<Rightarrow> bool" where
  "in_range mn mx k = ((mn \<noteq> None \<longrightarrow> slice_bytes mn \<le> k) \<and> (mx \<noteq> None \<longrightarrow> k \<le> slice_bytes mx))"

text \<open>Sorted lists: a list splits at a key into the smaller, the equal and the larger entries.\<close>

lemma ascending_append [simp]:
  "ascending (xs @ ys) \<longleftrightarrow> ascending xs \<and> ascending ys \<and> (\<forall>x\<in>set xs. \<forall>y\<in>set ys. fst x < fst y)"
  by (auto simp: ascending_def sorted_wrt_append)

lemma ascending_Cons [simp]: "ascending (x # xs) \<longleftrightarrow> (\<forall>y\<in>set xs. fst x < fst y) \<and> ascending xs"
  by (auto simp: ascending_def)

lemma ascending_Nil [simp]: "ascending []"
  by (simp add: ascending_def)

lemma ascending_filter: "ascending xs \<Longrightarrow> ascending (filter P xs)"
  by (simp add: ascending_def sorted_wrt_filter)

lemma ascending_al_put: "ascending xs \<Longrightarrow> ascending (al_put k v xs)"
  by (auto simp: al_put_def ascending_filter)

lemma ascending_distinct: "ascending xs \<Longrightarrow> distinct (map fst xs)"
  by (induction xs) auto

lemma al_put_around:
  assumes "\<forall>x\<in>set xs. fst x < k" "\<forall>y\<in>set ys. k < fst y"
  shows "al_put k v (xs @ zs @ ys) = xs @ al_put k v zs @ ys"
proof -
  have "filter (\<lambda>e. fst e < k) xs = xs" "filter (\<lambda>e. k < fst e) ys = ys"
    "filter (\<lambda>e. fst e < k) ys = []" "filter (\<lambda>e. k < fst e) xs = []"
    using assms by (auto simp: filter_id_conv filter_empty_conv)
  then show ?thesis by (simp add: al_put_def)
qed

lemma al_del_around:
  assumes "\<forall>x\<in>set xs. fst x < k" "\<forall>y\<in>set ys. k < fst y"
  shows "al_del k (xs @ zs @ ys) = xs @ al_del k zs @ ys"
proof -
  have "filter (\<lambda>e. fst e \<noteq> k) xs = xs" "filter (\<lambda>e. fst e \<noteq> k) ys = ys"
    using assms by (auto simp: filter_id_conv)
  then show ?thesis by (simp add: al_del_def)
qed

lemma map_of_around:
  fixes k :: bytes
  assumes "\<forall>x\<in>set xs. fst x < k" "\<forall>y\<in>set ys. k < fst y"
  shows "map_of (xs @ zs @ ys) k = map_of zs k"
proof -
  have "k \<notin> fst ` set xs" "k \<notin> fst ` set ys" using assms by auto
  then have "map_of xs k = None" "map_of ys k = None" by (simp_all add: map_of_eq_None_iff)
  then show ?thesis by (simp add: map_add_def split: option.split)
qed

lemma set_al_put: "set (al_put k v xs) = insert (k, v) {e \<in> set xs. fst e \<noteq> k}"
  by (auto simp: al_put_def)

lemma set_al_del: "set (al_del k xs) = {e \<in> set xs. fst e \<noteq> k}"
  by (auto simp: al_del_def)

lemma map_of_al_put: "map_of (al_put k v xs) = (map_of xs)(k \<mapsto> v)"
proof
  fix x
  show "map_of (al_put k v xs) x = ((map_of xs)(k \<mapsto> v)) x"
  proof (cases x k rule: linorder_cases)
    case less
    then have "map_of (filter (\<lambda>e. k < fst e) xs) x = None" by (auto simp: map_of_eq_None_iff)
    moreover have "map_of (filter (\<lambda>e. fst e < k) xs) x = map_of xs x"
      using less by (induction xs) auto
    ultimately show ?thesis using less_imp_neq [OF less] by (auto simp: al_put_def map_add_def split: option.split)
  next
    case greater
    then have "map_of (filter (\<lambda>e. fst e < k) xs) x = None" by (auto simp: map_of_eq_None_iff)
    moreover have "map_of (filter (\<lambda>e. k < fst e) xs) x = map_of xs x"
      using greater by (induction xs) auto
    ultimately show ?thesis using greater by (simp add: al_put_def map_add_def split: option.split)
  next
    case equal
    then have "map_of (filter (\<lambda>e. fst e < k) xs) k = None" by (auto simp: map_of_eq_None_iff)
    with equal show ?thesis by (simp add: al_put_def map_add_def)
  qed
qed

lemma map_of_al_del: "map_of (al_del k xs) = (map_of xs)(k := None)"
  by (induction xs) (auto simp: al_del_def fun_eq_iff)

section \<open>Searching a sorted leaf\<close>

lemma leaf_lower_takeWhile:
  assumes "ascending es"
  shows "leaf_lower es key = length (takeWhile (\<lambda>e. fst e < key) es)"
proof -
  have "sorted_wrt (\<lambda>x y. fst y < key \<longrightarrow> fst x < key) es"
    using assms unfolding ascending_def by (rule sorted_wrt_mono_rel [rotated]) auto
  then show ?thesis
    using bsearch_takeWhile [of "\<lambda>e. fst e < key"] by (simp add: leaf_lower_def)
qed

lemma leaf_parts:
  assumes "ascending es"
  shows "take (leaf_lower es key) es = filter (\<lambda>e. fst e < key) es"
    "drop (leaf_lower es key) es = filter (\<lambda>e. key \<le> fst e) es"
    "leaf_lower es key \<le> length es"
proof -
  have s: "sorted_wrt (\<lambda>x y. fst y < key \<longrightarrow> fst x < key) es"
    using assms unfolding ascending_def by (rule sorted_wrt_mono_rel [rotated]) auto
  show "take (leaf_lower es key) es = filter (\<lambda>e. fst e < key) es"
    "drop (leaf_lower es key) es = filter (\<lambda>e. key \<le> fst e) es"
    unfolding leaf_lower_takeWhile [OF assms] take_drop_takeWhile
    using dropWhile_filter_sorted [OF s] by (simp_all add: not_less)
  show "leaf_lower es key \<le> length es"
    by (simp add: leaf_lower_takeWhile [OF assms] length_takeWhile_le)
qed

text \<open>Whether the key is there shows at the index found, and the rest of the leaf is larger.\<close>

lemma leaf_found:
  assumes "ascending es" "leaf_lower es key < length es \<and> cmp (fst (es ! leaf_lower es key)) key = 0"
  shows "es ! leaf_lower es key = (key, snd (es ! leaf_lower es key))"
    "drop (leaf_lower es key + 1) es = filter (\<lambda>e. key < fst e) es"
    "es = filter (\<lambda>e. fst e < key) es @ es ! leaf_lower es key # filter (\<lambda>e. key < fst e) es"
proof -
  let ?i = "leaf_lower es key"
  have i: "?i < length es" "fst (es ! ?i) = key" using assms by auto
  then show e: "es ! ?i = (key, snd (es ! ?i))" by (simp add: prod_eq_iff)
  have es: "es = take ?i es @ es ! ?i # drop (?i + 1) es"
    using i id_take_nth_drop by simp
  have "ascending (take ?i es @ es ! ?i # drop (?i + 1) es)" using assms es by simp
  then have gt: "\<forall>y\<in>set (drop (?i + 1) es). key < fst y" using i by simp
  have "filter (\<lambda>e. key < fst e) es
      = filter (\<lambda>e. key < fst e) (take ?i es @ es ! ?i # drop (?i + 1) es)"
    using es by simp
  also have "\<dots> = drop (?i + 1) es"
  proof -
    have "filter (\<lambda>e. key < fst e) (take ?i es) = []"
      unfolding leaf_parts (1) [OF assms(1)] by (auto simp: filter_empty_conv)
    with gt i show ?thesis by (simp add: filter_id_conv)
  qed
  finally show d: "drop (?i + 1) es = filter (\<lambda>e. key < fst e) es" by simp
  from es show "es = filter (\<lambda>e. fst e < key) es @ es ! ?i # filter (\<lambda>e. key < fst e) es"
    unfolding d leaf_parts(1) [OF assms(1)] .
qed

lemma leaf_absent:
  assumes "ascending es" "\<not> (leaf_lower es key < length es \<and> cmp (fst (es ! leaf_lower es key)) key = 0)"
  shows "key \<notin> fst ` set es"
    "drop (leaf_lower es key) es = filter (\<lambda>e. key < fst e) es"
proof -
  let ?i = "leaf_lower es key"
  have d: "drop ?i es = filter (\<lambda>e. key \<le> fst e) es" using leaf_parts [OF assms(1)] by simp
  show nin: "key \<notin> fst ` set es"
  proof
    assume "key \<in> fst ` set es"
    then obtain e where e: "e \<in> set es" "fst e = key" by auto
    then have "e \<in> set (drop ?i es)" by (simp add: d)
    then obtain x xs where x: "drop ?i es = x # xs" by (cases "drop ?i es") auto
    then have i: "?i < length es" "es ! ?i = x"
      by (metis drop_eq_Nil leI list.distinct(1)) (metis x hd_drop_conv_nth list.sel(1) drop_eq_Nil leI list.distinct(1))
    have "key \<le> fst x" using arg_cong [OF d, of set] x by auto
    moreover have "fst x \<le> fst e"
    proof -
      have "ascending (drop ?i es)" using assms(1) d ascending_filter by metis
      with x \<open>e \<in> set (drop ?i es)\<close> show ?thesis by auto
    qed
    ultimately show False using assms(2) i e by simp
  qed
  have "(\<lambda>e. key \<le> fst e) x = (\<lambda>e. key < fst e) x" if "x \<in> set es" for x
    using nin that by (auto simp: image_iff le_less)
  then show "drop ?i es = filter (\<lambda>e. key < fst e) es"
    unfolding d by (intro filter_cong) auto
qed

section \<open>The tree invariant\<close>

text \<open>
  The keys of a subtree lie in \<open>[lo, hi)\<close>, \<^term>\<open>None\<close> being no bound.  \<^verbatim>\<open>kids\<close> distributes the separators
  of an internal node over its children: child \<open>i\<close> lies between separators \<open>i - 1\<close> and \<open>i\<close>.
\<close>

definition reaches :: "bytes option \<Rightarrow> bytes \<Rightarrow> bool" where
  "reaches lo k = (\<forall>l. lo = Some l \<longrightarrow> l \<le> k)"

definition over :: "bytes option \<Rightarrow> bytes \<Rightarrow> bool" where
  "over lo k = (\<forall>l. lo = Some l \<longrightarrow> l < k)"

definition beneath :: "bytes \<Rightarrow> bytes option \<Rightarrow> bool" where
  "beneath k hi = (\<forall>u. hi = Some u \<longrightarrow> k < u)"

fun kids :: "(bytes option \<Rightarrow> bytes option \<Rightarrow> bnode \<Rightarrow> bool) \<Rightarrow>
    bytes option \<Rightarrow> bytes list \<Rightarrow> bytes option \<Rightarrow> bnode list \<Rightarrow> bool" where
  "kids P lo [] hi [c] = P lo hi c"
| "kids P lo (k # ks) hi (c # cs) = (P lo (Some k) c \<and> kids P (Some k) ks hi cs)"
| "kids P lo _ hi _ = False"

fun bt_ok :: "nat \<Rightarrow> bytes option \<Rightarrow> bytes option \<Rightarrow> bnode \<Rightarrow> bool" where
  "bt_ok 0 lo hi (Lnode a es) =
     (length es \<le> LEAF_MAX \<and> ascending es \<and> (\<forall>e\<in>set es. reaches lo (fst e) \<and> beneath (fst e) hi))"
| "bt_ok (Suc h) lo hi (Inode ks cs) =
     (ks \<noteq> [] \<and> length ks \<le> INTR_MAX \<and> sorted_wrt (<) ks \<and> (\<forall>k\<in>set ks. over lo k \<and> beneath k hi) \<and>
      kids (\<lambda>l u c. bt_ok h l u c) lo ks hi cs)"
| "bt_ok _ lo hi _ = False"

lemma bound_simps [simp]:
  "reaches None k" "reaches (Some l) k \<longleftrightarrow> l \<le> k" "over None k" "over (Some l) k \<longleftrightarrow> l < k"
  "beneath k None" "beneath k (Some u) \<longleftrightarrow> k < u"
  by (auto simp: reaches_def over_def beneath_def)

lemma over_reaches: "over lo k \<Longrightarrow> k \<le> x \<Longrightarrow> reaches lo x"
  by (cases lo) auto

lemma beneath_trans: "x < k \<Longrightarrow> beneath k hi \<Longrightarrow> beneath x hi"
  by (cases hi) auto

lemma reaches_over: "reaches lo x \<Longrightarrow> x < k \<Longrightarrow> over lo k"
  by (cases lo) auto

definition lastb :: "bytes option \<Rightarrow> bytes list \<Rightarrow> bytes option" where
  "lastb lo ks = (if ks = [] then lo else Some (last ks))"

definition headb :: "bytes list \<Rightarrow> bytes option \<Rightarrow> bytes option" where
  "headb ks hi = (if ks = [] then hi else Some (hd ks))"

lemma bounds_lists [simp]:
  "lastb lo [] = lo" "lastb lo (k # ks) = lastb (Some k) ks" "headb [] hi = hi" "headb (k # ks) hi = Some k"
  by (auto simp: lastb_def headb_def)

lemma kids_length: "kids P lo ks hi cs \<Longrightarrow> length cs = Suc (length ks)"
  by (induction P lo ks hi cs rule: kids.induct) auto

text \<open>Cutting a list of children at separator \<open>m\<close>.\<close>

lemma kids_cut:
  "length ca = Suc (length a) \<Longrightarrow>
   kids P lo (a @ m # b) hi (ca @ cb) \<longleftrightarrow> kids P lo a (Some m) ca \<and> kids P (Some m) b hi cb"
proof (induction a arbitrary: lo ca)
  case Nil
  then obtain c where "ca = [c]" by (cases ca) auto
  then show ?case by simp
next
  case (Cons k a)
  then obtain c ca' where "ca = c # ca'" "length ca' = Suc (length a)" by (cases ca) auto
  with Cons.IH [of ca' "Some k"] show ?case by simp
qed

text \<open>Focusing on one child: what is left and right of it does not depend on it.\<close>

fun kids_left :: "(bytes option \<Rightarrow> bytes option \<Rightarrow> bnode \<Rightarrow> bool) \<Rightarrow>
    bytes option \<Rightarrow> bytes list \<Rightarrow> bnode list \<Rightarrow> bool" where
  "kids_left P lo [] [] = True"
| "kids_left P lo (k # ks) (c # cs) = (P lo (Some k) c \<and> kids_left P (Some k) ks cs)"
| "kids_left P lo _ _ = False"

fun kids_right :: "(bytes option \<Rightarrow> bytes option \<Rightarrow> bnode \<Rightarrow> bool) \<Rightarrow>
    bytes list \<Rightarrow> bytes option \<Rightarrow> bnode list \<Rightarrow> bool" where
  "kids_right P [] hi [] = True"
| "kids_right P (k # ks) hi (c # cs) = (P (Some k) (headb ks hi) c \<and> kids_right P ks hi cs)"
| "kids_right P _ hi _ = False"

lemma kids_head: "kids P lo ks hi (c # cs) \<longleftrightarrow> P lo (headb ks hi) c \<and> kids_right P ks hi cs"
proof (induction ks arbitrary: lo c cs)
  case Nil
  show ?case by (cases cs) auto
next
  case (Cons k ks)
  show ?case
  proof (cases cs)
    case (Cons d ds)
    with Cons.IH [of "Some k" d ds] show ?thesis by simp
  next
    case Nil
    show ?thesis by (cases ks) (simp_all add: Nil)
  qed
qed

lemma kids_focus:
  "length cs1 = length ks1 \<Longrightarrow>
   kids P lo (ks1 @ ks2) hi (cs1 @ c # cs2) \<longleftrightarrow>
     kids_left P lo ks1 cs1 \<and> P (lastb lo ks1) (headb ks2 hi) c \<and> kids_right P ks2 hi cs2"
proof (induction ks1 arbitrary: lo cs1)
  case Nil
  then show ?case by (simp add: kids_head)
next
  case (Cons k ks1)
  then obtain d ds where "cs1 = d # ds" "length ds = length ks1" by (cases cs1) auto
  with Cons.IH [of ds "Some k"] show ?case by simp
qed

section \<open>Descending to a leaf\<close>

text \<open>The child chosen for a key separates the separators into those at most the key and the rest.\<close>

lemma intr_child_idx_parts:
  assumes "sorted_wrt (<) ks"
  shows "take (intr_child_idx ks key) ks = filter (\<lambda>k. k \<le> key) ks"
    "drop (intr_child_idx ks key) ks = filter (\<lambda>k. key < k) ks"
proof -
  have s: "sorted_wrt (\<lambda>x y. y \<le> key \<longrightarrow> x \<le> key) ks"
    using assms by (rule sorted_wrt_mono_rel [rotated]) auto
  have i: "intr_child_idx ks key = length (takeWhile (\<lambda>k. k \<le> key) ks)"
    using bsearch_takeWhile [OF s] by (simp add: intr_child_idx_def)
  show "take (intr_child_idx ks key) ks = filter (\<lambda>k. k \<le> key) ks"
    "drop (intr_child_idx ks key) ks = filter (\<lambda>k. key < k) ks"
    unfolding i take_drop_takeWhile using dropWhile_filter_sorted [OF s] by (simp_all add: not_le)
qed

text \<open>
  The view of an internal node around the child on the path of a key: the pieces \<open>ks1\<close>, \<open>ks2\<close>,
  \<open>cs1\<close>, \<open>cs2\<close> of the two arrays, the bounds of the child, and what they say of the key.
\<close>

lemma node_focus:
  assumes "bt_ok (Suc h) lo hi (Inode ks cs)" "reaches lo key" "beneath key hi"
  obtains ks1 ks2 cs1 c cs2 where
    "ks = ks1 @ ks2" "cs = cs1 @ c # cs2" "length cs1 = length ks1" "intr_child_idx ks key = length ks1"
    "cs ! length ks1 = c" "kids_left (bt_ok h) lo ks1 cs1" "bt_ok h (lastb lo ks1) (headb ks2 hi) c"
    "kids_right (bt_ok h) ks2 hi cs2" "reaches (lastb lo ks1) key" "beneath key (headb ks2 hi)"
proof -
  let ?i = "intr_child_idx ks key"
  have k: "kids (bt_ok h) lo ks hi cs" and s: "sorted_wrt (<) ks" using assms by simp_all
  note p = intr_child_idx_parts [OF s, of key]
  have le: "?i \<le> length ks" by (rule intr_child_idx_le)
  then have len: "?i < length cs" using kids_length [OF k] by simp
  have ksp: "ks = take ?i ks @ drop ?i ks" by simp
  have csp: "cs = take ?i cs @ cs ! ?i # drop (?i + 1) cs" using len id_take_nth_drop by simp
  have l1: "length (take ?i cs) = length (take ?i ks)" "length (take ?i ks) = ?i" using le len by auto
  have "kids (bt_ok h) lo (take ?i ks @ drop ?i ks) hi (take ?i cs @ cs ! ?i # drop (?i + 1) cs)"
    using k ksp csp by simp
  note f = this [unfolded kids_focus [OF l1(1)]]
  have a: "reaches (lastb lo (take ?i ks)) key"
  proof (cases "take ?i ks = []")
    case False
    then have "last (take ?i ks) \<in> set (filter (\<lambda>k. k \<le> key) ks)" using p(1) last_in_set by metis
    with False show ?thesis by (simp add: lastb_def)
  qed (use assms in \<open>simp add: lastb_def\<close>)
  have u: "beneath key (headb (drop ?i ks) hi)"
  proof (cases "drop ?i ks = []")
    case False
    then have "hd (drop ?i ks) \<in> set (filter (\<lambda>k. key < k) ks)" using p(2) hd_in_set by metis
    with False show ?thesis by (simp add: headb_def)
  qed (use assms in \<open>simp add: headb_def\<close>)
  show thesis
    by (rule that [OF ksp csp l1(1)]) (use l1 f a u in simp_all)
qed

lemma leaves_Inode_focus:
  "leaves (Inode ks (cs1 @ c # cs2)) = concat (map leaves cs1) @ leaves c @ concat (map leaves cs2)"
  by simp

lemma entries_simps [simp]:
  "entries (Lnode a es) = es" "entries (Inode ks cs) = concat (map entries cs)"
  by (simp_all add: entries_def map_concat comp_def)
    (induction cs, simp_all add: entries_def)

text \<open>Bounds and order of the entries of a subtree.\<close>

definition span :: "bytes option \<Rightarrow> bytes option \<Rightarrow> entry list \<Rightarrow> bool" where
  "span lo hi xs = (ascending xs \<and> (\<forall>e\<in>set xs. reaches lo (fst e) \<and> beneath (fst e) hi))"

lemma span_append:
  assumes "span lo (Some k) xs" "span (Some k) hi ys" "over lo k" "beneath k hi"
  shows "span lo hi (xs @ ys)"
  unfolding span_def
proof (intro conjI ballI)
  show "ascending (xs @ ys)" using assms by (fastforce simp: span_def)
  fix e assume "e \<in> set (xs @ ys)"
  then consider "e \<in> set xs" | "e \<in> set ys" by auto
  then show "reaches lo (fst e)" using assms by cases (auto simp: span_def intro: over_reaches)
  from \<open>e \<in> set (xs @ ys)\<close> consider "e \<in> set xs" | "e \<in> set ys" by auto
  then show "beneath (fst e) hi" using assms by cases (auto simp: span_def intro: beneath_trans)
qed

lemma kids_span:
  assumes "\<And>l u c. P l u c \<Longrightarrow> span l u (entries c)" "kids P lo ks hi cs" "sorted_wrt (<) ks"
    "\<forall>k\<in>set ks. over lo k \<and> beneath k hi"
  shows "span lo hi (concat (map entries cs))"
  using assms
proof (induction P lo ks hi cs rule: kids.induct)
  case (2 P lo k ks hi c cs)
  have "span (Some k) hi (concat (map entries cs))"
    using "2.prems" by (intro "2.IH") auto
  moreover have "span lo (Some k) (entries c)"
    using "2.prems"(2) by (intro "2.prems"(1)) simp
  ultimately show ?case using "2.prems" by (auto intro: span_append)
qed simp_all

lemma bt_span: "bt_ok h lo hi t \<Longrightarrow> span lo hi (entries t)"
proof (induction h lo hi t rule: bt_ok.induct)
  case (2 h lo hi ks cs)
  then show ?case using kids_span [of "bt_ok h" lo ks hi cs] by simp
qed (simp_all add: span_def)

lemma kids_left_entries:
  assumes "\<And>l u c. P l u c \<Longrightarrow> span l u (entries c)" "kids_left P lo ks cs" "sorted_wrt (<) ks"
    "reaches (lastb lo ks) key" "e \<in> set (concat (map entries cs))"
  shows "fst e < key"
  using assms
proof (induction P lo ks cs rule: kids_left.induct)
  case (2 P lo k ks c cs)
  from "2.prems"(5) consider "e \<in> set (entries c)" | "e \<in> set (concat (map entries cs))" by auto
  then show ?case
  proof cases
    case 1
    have "span lo (Some k) (entries c)" using "2.prems"(2) by (intro "2.prems"(1)) simp
    with 1 have "fst e < k" by (simp add: span_def)
    moreover have "k \<le> key"
    proof (cases "ks = []")
      case False
      then have "k < last ks" using "2.prems"(3) by simp
      with False show ?thesis using "2.prems"(4) by (simp add: lastb_def)
    qed (use "2.prems"(4) in simp)
    ultimately show ?thesis by simp
  next
    case 2
    show ?thesis by (rule "2.IH") (use 2 "2.prems" in auto)
  qed
qed simp_all

lemma kids_right_entries:
  assumes "\<And>l u c. P l u c \<Longrightarrow> span l u (entries c)" "kids_right P ks hi cs" "sorted_wrt (<) ks"
    "beneath key (headb ks hi)" "e \<in> set (concat (map entries cs))"
  shows "key < fst e"
  using assms
proof (induction P ks hi cs rule: kids_right.induct)
  case (2 P k ks hi c cs)
  from "2.prems"(5) consider "e \<in> set (entries c)" | "e \<in> set (concat (map entries cs))" by auto
  then show ?case
  proof cases
    case 1
    have "span (Some k) (headb ks hi) (entries c)" using "2.prems"(2) by (intro "2.prems"(1)) simp
    with 1 have "k \<le> fst e" by (simp add: span_def)
    moreover have "key < k" using "2.prems"(4) by simp
    ultimately show ?thesis by simp
  next
    case 2
    have ne: "ks \<noteq> []" using 2 "2.prems"(2) by (cases ks; cases cs) auto
    then have "key < hd ks" using "2.prems"(3,4) by (cases ks) (auto intro: less_trans)
    with ne have "beneath key (headb ks hi)" by (simp add: headb_def)
    then show ?thesis by (intro "2.IH") (use 2 "2.prems" in auto)
  qed
qed simp_all

text \<open>
  A leaf in its place for a key: all entries left of it are smaller and all right of it larger.
\<close>

definition placed :: "(addr \<times> entry list) list \<Rightarrow> bytes \<Rightarrow> (addr \<times> entry list) list \<Rightarrow> bool" where
  "placed xs key ys =
     ((\<forall>e\<in>set (concat (map snd xs)). fst e < key) \<and> (\<forall>e\<in>set (concat (map snd ys)). key < fst e))"

lemma placed_Nil [simp]: "placed [] key []"
  by (simp add: placed_def)

lemma concat_leaves: "concat (map snd (concat (map leaves cs))) = concat (map entries cs)"
  by (induction cs) (simp_all add: entries_def)

lemma placed_extend:
  assumes "placed xs key ys" "\<forall>e\<in>set (concat (map entries cs1)). fst e < key"
    "\<forall>e\<in>set (concat (map entries cs2)). key < fst e"
  shows "placed (concat (map leaves cs1) @ xs) key (ys @ concat (map leaves cs2))"
  using assms unfolding placed_def by (simp add: concat_leaves ball_Un)

lemma node_focus_placed:
  assumes "bt_ok (Suc h) lo hi (Inode ks cs)" "reaches lo key" "beneath key hi"
  obtains ks1 ks2 cs1 c cs2 where
    "ks = ks1 @ ks2" "cs = cs1 @ c # cs2" "length cs1 = length ks1" "intr_child_idx ks key = length ks1"
    "cs ! length ks1 = c" "kids_left (bt_ok h) lo ks1 cs1" "bt_ok h (lastb lo ks1) (headb ks2 hi) c"
    "kids_right (bt_ok h) ks2 hi cs2" "reaches (lastb lo ks1) key" "beneath key (headb ks2 hi)"
    "\<forall>xs ys. placed xs key ys \<longrightarrow>
       placed (concat (map leaves cs1) @ xs) key (ys @ concat (map leaves cs2))"
proof -
  obtain ks1 ks2 cs1 c cs2 where f:
    "ks = ks1 @ ks2" "cs = cs1 @ c # cs2" "length cs1 = length ks1" "intr_child_idx ks key = length ks1"
    "cs ! length ks1 = c" "kids_left (bt_ok h) lo ks1 cs1" "bt_ok h (lastb lo ks1) (headb ks2 hi) c"
    "kids_right (bt_ok h) ks2 hi cs2" "reaches (lastb lo ks1) key" "beneath key (headb ks2 hi)"
    using node_focus [OF assms] by blast
  have s: "sorted_wrt (<) ks1" "sorted_wrt (<) ks2" using assms(1) f(1) by (auto simp: sorted_wrt_append)
  have "\<forall>e\<in>set (concat (map entries cs1)). fst e < key"
    using kids_left_entries [OF _ f(6) s(1) f(9)] bt_span by blast
  moreover have "\<forall>e\<in>set (concat (map entries cs2)). key < fst e"
    using kids_right_entries [OF _ f(8) s(2) f(10)] bt_span by blast
  ultimately have "placed (concat (map leaves cs1) @ xs) key (ys @ concat (map leaves cs2))"
    if "placed xs key ys" for xs ys using placed_extend that by blast
  then show thesis using that [OF f] by blast
qed

lemma find_leaf_placed:
  "bt_ok h lo hi t \<Longrightarrow> reaches lo key \<Longrightarrow> beneath key hi \<Longrightarrow>
   \<exists>xs ys. leaves t = xs @ find_leaf t key # ys \<and> placed xs key ys \<and> ascending (snd (find_leaf t key))"
proof (induction h lo hi t rule: bt_ok.induct)
  case (1 lo hi a es)
  have "leaves (Lnode a es) = [] @ find_leaf (Lnode a es) key # []" by simp
  with 1 show ?case using placed_Nil [of key] by (intro exI [of _ "[]"]) simp
next
  case (2 h lo hi ks cs)
  obtain ks1 ks2 cs1 c cs2 where f:
    "ks = ks1 @ ks2" "cs = cs1 @ c # cs2" "length cs1 = length ks1" "intr_child_idx ks key = length ks1"
    "cs ! length ks1 = c" "kids_left (bt_ok h) lo ks1 cs1" "bt_ok h (lastb lo ks1) (headb ks2 hi) c"
    "kids_right (bt_ok h) ks2 hi cs2" "reaches (lastb lo ks1) key" "beneath key (headb ks2 hi)"
    and pl: "\<forall>xs ys. placed xs key ys \<longrightarrow>
       placed (concat (map leaves cs1) @ xs) key (ys @ concat (map leaves cs2))"
    by (rule node_focus_placed [OF "2.prems"])
  obtain xs ys where l: "leaves c = xs @ find_leaf c key # ys" "placed xs key ys"
    "ascending (snd (find_leaf c key))"
    using "2.IH" [OF f(7,9,10)] by blast
  have "find_leaf (Inode ks cs) key = find_leaf c key" using f(2-5) by (simp add: Let_def)
  moreover have "leaves (Inode ks cs)
      = (concat (map leaves cs1) @ xs) @ find_leaf c key # (ys @ concat (map leaves cs2))"
    using f(2) l(1) by simp
  ultimately show ?case using pl l(2,3) by metis
qed simp_all

section \<open>Insertion keeps the invariant\<close>

definition split_ok :: "nat \<Rightarrow> bytes option \<Rightarrow> bytes option \<Rightarrow> bnode \<Rightarrow> split \<Rightarrow> bool" where
  "split_ok h lo hi t s =
     (case s of
        None \<Rightarrow> bt_ok h lo hi t
      | Some (sep, r) \<Rightarrow>
          over lo sep \<and> beneath sep hi \<and> bt_ok h lo (Some sep) t \<and> bt_ok h (Some sep) hi r)"

definition split_leaves :: "split \<Rightarrow> (addr \<times> entry list) list" where
  "split_leaves s = (case s of None \<Rightarrow> [] | Some (sep, r) \<Rightarrow> leaves r)"

lemma split_simps [simp]:
  "split_ok h lo hi t None = bt_ok h lo hi t"
  "split_ok h lo hi t (Some (sep, r)) =
     (over lo sep \<and> beneath sep hi \<and> bt_ok h lo (Some sep) t \<and> bt_ok h (Some sep) hi r)"
  "split_leaves None = []" "split_leaves (Some (sep, r)) = leaves r"
  by (simp_all add: split_ok_def split_leaves_def)

lemma order_consts [simp]: "LEAF_MAX = 32" "INTR_MAX = 31"
  by (simp_all add: LEAF_MAX_def INTR_MAX_def BTREE_ORDER_def)

text \<open>The list the leaf would hold if it had room, and what becomes of it.\<close>

lemma leaf_insert_list:
  assumes "ascending es" "\<not> (leaf_lower es key < length es \<and> cmp (fst (es ! leaf_lower es key)) key = 0)"
  shows "take (leaf_lower es key) es @ (key, v) # drop (leaf_lower es key) es = al_put key v es"
    "length (al_put key v es) = Suc (length es)"
proof -
  show eq: "take (leaf_lower es key) es @ (key, v) # drop (leaf_lower es key) es = al_put key v es"
    using leaf_parts(1) [OF assms(1)] leaf_absent(2) [OF assms] by (simp add: al_put_def)
  show "length (al_put key v es) = Suc (length es)"
    using leaf_parts(3) [OF assms(1), of key] by (simp flip: eq)
qed

lemma leaf_update_list:
  assumes "ascending es" "leaf_lower es key < length es \<and> cmp (fst (es ! leaf_lower es key)) key = 0"
  shows "es[leaf_lower es key := (fst (es ! leaf_lower es key), v)] = al_put key v es"
    "length (al_put key v es) = length es"
proof -
  let ?i = "leaf_lower es key"
  show eq: "es[?i := (fst (es ! ?i), v)] = al_put key v es"
    using assms leaf_parts(1) [OF assms(1)] leaf_found(2) [OF assms]
    by (simp add: upd_conv_take_nth_drop al_put_def)
  show "length (al_put key v es) = length es" by (simp flip: eq)
qed

lemma al_put_span:
  "span lo hi es \<Longrightarrow> reaches lo key \<Longrightarrow> beneath key hi \<Longrightarrow> span lo hi (al_put key v es)"
  unfolding span_def by (auto simp: ascending_al_put) (auto simp: al_put_def)

text \<open>The three outcomes of inserting into a leaf.\<close>

lemma leaf_insert_cases:
  assumes "ascending es"
  shows "leaf_insert L a es key val = (Lnode a (al_put key (slice_dup val) es), L, None)
           \<and> (length es \<le> LEAF_MAX \<longrightarrow> length (al_put key (slice_dup val) es) \<le> LEAF_MAX)
       \<or> (\<exists>l r. leaf_insert L a es key val
             = (Lnode a l, link_after a (brk L) (L\<lparr>brk := brk L + 1\<rparr>), Some (fst (hd r), Lnode (brk L) r))
           \<and> al_put key (slice_dup val) es = l @ r \<and> l \<noteq> [] \<and> r \<noteq> []
           \<and> (length es \<le> LEAF_MAX \<longrightarrow> length l \<le> LEAF_MAX \<and> length r \<le> LEAF_MAX))"
proof -
  let ?i = "leaf_lower es key" and ?t = "al_put key (slice_dup val) es"
  show ?thesis
  proof (cases "?i < length es \<and> cmp (fst (es ! ?i)) key = 0")
    case True
    then show ?thesis
      using leaf_update_list [OF assms True] by (simp add: leaf_insert_def Let_def)
  next
    case False
    note t = leaf_insert_list [OF assms False, of "slice_dup val"]
    show ?thesis
    proof (cases "length es < LEAF_MAX")
      case True
      then have "leaf_insert L a es key val = (Lnode a ?t, L, None)"
        using False unfolding leaf_insert_def Let_def t(1) by (simp only: if_False if_True)
      with True t(2) show ?thesis by simp
    next
      case full: False
      let ?l = "take (length ?t div 2) ?t" and ?r = "drop (length ?t div 2) ?t"
      have ne: "?l \<noteq> []" "?r \<noteq> []" using full t(2) by (auto simp: not_less)
      then have "?r ! 0 = hd ?r" by (simp add: hd_conv_nth)
      then have "leaf_insert L a es key val
          = (Lnode a ?l, link_after a (brk L) (L\<lparr>brk := brk L + 1\<rparr>), Some (fst (hd ?r), Lnode (brk L) ?r))"
        using False full unfolding leaf_insert_def Let_def t(1) by (simp only: if_False)
      moreover have "length es \<le> LEAF_MAX \<longrightarrow> length ?l \<le> LEAF_MAX \<and> length ?r \<le> LEAF_MAX"
        unfolding length_take length_drop t(2) by (simp, arith)
      ultimately show ?thesis using ne append_take_drop_id [of "length ?t div 2" ?t] by metis
    qed
  qed
qed

lemma leaf_insert_ok:
  assumes "bt_ok 0 lo hi (Lnode a es)" "reaches lo key" "beneath key hi"
    and res: "leaf_insert L a es key val = (t', L', s)"
  shows "split_ok 0 lo hi t' s"
proof -
  have sp: "span lo hi (al_put key (slice_dup val) es)" and asc: "ascending es" and len: "length es \<le> LEAF_MAX"
    using assms al_put_span [of lo hi es key "slice_dup val"] by (auto simp: span_def)
  from leaf_insert_cases [OF asc, of L a key val] res len consider
      "t' = Lnode a (al_put key (slice_dup val) es)" "s = None" "length (al_put key (slice_dup val) es) \<le> LEAF_MAX"
    | l r where "t' = Lnode a l" "s = Some (fst (hd r), Lnode (brk L) r)"
      "al_put key (slice_dup val) es = l @ r" "l \<noteq> []" "r \<noteq> []" "length l \<le> LEAF_MAX" "length r \<le> LEAF_MAX"
    by auto
  then show ?thesis
  proof cases
    case 1
    then show ?thesis using sp by (simp add: span_def)
  next
    case 2
    obtain x l' y r' where lr: "l = x # l'" "r = y # r'" using 2 by (metis list.exhaust)
    have "over lo (fst y)"
      using sp 2 lr by (intro reaches_over [of lo "fst x"]) (auto simp: span_def)
    with 2 lr sp show ?thesis by (auto simp: span_def less_imp_le)
  qed
qed

lemma intr_absorb_leaves:
  assumes "length cs1 = ci" "intr_absorb ks (cs1 @ c0 # cs2) ci c s = (p, s')"
  shows "leaves p @ split_leaves s' = concat (map leaves cs1) @ leaves c @ split_leaves s @ concat (map leaves cs2)"
proof (cases s)
  case None
  with assms show ?thesis by auto
next
  case (Some sr)
  obtain sep r where sr: "sr = (sep, r)" by (cases sr)
  let ?tc = "cs1 @ c # r # cs2" and ?m = "length ks div 2"
  have "concat (map leaves (take (?m + 1) ?tc)) @ concat (map leaves (drop (?m + 1) ?tc)) = concat (map leaves ?tc)"
    by (metis append_take_drop_id concat_append map_append)
  with assms Some sr show ?thesis by (auto simp: Let_def split: if_splits)
qed

text \<open>Absorbing a split: the separators stay sorted, and an overfull node is cut at its median.\<close>

lemma intr_absorb_ok:
  assumes ok: "sorted_wrt (<) (ks1 @ ks2)" "\<forall>k\<in>set (ks1 @ ks2). over lo k \<and> beneath k hi"
      "ks1 @ ks2 \<noteq> []" "length (ks1 @ ks2) \<le> INTR_MAX"
    and focus: "length cs1 = length ks1" "kids_left (bt_ok h) lo ks1 cs1" "kids_right (bt_ok h) ks2 hi cs2"
    and child: "split_ok h (lastb lo ks1) (headb ks2 hi) c s"
    and res: "intr_absorb (ks1 @ ks2) (cs1 @ c0 # cs2) (length ks1) c s = (p, s')"
  shows "split_ok (Suc h) lo hi p s'"
proof (cases s)
  case None
  then have "p = Inode (ks1 @ ks2) (cs1 @ c # cs2)" "s' = None"
    using res focus(1) by (auto simp: list_update_append)
  moreover have "kids (bt_ok h) lo (ks1 @ ks2) hi (cs1 @ c # cs2)"
    using kids_focus [OF focus(1)] focus child None by simp
  ultimately show ?thesis using ok by simp
next
  case (Some sr)
  obtain sep r where sr: "sr = (sep, r)" by (cases sr)
  let ?tk = "ks1 @ sep # ks2" and ?tc = "cs1 @ c # r # cs2" and ?m = "length (ks1 @ ks2) div 2"
  have sep: "over (lastb lo ks1) sep" "beneath sep (headb ks2 hi)" using child Some sr by auto
  have "kids (bt_ok h) lo (ks1 @ sep # ks2) hi (cs1 @ c # r # cs2)"
    using focus child Some sr by (simp add: kids_focus [OF focus(1)])
  note kids = this
  have l1: "\<forall>k\<in>set ks1. k < sep" using sep(1) ok(1)
    by (cases ks1 rule: rev_cases) (auto simp: lastb_def sorted_wrt_append)
  have l2: "\<forall>k\<in>set ks2. sep < k" using sep(2) ok(1)
    by (cases ks2) (auto simp: sorted_wrt_append)
  have srt: "sorted_wrt (<) ?tk" using ok(1) l1 l2 by (fastforce simp: sorted_wrt_append)
  have "over lo sep \<and> beneath sep hi"
  proof
    show "over lo sep" using sep(1) ok(2) l1 by (cases ks1; cases lo) fastforce+
    show "beneath sep hi" using sep(2) ok(2) l2 by (cases ks2; cases hi) fastforce+
  qed
  then have bnd: "\<forall>k\<in>set ?tk. over lo k \<and> beneath k hi" using ok(2) by auto
  show ?thesis
  proof (cases "length (ks1 @ ks2) < INTR_MAX")
    case True
    then have "p = Inode ?tk ?tc" "s' = None" using res focus(1) Some sr by (auto simp: Let_def)
    with True kids srt bnd show ?thesis by simp
  next
    case False
    then have full: "length ks1 + length ks2 = 31" using ok(4) by simp
    then have m: "?m = 15" by simp
    have len: "length ?tk = 32" "length ?tc = 33" using full kids_length [OF kids] by simp_all
    let ?a = "take 15 ?tk" and ?b = "drop 16 ?tk"
    have tk: "?tk = ?a @ ?tk ! 15 # ?b" using len(1) id_take_nth_drop [of 15 ?tk] by simp
    have tc: "?tc = take 16 ?tc @ drop 16 ?tc" by (simp only: append_take_drop_id)
    have p: "p = Inode ?a (take 16 ?tc)" "s' = Some (?tk ! 15, Inode ?b (drop 16 ?tc))"
      using res focus(1) Some sr False m by (auto simp: Let_def)
    have "length (take 16 ?tc) = Suc (length ?a)" using len by simp
    then have cut: "kids (bt_ok h) lo ?a (Some (?tk ! 15)) (take 16 ?tc)"
      "kids (bt_ok h) (Some (?tk ! 15)) ?b hi (drop 16 ?tc)"
      using kids tk tc kids_cut [of "take 16 ?tc" ?a "bt_ok h" lo "?tk ! 15" ?b hi "drop 16 ?tc"]
      by (metis (no_types, lifting))+
    have "sorted_wrt (<) (?a @ ?tk ! 15 # ?b)" "\<forall>k\<in>set (?a @ ?tk ! 15 # ?b). over lo k \<and> beneath k hi"
      using srt bnd tk by (metis (no_types, lifting))+
    moreover have "?a \<noteq> []" "?b \<noteq> []" "length ?a \<le> INTR_MAX" "length ?b \<le> INTR_MAX"
      using len by (auto simp del: take_append drop_append)
    ultimately show ?thesis
      unfolding p using cut
      by (simp add: sorted_wrt_append del: take_append drop_append)
  qed
qed

lemma node_insert_ok:
  "bt_ok h lo hi t \<Longrightarrow> reaches lo key \<Longrightarrow> beneath key hi \<Longrightarrow> node_insert t L key val = (t', L', s) \<Longrightarrow>
   split_ok h lo hi t' s"
proof (induction h lo hi t arbitrary: t' L' s rule: bt_ok.induct)
  case (1 lo hi a es)
  then show ?case using leaf_insert_ok by simp
next
  case (2 h lo hi ks cs)
  obtain ks1 ks2 cs1 c cs2 where f:
    "ks = ks1 @ ks2" "cs = cs1 @ c # cs2" "length cs1 = length ks1" "intr_child_idx ks key = length ks1"
    "cs ! length ks1 = c" "kids_left (bt_ok h) lo ks1 cs1" "bt_ok h (lastb lo ks1) (headb ks2 hi) c"
    "kids_right (bt_ok h) ks2 hi cs2" "reaches (lastb lo ks1) key" "beneath key (headb ks2 hi)"
    by (rule node_focus [OF "2.prems"(1-3)])
  obtain c' L1 s1 where c: "node_insert c L key val = (c', L1, s1)" by (metis prod_cases3)
  have "split_ok h (lastb lo ks1) (headb ks2 hi) c' s1" by (rule "2.IH" [OF f(7,9,10) c])
  moreover have "intr_absorb (ks1 @ ks2) (cs1 @ c # cs2) (length ks1) c' s1 = (t', s)"
    using "2.prems"(4) c f(1-5) by (auto simp: Let_def split: prod.splits)
  ultimately show ?case using "2.prems"(1) f by (intro intr_absorb_ok [of ks1 ks2]) auto
qed simp_all

text \<open>What the insertion does to the list of leaves: exactly one of them changes, or becomes two.\<close>

lemma node_insert_leaves:
  "bt_ok h lo hi t \<Longrightarrow> reaches lo key \<Longrightarrow> beneath key hi \<Longrightarrow> node_insert t L key val = (t', L', s) \<Longrightarrow>
   \<exists>xs ys a es l' s'. leaves t = xs @ (a, es) # ys \<and> placed xs key ys \<and> ascending es \<and>
     leaf_insert L a es key val = (l', L', s') \<and>
     leaves t' @ split_leaves s = xs @ leaves l' @ split_leaves s' @ ys"
proof (induction h lo hi t arbitrary: t' L' s rule: bt_ok.induct)
  case (1 lo hi a es)
  then show ?case using placed_Nil [of key] by (intro exI [of _ "[]"] exI [of _ a] exI [of _ es]) auto
next
  case (2 h lo hi ks cs)
  obtain ks1 ks2 cs1 c cs2 where f:
    "ks = ks1 @ ks2" "cs = cs1 @ c # cs2" "length cs1 = length ks1" "intr_child_idx ks key = length ks1"
    "cs ! length ks1 = c" "kids_left (bt_ok h) lo ks1 cs1" "bt_ok h (lastb lo ks1) (headb ks2 hi) c"
    "kids_right (bt_ok h) ks2 hi cs2" "reaches (lastb lo ks1) key" "beneath key (headb ks2 hi)"
    and pl: "\<forall>xs ys. placed xs key ys \<longrightarrow>
       placed (concat (map leaves cs1) @ xs) key (ys @ concat (map leaves cs2))"
    by (rule node_focus_placed [OF "2.prems"(1-3)])
  obtain c' L1 s1 where c: "node_insert c L key val = (c', L1, s1)" by (metis prod_cases3)
  have ab: "intr_absorb ks (cs1 @ c # cs2) (length ks1) c' s1 = (t', s)" "L1 = L'"
    using "2.prems"(4) c f(2-5) by (auto simp: Let_def split: prod.splits)
  obtain xs ys a es l' s' where i: "leaves c = xs @ (a, es) # ys" "placed xs key ys" "ascending es"
    "leaf_insert L a es key val = (l', L1, s')"
    "leaves c' @ split_leaves s1 = xs @ leaves l' @ split_leaves s' @ ys"
    using "2.IH" [OF f(7,9,10) c] by blast
  let ?xs = "concat (map leaves cs1) @ xs" and ?ys = "ys @ concat (map leaves cs2)"
  have "leaves (Inode ks cs) = ?xs @ (a, es) # ?ys" using f(2) i(1) by simp
  moreover have "leaves t' @ split_leaves s = ?xs @ leaves l' @ split_leaves s' @ ?ys"
    using intr_absorb_leaves [OF f(3) ab(1)] i(5) by simp
  ultimately show ?case using pl i(2-4) ab(2) by metis
qed simp_all

lemma leaf_insert_entries:
  assumes "ascending es" "leaf_insert L a es key val = (l', L', s')"
  shows "concat (map snd (leaves l' @ split_leaves s')) = al_put key (slice_dup val) es"
  using leaf_insert_cases [OF assms(1), of L a key val] assms(2) by auto

section \<open>The leaf chain\<close>

text \<open>The links enumerate a list of addresses, the first with predecessor \<open>p\<close>, the last with no successor.\<close>

fun linked :: "links \<Rightarrow> addr option \<Rightarrow> addr list \<Rightarrow> bool" where
  "linked L p [] = True"
| "linked L p (a # as) =
     (prv L a = p \<and> nxt L a = (case as of [] \<Rightarrow> None | b # _ \<Rightarrow> Some b) \<and> linked L (Some a) as)"

lemma linked_frame:
  "linked L p as \<Longrightarrow> (\<And>x. x \<in> set as \<Longrightarrow> nxt L' x = nxt L x \<and> prv L' x = prv L x) \<Longrightarrow> linked L' p as"
  by (induction L p as rule: linked.induct) auto

lemma link_after_sel:
  assumes "a \<noteq> r"
  shows "nxt (link_after a r L) = (nxt L)(r := nxt L a, a := Some r)"
    "prv (link_after a r L)
       = (case nxt L a of None \<Rightarrow> (prv L)(r := Some a) | Some n \<Rightarrow> (prv L)(r := Some a, n := Some r))"
    "brk (link_after a r L) = brk L"
  using assms by (auto simp: link_after_def Let_def fun_upd_twist split: option.split)

lemma linked_after_here:
  assumes "linked L p (a # ys)" "distinct (a # ys)" "r \<notin> set (a # ys)"
  shows "linked (link_after a r L) p (a # r # ys)"
proof -
  have ar: "a \<noteq> r" using assms by auto
  show ?thesis
  proof (cases ys)
    case Nil
    with assms ar show ?thesis by (simp add: link_after_sel)
  next
    case (Cons b zs)
    have "linked (link_after a r L) (Some b) zs"
      by (rule linked_frame [of L]) (use assms Cons ar in \<open>auto simp: link_after_sel\<close>)
    with assms ar Cons show ?thesis by (auto simp: link_after_sel split: list.split)
  qed
qed

lemma linked_after:
  "linked L p (xs @ a # ys) \<Longrightarrow> distinct (xs @ a # ys) \<Longrightarrow> r \<notin> set (xs @ a # ys) \<Longrightarrow>
   linked (link_after a r L) p (xs @ a # r # ys)"
proof (induction xs arbitrary: p)
  case Nil
  then show ?case using linked_after_here [of L p a ys r] by simp
next
  case (Cons x xs)
  have IH: "linked (link_after a r L) (Some x) (xs @ a # r # ys)" by (rule Cons.IH) (use Cons.prems in auto)
  have "nxt L a = (case ys of [] \<Rightarrow> None | b # _ \<Rightarrow> Some b)"
  proof -
    have "linked L q (zs @ a # ys) \<Longrightarrow> ?thesis" for q zs by (induction zs arbitrary: q) auto
    then show ?thesis using Cons.prems(1) .
  qed
  then have "prv (link_after a r L) x = prv L x" "nxt (link_after a r L) x = nxt L x"
    using Cons.prems(2,3) by (auto simp: link_after_sel split: list.splits)
  with Cons.prems(1) IH show ?case by (cases xs) auto
qed

section \<open>The invariant of a tree\<close>

fun height :: "bnode \<Rightarrow> nat" where
  "height (Lnode a es) = 0"
| "height (Inode ks []) = 0"
| "height (Inode ks (c # cs)) = Suc (height c)"

definition leaf_ids :: "btree \<Rightarrow> addr list" where
  "leaf_ids t = map fst (leaves (root t))"

definition bt_entries :: "btree \<Rightarrow> entry list" where
  "bt_entries t = entries (root t)"

definition btree_wf :: "btree \<Rightarrow> bool" where
  "btree_wf t =
     (bt_ok (height (root t)) None None (root t) \<and> distinct (leaf_ids t) \<and>
      (\<forall>a\<in>set (leaf_ids t). a < brk (chain t)) \<and> linked (chain t) None (leaf_ids t) \<and>
      leftmost t = hd (leaf_ids t))"

lemma bt_ok_height: "bt_ok h lo hi t \<Longrightarrow> height t = h"
proof (induction h lo hi t rule: bt_ok.induct)
  case (2 h lo hi ks cs)
  then obtain c cs' where cs: "cs = c # cs'" by (cases cs) auto
  then have "bt_ok h lo (headb ks hi) c" using "2.prems" by (simp add: kids_head)
  with "2.IH" cs show ?case by simp
qed simp_all

lemma btree_wfI:
  assumes "bt_ok h None None (root t)" "distinct (leaf_ids t)" "\<forall>a\<in>set (leaf_ids t). a < brk (chain t)"
    "linked (chain t) None (leaf_ids t)" "leftmost t = hd (leaf_ids t)"
  shows "btree_wf t"
  using assms bt_ok_height [OF assms(1)] by (simp add: btree_wf_def)

lemma btree_wf_ok: "btree_wf t \<Longrightarrow> bt_ok (height (root t)) None None (root t)"
  by (simp add: btree_wf_def)

lemma btree_ascending: "btree_wf t \<Longrightarrow> ascending (bt_entries t)"
  using bt_span [OF btree_wf_ok] by (simp add: span_def bt_entries_def)

lemma create_wf: "btree_wf fastkv_btree_create" "bt_entries fastkv_btree_create = []"
  by (simp_all add: btree_wf_def fastkv_btree_create_def leaf_ids_def bt_entries_def)

lemma leaf_insert_ids:
  assumes "ascending es" "leaf_insert L a es key val = (l', L', s')"
  shows "map fst (leaves l' @ split_leaves s') = [a] \<and> L' = L
       \<or> map fst (leaves l' @ split_leaves s') = [a, brk L] \<and> L' = link_after a (brk L) (L\<lparr>brk := brk L + 1\<rparr>)"
  using leaf_insert_cases [OF assms(1), of L a key val] assms(2) by auto

text \<open>The chain after an insertion: unchanged, or with the new leaf behind the one that was split.\<close>

lemma insert_chain:
  assumes "distinct (xs @ a # ys)" "\<forall>b\<in>set (xs @ a # ys). b < brk L" "linked L None (xs @ a # ys)"
    and "new = [a] \<and> L' = L \<or> new = [a, brk L] \<and> L' = link_after a (brk L) (L\<lparr>brk := brk L + 1\<rparr>)"
  shows "distinct (xs @ new @ ys) \<and> (\<forall>b\<in>set (xs @ new @ ys). b < brk L') \<and> linked L' None (xs @ new @ ys)
    \<and> hd (xs @ new @ ys) = hd (xs @ a # ys)"
  using assms(4)
proof (elim disjE conjE)
  assume new: "new = [a, brk L]" and L': "L' = link_after a (brk L) (L\<lparr>brk := brk L + 1\<rparr>)"
  have fr: "brk L \<notin> set (xs @ a # ys)" using assms(2) by blast
  then have ne: "a \<noteq> brk L" by auto
  have "linked (L\<lparr>brk := brk L + 1\<rparr>) None (xs @ a # ys)" using assms(3) by (rule linked_frame) simp
  then have "linked L' None (xs @ a # brk L # ys)" unfolding L' using assms(1) fr by (rule linked_after)
  moreover have "brk L' = brk L + 1" using ne by (simp add: L' link_after_sel)
  moreover have "distinct (xs @ new @ ys)" using assms(1) fr by (auto simp: new)
  ultimately show ?thesis using assms(2) by (cases xs) (auto simp: new less_SucI)
qed (use assms in simp)

lemma insert_leaves:
  assumes "btree_wf t"
  obtains xs ys a es l' L' s' rt s where
    "node_insert (root t) (chain t) (slice_bytes key) val = (rt, L', s)"
    "leaves (root t) = xs @ (a, es) # ys" "placed xs (slice_bytes key) ys" "ascending es"
    "leaf_insert (chain t) a es (slice_bytes key) val = (l', L', s')"
    "leaves (root (fastkv_btree_insert t key val)) = xs @ leaves l' @ split_leaves s' @ ys"
    "chain (fastkv_btree_insert t key val) = L'" "leftmost (fastkv_btree_insert t key val) = leftmost t"
    "\<exists>h. bt_ok h None None (root (fastkv_btree_insert t key val))"
proof -
  obtain rt L' s where i: "node_insert (root t) (chain t) (slice_bytes key) val = (rt, L', s)"
    by (metis prod_cases3)
  note ok = btree_wf_ok [OF assms]
  have so: "split_ok (height (root t)) None None rt s"
    by (rule node_insert_ok [OF ok _ _ i]) simp_all
  obtain xs ys a es l' s' where l: "leaves (root t) = xs @ (a, es) # ys" "placed xs (slice_bytes key) ys"
    "ascending es" "leaf_insert (chain t) a es (slice_bytes key) val = (l', L', s')"
    "leaves rt @ split_leaves s = xs @ leaves l' @ split_leaves s' @ ys"
    using node_insert_leaves [OF ok _ _ i] by auto
  have r: "leaves (root (fastkv_btree_insert t key val)) = leaves rt @ split_leaves s"
    "chain (fastkv_btree_insert t key val) = L'" "leftmost (fastkv_btree_insert t key val) = leftmost t"
    using i by (auto simp: fastkv_btree_insert_def split: option.split)
  have "\<exists>h. bt_ok h None None (root (fastkv_btree_insert t key val))"
  proof (cases s)
    case None
    with i so show ?thesis by (auto simp: fastkv_btree_insert_def)
  next
    case (Some sr)
    then have "bt_ok (Suc (height (root t))) None None (root (fastkv_btree_insert t key val))"
      using i so by (cases sr) (simp add: fastkv_btree_insert_def)
    then show ?thesis ..
  qed
  with that [OF i l(1-4) _ r(2,3)] l(5) r(1) show thesis by simp
qed

lemma insert_wf: "btree_wf t \<Longrightarrow> btree_wf (fastkv_btree_insert t key val)"
proof -
  assume wf: "btree_wf t"
  obtain xs ys a es l' L' s' rt s where
    "node_insert (root t) (chain t) (slice_bytes key) val = (rt, L', s)" and
    l: "leaves (root t) = xs @ (a, es) # ys" "placed xs (slice_bytes key) ys" "ascending es"
    "leaf_insert (chain t) a es (slice_bytes key) val = (l', L', s')"
    "leaves (root (fastkv_btree_insert t key val)) = xs @ leaves l' @ split_leaves s' @ ys"
    "chain (fastkv_btree_insert t key val) = L'" "leftmost (fastkv_btree_insert t key val) = leftmost t"
    "\<exists>h. bt_ok h None None (root (fastkv_btree_insert t key val))"
    by (rule insert_leaves [OF wf])
  let ?X = "map fst xs" and ?Y = "map fst ys" and ?N = "map fst (leaves l' @ split_leaves s')"
  have ids: "leaf_ids t = ?X @ a # ?Y" "leaf_ids (fastkv_btree_insert t key val) = ?X @ ?N @ ?Y"
    using l(1,5) by (simp_all add: leaf_ids_def)
  have "distinct (?X @ ?N @ ?Y) \<and> (\<forall>b\<in>set (?X @ ?N @ ?Y). b < brk L') \<and> linked L' None (?X @ ?N @ ?Y)
    \<and> hd (?X @ ?N @ ?Y) = hd (?X @ a # ?Y)"
    using wf unfolding btree_wf_def ids
    by (intro insert_chain [OF _ _ _ leaf_insert_ids [OF l(3,4)]]) auto
  with l(6-8) wf show ?thesis unfolding btree_wf_def [of t] by (auto intro!: btree_wfI simp: ids)
qed

lemma insert_entries:
  assumes "btree_wf t"
  shows "bt_entries (fastkv_btree_insert t key val) = al_put (slice_bytes key) (slice_dup val) (bt_entries t)"
proof -
  obtain xs ys a es l' L' s' rt s where
    "node_insert (root t) (chain t) (slice_bytes key) val = (rt, L', s)" and
    l: "leaves (root t) = xs @ (a, es) # ys" "placed xs (slice_bytes key) ys" "ascending es"
    "leaf_insert (chain t) a es (slice_bytes key) val = (l', L', s')"
    "leaves (root (fastkv_btree_insert t key val)) = xs @ leaves l' @ split_leaves s' @ ys"
    "chain (fastkv_btree_insert t key val) = L'" "leftmost (fastkv_btree_insert t key val) = leftmost t"
    "\<exists>h. bt_ok h None None (root (fastkv_btree_insert t key val))"
    by (rule insert_leaves [OF assms])
  let ?X = "concat (map snd xs)" and ?Y = "concat (map snd ys)"
  have "bt_entries (fastkv_btree_insert t key val)
      = ?X @ concat (map snd (leaves l' @ split_leaves s')) @ ?Y"
    using l(5) by (simp add: bt_entries_def entries_def)
  also have "\<dots> = ?X @ al_put (slice_bytes key) (slice_dup val) es @ ?Y"
    unfolding leaf_insert_entries [OF l(3,4)] ..
  also have "\<dots> = al_put (slice_bytes key) (slice_dup val) (?X @ es @ ?Y)"
    using l(2) by (intro al_put_around [symmetric]) (simp_all add: placed_def)
  finally show ?thesis using l(1) by (simp add: bt_entries_def entries_def)
qed

section \<open>Lookup and deletion\<close>

lemma load_leaf_mem: "distinct (leaf_ids t) \<Longrightarrow> (a, es) \<in> set (leaves (root t)) \<Longrightarrow> load_leaf (root t) a = es"
  by (simp add: load_leaf_def leaf_ids_def map_of_is_SomeI)

lemma wf_find_leaf:
  assumes "btree_wf t"
  obtains xs ys a es where "find_leaf (root t) key = (a, es)" "leaves (root t) = xs @ (a, es) # ys"
    "placed xs key ys" "ascending es"
    "bt_entries t = concat (map snd xs) @ es @ concat (map snd ys)" "load_leaf (root t) a = es"
proof -
  obtain xs ys where l: "leaves (root t) = xs @ find_leaf (root t) key # ys" "placed xs key ys"
    "ascending (snd (find_leaf (root t) key))"
    using find_leaf_placed [OF btree_wf_ok [OF assms], of key] by auto
  obtain a es where f: "find_leaf (root t) key = (a, es)" by fastforce
  have "load_leaf (root t) a = es" using assms l(1) f by (intro load_leaf_mem) (auto simp: btree_wf_def)
  then show thesis using that [OF f] l f by (simp add: bt_entries_def entries_def)
qed

lemma map_of_leaf:
  assumes "ascending es"
  shows "map_of es key = (if leaf_lower es key < length es \<and> cmp (fst (es ! leaf_lower es key)) key = 0
                          then Some (snd (es ! leaf_lower es key)) else None)"
proof (cases "leaf_lower es key < length es \<and> cmp (fst (es ! leaf_lower es key)) key = 0")
  case True
  then have "es ! leaf_lower es key \<in> set es" by simp
  with leaf_found(1) [OF assms True] have "(key, snd (es ! leaf_lower es key)) \<in> set es" by simp
  then show ?thesis using True ascending_distinct [OF assms] by (simp add: map_of_is_SomeI)
next
  case False
  then show ?thesis using leaf_absent(1) [OF assms False] by (auto simp: map_of_eq_None_iff)
qed

lemma get_entries:
  assumes "btree_wf t"
  shows "fastkv_btree_get t key =
     (case map_of (bt_entries t) (slice_bytes key) of None \<Rightarrow> Inl FASTKV_ERR_NOTFOUND | Some v \<Rightarrow> Inr v)"
proof -
  obtain xs ys a es where l: "find_leaf (root t) (slice_bytes key) = (a, es)"
    "leaves (root t) = xs @ (a, es) # ys" "placed xs (slice_bytes key) ys" "ascending es"
    "bt_entries t = concat (map snd xs) @ es @ concat (map snd ys)" "load_leaf (root t) a = es"
    by (rule wf_find_leaf [OF assms])
  have "map_of (bt_entries t) (slice_bytes key) = map_of es (slice_bytes key)"
    unfolding l(5) using l(3) by (intro map_of_around) (simp_all add: placed_def)
  then show ?thesis using l(1) map_of_leaf [OF l(4)] by (simp add: fastkv_btree_get_def Let_def)
qed

lemma leaves_set_leaf: "leaves (set_leaf a es t) = map (\<lambda>(b, x). (b, if b = a then es else x)) (leaves t)"
proof (induction a es t rule: set_leaf.induct)
  case (2 a es ks cs)
  have "concat (map (leaves \<circ> set_leaf a es) cs)
      = concat (map (map (\<lambda>(b, x). (b, if b = a then es else x)) \<circ> leaves) cs)"
    by (intro arg_cong [where f = concat] map_cong refl) (simp add: 2)
  then show ?case by (simp add: map_concat)
qed simp

lemma kids_map:
  "kids P lo ks hi cs \<Longrightarrow> (\<And>l u c. c \<in> set cs \<Longrightarrow> P l u c \<Longrightarrow> P l u (f c)) \<Longrightarrow> kids P lo ks hi (map f cs)"
  by (induction P lo ks hi cs rule: kids.induct) auto

lemma set_leaf_ok:
  assumes "ascending es" "length es \<le> LEAF_MAX"
  shows "bt_ok h lo hi t \<Longrightarrow> (\<And>x. (a, x) \<in> set (leaves t) \<Longrightarrow> set es \<subseteq> set x) \<Longrightarrow> bt_ok h lo hi (set_leaf a es t)"
proof (induction h lo hi t rule: bt_ok.induct)
  case (1 lo hi b x)
  then show ?case using assms by auto
next
  case (2 h lo hi ks cs)
  have "kids (bt_ok h) lo ks hi (map (set_leaf a es) cs)"
  proof (rule kids_map)
    fix l u c assume c: "c \<in> set cs" "bt_ok h l u c"
    show "bt_ok h l u (set_leaf a es c)" by (rule "2.IH" [OF c(2)]) (use "2.prems"(2) c(1) in auto)
  qed (use "2.prems" in simp)
  with "2.prems" show ?case by simp
qed simp_all

lemma bt_ok_leaf_length: "bt_ok h lo hi t \<Longrightarrow> (a, es) \<in> set (leaves t) \<Longrightarrow> length es \<le> LEAF_MAX"
proof (induction h lo hi t rule: bt_ok.induct)
  case (2 h lo hi ks cs)
  from "2.prems"(2) obtain c where c: "c \<in> set cs" "(a, es) \<in> set (leaves c)" by auto
  have "kids P lo ks hi cs \<Longrightarrow> \<exists>l u. P l u c" for P using c(1)
    by (induction P lo ks hi cs rule: kids.induct) auto
  then obtain l u where "bt_ok h l u c" using "2.prems"(1) by fastforce
  with "2.IH" c show ?case by blast
qed auto

lemma leaf_delete_list:
  assumes "ascending es" "leaf_lower es key < length es \<and> cmp (fst (es ! leaf_lower es key)) key = 0"
  shows "take (leaf_lower es key) es @ drop (leaf_lower es key + 1) es = al_del key es"
proof -
  have lt: "filter (\<lambda>e. fst e \<noteq> key) (filter (\<lambda>e. fst e < key) es) = filter (\<lambda>e. fst e < key) es"
    and gt: "filter (\<lambda>e. fst e \<noteq> key) (filter (\<lambda>e. key < fst e) es) = filter (\<lambda>e. key < fst e) es"
    by (rule filter_True, force)+
  have "al_del key es = al_del key (filter (\<lambda>e. fst e < key) es @ es ! leaf_lower es key # filter (\<lambda>e. key < fst e) es)"
    using leaf_found(3) [OF assms] by simp
  also have "\<dots> = filter (\<lambda>e. fst e < key) es @ filter (\<lambda>e. key < fst e) es"
    using assms(2) unfolding al_del_def filter_append lt by (simp add: gt del: filter_filter)
  finally show ?thesis using leaf_parts(1) [OF assms(1)] leaf_found(2) [OF assms] by simp
qed

text \<open>Writing a part of its entries back to a leaf keeps the tree well-formed.\<close>

lemma shrink_leaf_wf:
  assumes "btree_wf t" "leaves (root t) = xs @ (a, es) # ys" "set es' \<subseteq> set es" "ascending es'"
    "length es' \<le> length es"
  shows "leaves (set_leaf a es' (root t)) = xs @ (a, es') # ys"
    "btree_wf (t\<lparr>root := set_leaf a es' (root t)\<rparr>)"
proof -
  have d: "distinct (map fst (leaves (root t)))" using assms(1) by (simp add: btree_wf_def leaf_ids_def)
  then have "\<forall>p\<in>set xs \<union> set ys. fst p \<noteq> a" using assms(2) by auto
  then show lv: "leaves (set_leaf a es' (root t)) = xs @ (a, es') # ys"
    using assms(2) by (force simp: leaves_set_leaf intro!: map_idI)
  have mem: "(a, es) \<in> set (leaves (root t))" using assms(2) by simp
  have sub: "set es' \<subseteq> set x" if "(a, x) \<in> set (leaves (root t))" for x
    using eq_key_imp_eq_value [OF d mem that] assms(3) by simp
  have ok: "bt_ok (height (root t)) None None (set_leaf a es' (root t))"
    using set_leaf_ok [OF assms(4) _ btree_wf_ok [OF assms(1)] sub] assms(5)
      bt_ok_leaf_length [OF btree_wf_ok [OF assms(1)] mem] by simp
  have ids: "leaf_ids (t\<lparr>root := set_leaf a es' (root t)\<rparr>) = leaf_ids t"
    using lv assms(2) by (simp add: leaf_ids_def)
  show "btree_wf (t\<lparr>root := set_leaf a es' (root t)\<rparr>)"
    by (rule btree_wfI) (use ok assms(1) in \<open>simp_all add: ids btree_wf_def [of t]\<close>)
qed

lemma delete_entries:
  assumes "btree_wf t" and del: "fastkv_btree_delete t key = (rc, t')"
  shows "(rc = FASTKV_OK \<longleftrightarrow> slice_bytes key \<in> fst ` set (bt_entries t))
    \<and> (rc \<noteq> FASTKV_OK \<longrightarrow> rc = FASTKV_ERR_NOTFOUND \<and> t' = t)
    \<and> bt_entries t' = al_del (slice_bytes key) (bt_entries t) \<and> btree_wf t'"
proof -
  let ?k = "slice_bytes key"
  obtain xs ys a es where l: "find_leaf (root t) ?k = (a, es)"
    "leaves (root t) = xs @ (a, es) # ys" "placed xs ?k ys" "ascending es"
    "bt_entries t = concat (map snd xs) @ es @ concat (map snd ys)" "load_leaf (root t) a = es"
    by (rule wf_find_leaf [OF assms(1)])
  let ?X = "concat (map snd xs)" and ?Y = "concat (map snd ys)" and ?i = "leaf_lower es ?k"
  have out: "\<forall>e\<in>set ?X. fst e < ?k" "\<forall>e\<in>set ?Y. ?k < fst e"
    using l(3) by (simp_all add: placed_def)
  show ?thesis
  proof (cases "?i < length es \<and> cmp (fst (es ! ?i)) ?k = 0")
    case False
    then have r: "rc = FASTKV_ERR_NOTFOUND" "t' = t"
      using del l(1) by (auto simp: fastkv_btree_delete_def Let_def)
    have "map_of es ?k = None" using map_of_leaf [OF l(4), of ?k] False by simp
    then have "map_of (bt_entries t) ?k = None" unfolding l(5) using map_of_around [OF out] by simp
    then have nin: "?k \<notin> fst ` set (bt_entries t)" by (simp add: map_of_eq_None_iff)
    then have "al_del ?k (bt_entries t) = bt_entries t" unfolding al_del_def by (intro filter_True) force
    with r nin assms(1) show ?thesis by simp
  next
    case True
    note es = leaf_delete_list [OF l(4) True]
    have r: "rc = FASTKV_OK" "t' = t\<lparr>root := set_leaf a (al_del ?k es) (root t)\<rparr>"
      using del l(1) True es by (auto simp: fastkv_btree_delete_def Let_def)
    have sh: "leaves (set_leaf a (al_del ?k es) (root t)) = xs @ (a, al_del ?k es) # ys" "btree_wf t'"
      unfolding r(2) by (rule shrink_leaf_wf [OF assms(1) l(2)];
        simp add: al_del_def ascending_filter l(4))+
    have "?k \<in> fst ` set es" using True by (metis cmp_eq_0 image_eqI nth_mem)
    then have inn: "?k \<in> fst ` set (bt_entries t)" using l(5) by auto
    have "bt_entries t' = al_del ?k (bt_entries t)"
      unfolding l(5) al_del_around [OF out] using sh(1) by (simp add: bt_entries_def entries_def r(2))
    with sh(2) r inn show ?thesis by simp
  qed
qed

section \<open>Scans\<close>

text \<open>
  The loops seen from the callback: the entries of the leaves are fed to it one after the other until it
  asks to stop or a key beyond the far bound shows up; a sorted list has nothing wanted behind that key.
\<close>

definition until :: "(bytes \<Rightarrow> bool) \<Rightarrow> 'u scan_cb \<Rightarrow> entry list \<Rightarrow> 'u \<Rightarrow> fastkv_err \<times> 'u" where
  "until stop cb es u = (case scan_leaf stop cb es u of (None, u') \<Rightarrow> (FASTKV_OK, u') | (Some rc, u') \<Rightarrow> (rc, u'))"

lemma scan_leaf_append:
  "scan_leaf stop cb (xs @ ys) u =
     (case scan_leaf stop cb xs u of (None, u') \<Rightarrow> scan_leaf stop cb ys u' | (Some rc, u') \<Rightarrow> (Some rc, u'))"
  by (induction stop cb xs u rule: scan_leaf.induct) (auto split: prod.split)

lemma until_append:
  "until stop cb (xs @ ys) u =
     (case scan_leaf stop cb xs u of (None, u') \<Rightarrow> until stop cb ys u' | (Some rc, u') \<Rightarrow> (rc, u'))"
  by (auto simp: until_def scan_leaf_append split: prod.split option.split)

lemma until_feed:
  "sorted_wrt (\<lambda>x y. stop (fst x) \<longrightarrow> stop (fst y)) es \<Longrightarrow>
   until stop cb es u = feed cb (filter (\<lambda>e. \<not> stop (fst e)) es) u"
proof (induction stop cb es u rule: scan_leaf.induct)
  case (2 stop cb k v es u)
  show ?case
  proof (cases "stop k")
    case True
    with "2.prems" have "filter (\<lambda>e. \<not> stop (fst e)) es = []" by (auto simp: filter_empty_conv)
    with True show ?thesis by (simp add: until_def)
  next
    case False
    with 2 show ?thesis by (auto simp: until_def split: prod.split)
  qed
qed (simp add: until_def)

lemma scan_fwd_until:
  "leaves (root t) = xs @ (l, es) # ys \<Longrightarrow> linked (chain t) p (map fst ((l, es) # ys)) \<Longrightarrow>
   distinct (leaf_ids t) \<Longrightarrow> length ((l, es) # ys) \<le> fuel \<Longrightarrow>
   scan_fwd fuel t mx cb (Some l) start u =
     Some (until (\<lambda>k. mx \<noteq> None \<and> cmp k (slice_bytes mx) > 0) cb (drop start es @ concat (map snd ys)) u)"
proof (induction ys arbitrary: xs l es p fuel start u)
  case Nil
  from Nil.prems have "load_leaf (root t) l = es" by (intro load_leaf_mem) auto
  with Nil show ?case
    by (cases fuel) (auto simp: until_def split: prod.split option.split)
next
  case (Cons y ys)
  obtain m fs where y: "y = (m, fs)" by (cases y)
  have ld: "load_leaf (root t) l = es"
    using Cons.prems(1,3) by (intro load_leaf_mem) auto
  have nx: "nxt (chain t) l = Some m" using Cons.prems(2) y by simp
  obtain f where f: "fuel = Suc f" using Cons.prems(4) by (cases fuel) auto
  have IH: "scan_fwd f t mx cb (Some m) 0 u' =
     Some (until (\<lambda>k. mx \<noteq> None \<and> cmp k (slice_bytes mx) > 0) cb (drop 0 fs @ concat (map snd ys)) u')" for u'
    by (rule Cons.IH [of "xs @ [(l, es)]" m fs "Some l"]) (use Cons.prems y f in auto)
  show ?case
    unfolding f by (simp add: ld nx IH until_append y split: prod.split option.split)
qed

lemma scan_bwd_until:
  "leaves (root t) = xs @ (l, es) # ys \<Longrightarrow> linked (chain t) None (leaf_ids t) \<Longrightarrow>
   distinct (leaf_ids t) \<Longrightarrow> length (xs @ [(l, es)]) \<le> fuel \<Longrightarrow>
   scan_bwd fuel t mn cb (Some l) cnt u =
     Some (until (\<lambda>k. mn \<noteq> None \<and> cmp k (slice_bytes mn) < 0) cb
       (rev (concat (map snd xs) @ take cnt es)) u)"
proof (induction xs arbitrary: l es ys fuel cnt u rule: rev_induct)
  case Nil
  then have "load_leaf (root t) l = es" "prv (chain t) l = None"
    by (auto simp: load_leaf_def leaf_ids_def)
  with Nil show ?case
    by (cases fuel) (auto simp: until_def split: prod.split option.split)
next
  case (snoc y xs)
  obtain m fs where y: "y = (m, fs)" by (cases y)
  have ids: "leaf_ids t = map fst xs @ m # l # map fst ys" using snoc.prems(1) y by (simp add: leaf_ids_def)
  have ld: "load_leaf (root t) l = es" "load_leaf (root t) m = fs"
    using snoc.prems(1,3) y by (auto intro!: load_leaf_mem)
  have "linked L q (as @ m # l # bs) \<Longrightarrow> prv L l = Some m" for L q as bs
    by (induction as arbitrary: q) auto
  then have pv: "prv (chain t) l = Some m" using snoc.prems(2) ids by metis
  obtain f where f: "fuel = Suc f" using snoc.prems(4) by (cases fuel) auto
  have IH: "scan_bwd f t mn cb (Some m) (length fs) u' =
     Some (until (\<lambda>k. mn \<noteq> None \<and> cmp k (slice_bytes mn) < 0) cb
       (rev (concat (map snd xs) @ take (length fs) fs)) u')" for u'
    by (rule snoc.IH [of m fs "(l, es) # ys"]) (use snoc.prems y f in auto)
  show ?case
    unfolding f by (simp add: ld pv IH until_append y split: prod.split option.split)
qed

lemma last_leaf_last: "bt_ok h lo hi t \<Longrightarrow> \<exists>xs. leaves t = xs @ [last_leaf t]"
proof (induction h lo hi t rule: bt_ok.induct)
  case (2 h lo hi ks cs)
  have k: "kids (bt_ok h) lo ks hi cs" using "2.prems" by simp
  then have len: "length cs = Suc (length ks)" by (rule kids_length)
  then obtain cs1 c where cs: "cs = cs1 @ [c]" by (cases cs rule: rev_cases) auto
  then have "length cs1 = length ks" using len by simp
  then have "bt_ok h (lastb lo ks) hi c"
    using k kids_focus [of cs1 ks "bt_ok h" lo "[]" hi c "[]"] by (simp add: cs)
  from "2.IH" [OF this] obtain xs where "leaves c = xs @ [last_leaf c]" ..
  moreover have "last_leaf (Inode ks cs) = last_leaf c"
    using len cs \<open>length cs1 = length ks\<close> by (simp add: nth_append)
  ultimately show ?case using cs by simp
qed simp_all

text \<open>On sorted entries, cutting at a bound and stopping at the other leaves the entries in range.\<close>

lemma sorted_stop:
  assumes "ascending es"
  shows "sorted_wrt (\<lambda>x y. (mx \<noteq> None \<and> b < fst x) \<longrightarrow> (mx \<noteq> None \<and> b < fst y)) es"
    "sorted_wrt (\<lambda>x y. (mn \<noteq> None \<and> fst x < b) \<longrightarrow> (mn \<noteq> None \<and> fst y < b)) (rev es)"
proof -
  show "sorted_wrt (\<lambda>x y. (mx \<noteq> None \<and> b < fst x) \<longrightarrow> (mx \<noteq> None \<and> b < fst y)) es"
    using assms unfolding ascending_def by (rule sorted_wrt_mono_rel [rotated]) auto
  show "sorted_wrt (\<lambda>x y. (mn \<noteq> None \<and> fst x < b) \<longrightarrow> (mn \<noteq> None \<and> fst y < b)) (rev es)"
    unfolding sorted_wrt_rev using assms unfolding ascending_def
    by (rule sorted_wrt_mono_rel [rotated]) auto
qed

lemma until_fwd:
  assumes "ascending xs" "es = filter (\<lambda>e. mn \<noteq> None \<longrightarrow> slice_bytes mn \<le> fst e) xs"
  shows "until (\<lambda>k. mx \<noteq> None \<and> cmp k (slice_bytes mx) > 0) cb es u
       = feed cb (filter (\<lambda>e. in_range mn mx (fst e)) xs) u"
proof -
  have "ascending es" using assms ascending_filter by blast
  then have "until (\<lambda>k. mx \<noteq> None \<and> cmp k (slice_bytes mx) > 0) cb es u
      = feed cb (filter (\<lambda>e. \<not> (mx \<noteq> None \<and> slice_bytes mx < fst e)) es) u"
    using until_feed [OF sorted_stop(1)] by simp
  also have "filter (\<lambda>e. \<not> (mx \<noteq> None \<and> slice_bytes mx < fst e)) es = filter (\<lambda>e. in_range mn mx (fst e)) xs"
    unfolding assms(2) filter_filter by (rule filter_cong) (auto simp: in_range_def not_less)
  finally show ?thesis .
qed

lemma until_bwd:
  assumes "ascending xs" "es = filter (\<lambda>e. mx \<noteq> None \<longrightarrow> fst e \<le> slice_bytes mx) xs"
  shows "until (\<lambda>k. mn \<noteq> None \<and> cmp k (slice_bytes mn) < 0) cb (rev es) u
       = feed cb (rev (filter (\<lambda>e. in_range mn mx (fst e)) xs)) u"
proof -
  have "ascending es" using assms ascending_filter by blast
  then have "until (\<lambda>k. mn \<noteq> None \<and> cmp k (slice_bytes mn) < 0) cb (rev es) u
      = feed cb (filter (\<lambda>e. \<not> (mn \<noteq> None \<and> fst e < slice_bytes mn)) (rev es)) u"
    using until_feed [OF sorted_stop(2)] by simp
  also have "filter (\<lambda>e. \<not> (mn \<noteq> None \<and> fst e < slice_bytes mn)) (rev es)
      = rev (filter (\<lambda>e. in_range mn mx (fst e)) xs)"
    unfolding assms(2) rev_filter [symmetric] filter_filter
    by (intro arg_cong [where f = rev] filter_cong) (auto simp: in_range_def not_less)
  finally show ?thesis .
qed

text \<open>Where a bounded scan starts.\<close>

lemma around_filter:
  assumes "\<forall>x\<in>set xs. fst x < k" "\<forall>y\<in>set ys. k < fst y" "ascending es"
  shows "drop (leaf_lower es k) es @ ys = filter (\<lambda>e. k \<le> fst e) (xs @ es @ ys)"
    "xs @ take (if leaf_lower es k < length es \<and> cmp (fst (es ! leaf_lower es k)) k = 0
                then leaf_lower es k + 1 else leaf_lower es k) es
       = filter (\<lambda>e. fst e \<le> k) (xs @ es @ ys)"
proof -
  let ?i = "leaf_lower es k"
  have f: "filter (\<lambda>e. k \<le> fst e) xs = []" "filter (\<lambda>e. k \<le> fst e) ys = ys"
    "filter (\<lambda>e. fst e \<le> k) xs = xs" "filter (\<lambda>e. fst e \<le> k) ys = []"
    using assms by (auto simp: filter_empty_conv filter_id_conv)
  show "drop ?i es @ ys = filter (\<lambda>e. k \<le> fst e) (xs @ es @ ys)"
    using f leaf_parts(2) [OF assms(3)] by simp
  have "take (if ?i < length es \<and> cmp (fst (es ! ?i)) k = 0 then ?i + 1 else ?i) es = filter (\<lambda>e. fst e \<le> k) es"
  proof (cases "?i < length es \<and> cmp (fst (es ! ?i)) k = 0")
    case True
    have "filter (\<lambda>e. fst e \<le> k) es
        = filter (\<lambda>e. fst e \<le> k) (filter (\<lambda>e. fst e < k) es @ es ! ?i # filter (\<lambda>e. k < fst e) es)"
      using leaf_found(3) [OF assms(3) True] by simp
    also have "\<dots> = filter (\<lambda>e. fst e < k) es @ [es ! ?i]"
    proof -
      have "filter (\<lambda>x. fst x < k \<and> fst x \<le> k) es = filter (\<lambda>e. fst e < k) es"
        "filter (\<lambda>x. k < fst x \<and> fst x \<le> k) es = []"
        by (auto simp: filter_empty_conv intro!: filter_cong)
      with True show ?thesis by simp
    qed
    finally show ?thesis using True leaf_parts(1) [OF assms(3)] by (simp add: take_Suc_conv_app_nth)
  next
    case False
    then have "filter (\<lambda>e. fst e \<le> k) es = filter (\<lambda>e. fst e < k) es"
      using leaf_absent(1) [OF assms(3) False] by (intro filter_cong) (auto simp: le_less image_iff)
    with False show ?thesis using leaf_parts(1) [OF assms(3)] by (auto simp only: if_False)
  qed
  with f show "xs @ take (if ?i < length es \<and> cmp (fst (es ! ?i)) k = 0 then ?i + 1 else ?i) es
       = filter (\<lambda>e. fst e \<le> k) (xs @ es @ ys)" by simp
qed

lemma scan_forward:
  assumes "btree_wf t" "length (leaves (root t)) \<le> fuel"
  shows "fastkv_btree_scan fuel t mn mx FASTKV_CURSOR_FORWARD cb u
       = Some (scan_rc (feed cb (filter (\<lambda>e. in_range mn mx (fst e)) (bt_entries t)) u))"
proof -
  have w: "distinct (leaf_ids t)" "linked (chain t) None (leaf_ids t)" "leftmost t = hd (leaf_ids t)"
    using assms(1) by (simp_all add: btree_wf_def)
  have suffix: "\<exists>p. linked (chain t) p (map fst ys)" if "leaves (root t) = xs @ ys" for xs ys
  proof -
    have "linked L q (as @ bs) \<Longrightarrow> \<exists>p. linked L p bs" for L q as bs
      by (induction as arbitrary: q) auto
    then show ?thesis using w(2) that by (auto simp: leaf_ids_def)
  qed
  note asc = btree_ascending [OF assms(1)]
  show ?thesis
  proof (cases mn)
    case None
    obtain l es ys where lv: "leaves (root t) = (l, es) # ys"
    proof (cases "leaves (root t)")
      case Nil
      obtain xs where "leaves (root t) = xs @ [last_leaf (root t)]"
        using last_leaf_last [OF btree_wf_ok [OF assms(1)]] by blast
      with Nil show ?thesis by simp
    qed (use that in \<open>metis surj_pair\<close>)
    obtain p where p: "linked (chain t) p (map fst ((l, es) # ys))"
      using suffix [of "[]" "(l, es) # ys"] lv by auto
    have "scan_fwd fuel t mx cb (Some l) 0 u = Some (until (\<lambda>k. mx \<noteq> None \<and> cmp k (slice_bytes mx) > 0) cb
        (drop 0 es @ concat (map snd ys)) u)"
      by (rule scan_fwd_until [OF _ p w(1), of "[]"]) (use lv assms(2) in simp_all)
    moreover have "drop 0 es @ concat (map snd ys) = bt_entries t" using lv by (simp add: bt_entries_def entries_def)
    moreover have "leftmost t = l" using w(3) lv by (simp add: leaf_ids_def)
    ultimately show ?thesis
      using None until_fwd [OF asc, of "bt_entries t" None mx cb u] by (simp add: fastkv_btree_scan_def)
  next
    case (Some m)
    obtain xs ys a es where l: "find_leaf (root t) m = (a, es)" "leaves (root t) = xs @ (a, es) # ys"
      "placed xs m ys" "ascending es" "bt_entries t = concat (map snd xs) @ es @ concat (map snd ys)"
      "load_leaf (root t) a = es"
      by (rule wf_find_leaf [OF assms(1)])
    obtain p where p: "linked (chain t) p (map fst ((a, es) # ys))" using suffix [OF l(2)] by blast
    have "scan_fwd fuel t mx cb (Some a) (leaf_lower es m) u
        = Some (until (\<lambda>k. mx \<noteq> None \<and> cmp k (slice_bytes mx) > 0) cb
          (drop (leaf_lower es m) es @ concat (map snd ys)) u)"
      by (rule scan_fwd_until [OF l(2) p w(1)]) (use l(2) assms(2) in simp)
    moreover have "drop (leaf_lower es m) es @ concat (map snd ys) = filter (\<lambda>e. m \<le> fst e) (bt_entries t)"
      unfolding l(5) using l(3,4) by (intro around_filter(1)) (simp_all add: placed_def)
    ultimately show ?thesis
      using Some l(1) until_fwd [OF asc, of "filter (\<lambda>e. m \<le> fst e) (bt_entries t)" "Some m" mx cb u]
      by (simp add: fastkv_btree_scan_def)
  qed
qed

lemma scan_backward:
  assumes "btree_wf t" "length (leaves (root t)) \<le> fuel"
  shows "fastkv_btree_scan fuel t mn mx FASTKV_CURSOR_BACKWARD cb u
       = Some (scan_rc (feed cb (rev (filter (\<lambda>e. in_range mn mx (fst e)) (bt_entries t))) u))"
proof -
  have w: "distinct (leaf_ids t)" "linked (chain t) None (leaf_ids t)"
    using assms(1) by (simp_all add: btree_wf_def)
  note asc = btree_ascending [OF assms(1)]
  show ?thesis
  proof (cases mx)
    case None
    obtain l es where ll: "last_leaf (root t) = (l, es)" by fastforce
    then obtain xs where lv: "leaves (root t) = xs @ [(l, es)]"
      using last_leaf_last [OF btree_wf_ok [OF assms(1)]] by auto
    have "scan_bwd fuel t mn cb (Some l) (length es) u = Some (until (\<lambda>k. mn \<noteq> None \<and> cmp k (slice_bytes mn) < 0) cb
        (rev (concat (map snd xs) @ take (length es) es)) u)"
      using lv w assms(2) by (intro scan_bwd_until) auto
    moreover have "concat (map snd xs) @ take (length es) es = bt_entries t"
      using lv by (simp add: bt_entries_def entries_def)
    ultimately show ?thesis
      using None ll until_bwd [OF asc, of "bt_entries t" None mn cb u]
      by (simp add: fastkv_btree_scan_def del: rev_append)
  next
    case (Some m)
    obtain xs ys a es where l: "find_leaf (root t) m = (a, es)" "leaves (root t) = xs @ (a, es) # ys"
      "placed xs m ys" "ascending es" "bt_entries t = concat (map snd xs) @ es @ concat (map snd ys)"
      "load_leaf (root t) a = es"
      by (rule wf_find_leaf [OF assms(1)])
    let ?c = "if leaf_lower es m < length es \<and> cmp (fst (es ! leaf_lower es m)) m = 0
              then leaf_lower es m + 1 else leaf_lower es m"
    have "scan_bwd fuel t mn cb (Some a) ?c u = Some (until (\<lambda>k. mn \<noteq> None \<and> cmp k (slice_bytes mn) < 0) cb
          (rev (concat (map snd xs) @ take ?c es)) u)"
      using l(2) w assms(2) by (intro scan_bwd_until) auto
    moreover have "concat (map snd xs) @ take ?c es = filter (\<lambda>e. fst e \<le> m) (bt_entries t)"
      unfolding l(5) using l(3,4) by (intro around_filter(2)) (simp_all add: placed_def)
    ultimately show ?thesis
      using Some l(1) until_bwd [OF asc, of "filter (\<lambda>e. fst e \<le> m) (bt_entries t)" "Some m" mn cb u]
      by (simp add: fastkv_btree_scan_def Let_def del: rev_append)
  qed
qed

section \<open>The ordered map interface\<close>

text \<open>
  What a client of the index relies on: the tree is a sorted association list.  The laws of lookups
  after updates follow once for every provider.
\<close>

locale ordered_map =
  fixes emp :: 't
    and ins :: "'t \<Rightarrow> slice \<Rightarrow> slice \<Rightarrow> 't"
    and del :: "'t \<Rightarrow> slice \<Rightarrow> fastkv_err \<times> 't"
    and look :: "'t \<Rightarrow> slice \<Rightarrow> fastkv_err + slice"
    and inv :: "'t \<Rightarrow> bool"
    and list_of :: "'t \<Rightarrow> entry list"
  assumes inv_emp: "inv emp" and list_emp: "list_of emp = []"
    and inv_ins: "inv t \<Longrightarrow> inv (ins t k v)"
    and list_ins: "inv t \<Longrightarrow> list_of (ins t k v) = al_put (slice_bytes k) (slice_dup v) (list_of t)"
    and inv_del: "inv t \<Longrightarrow> inv (snd (del t k))"
    and list_del: "inv t \<Longrightarrow> list_of (snd (del t k)) = al_del (slice_bytes k) (list_of t)"
    and rc_del: "inv t \<Longrightarrow> fst (del t k)
      = (if slice_bytes k \<in> fst ` set (list_of t) then FASTKV_OK else FASTKV_ERR_NOTFOUND)"
    and look_eq: "inv t \<Longrightarrow> look t k
      = (case map_of (list_of t) (slice_bytes k) of None \<Rightarrow> Inl FASTKV_ERR_NOTFOUND | Some v \<Rightarrow> Inr v)"
begin

lemma look_ins:
  "inv t \<Longrightarrow> look (ins t k v) k' = (if slice_bytes k' = slice_bytes k then Inr (slice_dup v) else look t k')"
  by (simp add: look_eq inv_ins list_ins map_of_al_put)

lemma look_del:
  "inv t \<Longrightarrow> look (snd (del t k)) k'
     = (if slice_bytes k' = slice_bytes k then Inl FASTKV_ERR_NOTFOUND else look t k')"
  by (simp add: look_eq inv_del list_del map_of_al_del)

lemma del_rc_look: "inv t \<Longrightarrow> fst (del t k) = FASTKV_OK \<longleftrightarrow> (\<exists>v. look t k = Inr v)"
  using map_of_eq_None_iff [of "list_of t" "slice_bytes k"]
  by (cases "map_of (list_of t) (slice_bytes k)") (simp_all add: rc_del look_eq)

definition ins_all :: "(slice \<times> slice) list \<Rightarrow> 't" where
  "ins_all kvs = fold (\<lambda>(k, v) t. ins t k v) kvs emp"

lemma inv_ins_all: "inv (ins_all kvs)"
  unfolding ins_all_def by (induction kvs rule: rev_induct) (auto simp: inv_emp inv_ins)

lemma look_ins_all:
  "look (ins_all kvs) k =
     (case map_of (rev (map (\<lambda>(k, v). (slice_bytes k, slice_dup v)) kvs)) (slice_bytes k) of
        None \<Rightarrow> Inl FASTKV_ERR_NOTFOUND | Some v \<Rightarrow> Inr v)"
proof (induction kvs rule: rev_induct)
  case (snoc x kvs)
  obtain k1 v1 where "x = (k1, v1)" by fastforce
  then have "ins_all (kvs @ [x]) = ins (ins_all kvs) k1 v1" by (simp add: ins_all_def)
  with snoc \<open>x = (k1, v1)\<close> show ?case by (simp add: look_ins [OF inv_ins_all])
qed (simp add: ins_all_def look_eq [OF inv_emp] list_emp)

end

interpretation bt: ordered_map fastkv_btree_create fastkv_btree_insert fastkv_btree_delete fastkv_btree_get
    btree_wf bt_entries
proof unfold_locales
  show "btree_wf fastkv_btree_create" "bt_entries fastkv_btree_create = []" by (rule create_wf)+
next
  fix t :: btree and k v assume wf: "btree_wf t"
  show "btree_wf (fastkv_btree_insert t k v)" using wf by (rule insert_wf)
  show "bt_entries (fastkv_btree_insert t k v) = al_put (slice_bytes k) (slice_dup v) (bt_entries t)"
    using wf by (rule insert_entries)
  note d = delete_entries [OF wf, of k "fst (fastkv_btree_delete t k)" "snd (fastkv_btree_delete t k)"]
  show "btree_wf (snd (fastkv_btree_delete t k))"
    "bt_entries (snd (fastkv_btree_delete t k)) = al_del (slice_bytes k) (bt_entries t)"
    "fst (fastkv_btree_delete t k)
      = (if slice_bytes k \<in> fst ` set (bt_entries t) then FASTKV_OK else FASTKV_ERR_NOTFOUND)"
    using d by auto
  show "fastkv_btree_get t k
      = (case map_of (bt_entries t) (slice_bytes k) of None \<Rightarrow> Inl FASTKV_ERR_NOTFOUND | Some v \<Rightarrow> Inr v)"
    using wf by (rule get_entries)
qed

section \<open>Properties\<close>

definition sample_tree :: btree where
  "sample_tree = fastkv_btree_insert (fastkv_btree_insert fastkv_btree_create (Some [2]) (Some [20])) (Some [1]) (Some [])"

lemma sample_tree_wf: "btree_wf sample_tree"
  by (simp add: sample_tree_def create_wf insert_wf)

lemma sample_tree_entries: "bt_entries sample_tree = [([1], None), ([2], Some [20])]"
  by (simp add: sample_tree_def create_wf insert_wf insert_entries al_put_def)

text \<open>
  Property C31: inserting into a well-formed tree keeps it well-formed (no array is overrun, all leaves at
  one depth, separators and leaf chain in order), whichever nodes split, and its entries become those of
  the sorted map with the key bound to a copy of the value.
\<close>
theorem btree_insert_refines:
  assumes "btree_wf t"
  shows "btree_wf (fastkv_btree_insert t key val)
    \<and> bt_entries (fastkv_btree_insert t key val) = al_put (slice_bytes key) (slice_dup val) (bt_entries t)"
  using insert_wf insert_entries assms by blast

theorem btree_insert_refines_witness:
  "btree_wf sample_tree \<and> btree_wf (fastkv_btree_insert sample_tree (Some [3]) (Some [30]))
    \<and> bt_entries (fastkv_btree_insert sample_tree (Some [3]) (Some [30]))
        = [([1], None), ([2], Some [20]), ([3], Some [30])]"
  using btree_insert_refines [OF sample_tree_wf, of "Some [3]" "Some [30]"] sample_tree_wf
  by (simp add: sample_tree_entries al_put_def)

text \<open>
  Property C32: deleting from a well-formed tree answers \<^verbatim>\<open>FASTKV_ERR_NOTFOUND\<close> and changes nothing when the
  key is absent; otherwise it removes exactly that entry, and the tree stays well-formed.
\<close>
theorem btree_delete_refines:
  assumes "btree_wf t"
  shows "(case fastkv_btree_delete t key of
            (rc, t') \<Rightarrow> btree_wf t' \<and> bt_entries t' = al_del (slice_bytes key) (bt_entries t)
              \<and> (rc = FASTKV_OK \<longleftrightarrow> slice_bytes key \<in> fst ` set (bt_entries t))
              \<and> (rc = FASTKV_OK \<or> rc = FASTKV_ERR_NOTFOUND \<and> t' = t))"
  using delete_entries [OF assms, of key] by (cases "fastkv_btree_delete t key") auto

theorem btree_delete_refines_witness:
  "btree_wf sample_tree \<and> fst (fastkv_btree_delete sample_tree (Some [1])) = FASTKV_OK
    \<and> bt_entries (snd (fastkv_btree_delete sample_tree (Some [1]))) = [([2], Some [20])]
    \<and> fst (fastkv_btree_delete sample_tree (Some [9])) = FASTKV_ERR_NOTFOUND"
  using btree_delete_refines [OF sample_tree_wf, of "Some [1]"]
    btree_delete_refines [OF sample_tree_wf, of "Some [9]"] sample_tree_wf
  by (auto simp: sample_tree_entries al_del_def split: prod.splits)

text \<open>
  after any sequence of insertions into a new tree, a lookup returns (a copy of) the last value
  inserted for the key, and \<^verbatim>\<open>FASTKV_ERR_NOTFOUND\<close> for a key never inserted.
\<close>
lemma btree_get_last_insert:
  "fastkv_btree_get (fold (\<lambda>(k, v) t. fastkv_btree_insert t k v) kvs fastkv_btree_create) key =
     (case map_of (rev (map (\<lambda>(k, v). (slice_bytes k, slice_dup v)) kvs)) (slice_bytes key) of
        None \<Rightarrow> Inl FASTKV_ERR_NOTFOUND | Some v \<Rightarrow> Inr v)"
  using bt.look_ins_all [of kvs key] by (simp add: bt.ins_all_def)

text \<open>
  Property C33: a scan of a well-formed tree terminates within as many steps as the tree has leaves, and
  calls the callback on exactly the entries in \<open>[min, max]\<close>, in ascending order forwards and in descending
  order backwards, until the callback asks to stop; \<^verbatim>\<open>FASTKV_ERR_CURSOR_EOF\<close> from it is reported as success.
\<close>
theorem btree_scan_in_order:
  assumes "btree_wf t" "length (leaves (root t)) \<le> fuel"
  shows "fastkv_btree_scan fuel t mn mx dir cb u =
     Some (scan_rc (feed cb
       ((if dir = FASTKV_CURSOR_FORWARD then id else rev)
         (filter (\<lambda>e. in_range mn mx (fst e)) (bt_entries t))) u))"
  using scan_forward [OF assms] scan_backward [OF assms] by (cases dir) simp_all

theorem btree_scan_in_order_witness:
  "btree_wf sample_tree \<and> length (leaves (root sample_tree)) \<le> length (leaves (root sample_tree))
    \<and> fastkv_btree_scan (length (leaves (root sample_tree))) sample_tree (Some [1]) None FASTKV_CURSOR_BACKWARD
        (\<lambda>k v u. (if u = [] then FASTKV_OK else FASTKV_ERR_CURSOR_EOF, u @ [k])) []
      = Some (FASTKV_OK, [[2], [1]])"
  using btree_scan_in_order [OF sample_tree_wf order_refl, of "Some [1]" None FASTKV_CURSOR_BACKWARD
      "\<lambda>k v u. (if u = [] then FASTKV_OK else FASTKV_ERR_CURSOR_EOF, u @ [k])" "[]"] sample_tree_wf
  by (simp add: sample_tree_entries in_range_def scan_rc_def)

text \<open>
  in a well-formed tree every descent is short: the height \<open>h\<close> satisfies \<open>2\<^sup>h \<le>\<close> the number of leaves,
  because every internal node has at least two children.
\<close>
lemma btree_height_logarithmic:
  assumes "btree_wf t"
  shows "2 ^ height (root t) \<le> length (leaves (root t))"
proof -
  have "bt_ok h lo hi n \<Longrightarrow> 2 ^ h \<le> length (leaves n)" for h lo hi n
  proof (induction h lo hi n rule: bt_ok.induct)
    case (2 h lo hi ks cs)
    then obtain k ks' where ks: "ks = k # ks'" by (cases ks) auto
    with 2 obtain c d cs' where cs: "cs = c # d # cs'"
      by (metis kids_length length_Suc_conv bt_ok.simps(2))
    have "bt_ok h lo (Some k) c" "\<exists>u. bt_ok h (Some k) u d"
      using "2.prems" by (auto simp: ks cs kids_head)
    then have "2 ^ h \<le> length (leaves c)" "2 ^ h \<le> length (leaves d)" using "2.IH" by auto
    then show ?case by (simp add: cs)
  qed simp_all
  then show ?thesis using btree_wf_ok [OF assms] by blast
qed

lemma btree_height_logarithmic_example:
  "btree_wf sample_tree \<and> 2 ^ height (root sample_tree) \<le> length (leaves (root sample_tree))"
  using btree_height_logarithmic [OF sample_tree_wf] sample_tree_wf by blast

end
