(* ===== verification/Secondary.thy ===== *)
theory Secondary
  imports Btree
begin

text \<open>
  \<open>index/secondary.c\<close>: secondary indexes.  An index is a B+-tree whose keys are composite, index key, a NUL
  byte, primary key, and whose values are the primary keys.  The extractor callback is a function from primary
  key and value to its return code and the index key; the NUL-terminated copy it is given has the same bytes.
  Allocations succeed.

  Shown here: with extractors whose index keys contain no NUL byte, the hooks called on every put and delete
  keep the index equal to the image of the table, and a lookup delivers exactly the matching primary keys;
  with a NUL byte in an index key a lookup can deliver keys that do not match.
\<close>

section \<open>Model\<close>

type_synonym index_fn = "bytes \<Rightarrow> slice \<Rightarrow> int \<times> slice"

record index =
  iname :: bytes
  ifn :: index_fn
  ibtree :: btree

definition make_composite :: "bytes \<Rightarrow> bytes \<Rightarrow> bytes" where
  "make_composite ik pk = ik @ [0] @ pk"

definition nt_copy :: "slice \<Rightarrow> slice" where
  "nt_copy s = Some (slice_bytes s)"

definition remove_index_entry :: "btree \<Rightarrow> index_fn \<Rightarrow> bytes \<Rightarrow> slice \<Rightarrow> btree" where
  "remove_index_entry t fn pk val =
     (let safe = nt_copy val
      in case fn pk safe of
           (skip, ik) \<Rightarrow>
             if skip = 0 \<and> ik \<noteq> None
             then snd (fastkv_btree_delete t (Some (make_composite (slice_bytes ik) pk)))
             else t)"

definition add_index_entry :: "btree \<Rightarrow> index_fn \<Rightarrow> bytes \<Rightarrow> slice \<Rightarrow> btree" where
  "add_index_entry t fn pk val =
     (let safe = nt_copy val
      in case fn pk safe of
           (skip, ik) \<Rightarrow>
             if skip = 0 \<and> ik \<noteq> None
             then fastkv_btree_insert t (Some (make_composite (slice_bytes ik) pk)) (Some pk)
             else t)"

definition index_on_put :: "bytes \<Rightarrow> slice \<Rightarrow> bool \<Rightarrow> slice \<Rightarrow> index \<Rightarrow> index" where
  "index_on_put pk old_val had_old new_val idx =
     (let t1 = (if had_old then remove_index_entry (ibtree idx) (ifn idx) pk old_val else ibtree idx)
      in idx\<lparr>ibtree := add_index_entry t1 (ifn idx) pk new_val\<rparr>)"

definition secondary_on_put :: "index list \<Rightarrow> bytes \<Rightarrow> slice \<Rightarrow> bool \<Rightarrow> slice \<Rightarrow> index list" where
  "secondary_on_put indexes pk old_val had_old new_val = map (index_on_put pk old_val had_old new_val) indexes"

definition index_on_delete :: "bytes \<Rightarrow> slice \<Rightarrow> index \<Rightarrow> index" where
  "index_on_delete pk old_val idx = idx\<lparr>ibtree := remove_index_entry (ibtree idx) (ifn idx) pk old_val\<rparr>"

definition secondary_on_delete :: "index list \<Rightarrow> bytes \<Rightarrow> slice \<Rightarrow> index list" where
  "secondary_on_delete indexes pk old_val = map (index_on_delete pk old_val) indexes"

text \<open>The user's callback gets the primary key, which is the value in the tree.\<close>

type_synonym 'u index_cb = "slice \<Rightarrow> 'u \<Rightarrow> fastkv_err \<times> 'u"

definition fwd_cb :: "'u index_cb \<Rightarrow> 'u scan_cb" where
  "fwd_cb cb = (\<lambda>key val u. cb val u)"

definition fastkv_index_lookup :: "nat \<Rightarrow> index \<Rightarrow> bytes \<Rightarrow> 'u index_cb \<Rightarrow> 'u \<Rightarrow> (fastkv_err \<times> 'u) option" where
  "fastkv_index_lookup fuel idx ik cb u =
     (let lobuf = ik @ [0]; hibuf = ik @ [1]
      in fastkv_btree_scan fuel (ibtree idx) (Some lobuf) (Some hibuf) FASTKV_CURSOR_FORWARD (fwd_cb cb) u)"

definition fastkv_index_range ::
  "nat \<Rightarrow> index \<Rightarrow> bytes \<Rightarrow> bytes \<Rightarrow> 'u index_cb \<Rightarrow> 'u \<Rightarrow> (fastkv_err \<times> 'u) option" where
  "fastkv_index_range fuel idx min_ik max_ik cb u =
     (let lobuf = min_ik @ [0]; hibuf = max_ik @ [1]
      in fastkv_btree_scan fuel (ibtree idx) (Some lobuf) (Some hibuf) FASTKV_CURSOR_FORWARD (fwd_cb cb) u)"

section \<open>The image of the table\<close>

definition nul_free :: "index_fn \<Rightarrow> bool" where
  "nul_free fn \<longleftrightarrow> (\<forall>pk v ik. fn pk v = (0, Some ik) \<longrightarrow> 0 \<notin> set ik)"

definition entry_of :: "index_fn \<Rightarrow> bytes \<Rightarrow> bytes \<Rightarrow> entry option" where
  "entry_of fn pk v =
     (case fn pk (Some v) of (skip, ik) \<Rightarrow>
        if skip = 0 then map_option (\<lambda>ik. (make_composite ik pk, slice_dup (Some pk))) ik else None)"

definition index_image :: "index_fn \<Rightarrow> (bytes \<Rightarrow> bytes option) \<Rightarrow> entry set" where
  "index_image fn m = {e. \<exists>pk v. m pk = Some v \<and> entry_of fn pk v = Some e}"

definition index_ok :: "index \<Rightarrow> (bytes \<Rightarrow> bytes option) \<Rightarrow> bool" where
  "index_ok idx m \<longleftrightarrow> btree_wf (ibtree idx) \<and> nul_free (ifn idx)
     \<and> set (bt_entries (ibtree idx)) = index_image (ifn idx) m"

lemma composite_inject:
  "0 \<notin> set ik \<Longrightarrow> 0 \<notin> set ik' \<Longrightarrow> make_composite ik pk = make_composite ik' pk' \<longleftrightarrow> ik = ik' \<and> pk = pk'"
proof (induction ik arbitrary: ik')
  case Nil
  then show ?case by (cases ik') (auto simp: make_composite_def)
next
  case (Cons c ik)
  then show ?case by (cases ik') (auto simp: make_composite_def)
qed

text \<open>For NUL-free index keys the range of a lookup is exactly the block of its index key.\<close>

lemma composite_range:
  "0 \<notin> set ik \<Longrightarrow> 0 \<notin> set ik' \<Longrightarrow>
   ik @ [0] \<le> make_composite ik' pk \<and> make_composite ik' pk \<le> ik @ [1] \<longleftrightarrow> ik' = ik"
proof (induction ik arbitrary: ik')
  case Nil
  show ?case
  proof (cases ik')
    case (Cons c cs)
    with Nil have "c \<noteq> 0" by auto
    then have "\<not> c < 1" by (simp add: word_less_1)
    then show ?thesis using Cons by (auto simp: make_composite_def)
  qed (simp add: make_composite_def)
next
  case (Cons a ik)
  show ?case
  proof (cases ik')
    case Nil
    with Cons.prems have "a \<noteq> 0" by auto
    then show ?thesis using Nil by (simp add: make_composite_def)
  next
    case c: (Cons c cs)
    show ?thesis
    proof (cases c a rule: linorder_cases)
      case equal
      then show ?thesis using Cons.IH [of cs] Cons.prems c by (simp add: make_composite_def)
    qed (use c in \<open>auto simp: make_composite_def\<close>)
  qed
qed

text \<open>The part of one primary key can be split off the image, and its keys are its own.\<close>

lemma image_split:
  "m pk = Some v \<Longrightarrow> index_image fn m = index_image fn (m(pk := None)) \<union> set_option (entry_of fn pk v)"
proof (intro equalityI subsetI)
  fix e assume v: "m pk = Some v" and "e \<in> index_image fn m"
  then obtain pk' v' where e: "m pk' = Some v'" "entry_of fn pk' v' = Some e" by (auto simp: index_image_def)
  show "e \<in> index_image fn (m(pk := None)) \<union> set_option (entry_of fn pk v)"
  proof (cases "pk' = pk")
    case False
    then have "(m(pk := None)) pk' = Some v'" using e by simp
    with e show ?thesis unfolding index_image_def by blast
  qed (use e v in auto)
next
  fix e assume "m pk = Some v" "e \<in> index_image fn (m(pk := None)) \<union> set_option (entry_of fn pk v)"
  then show "e \<in> index_image fn m" unfolding index_image_def by (auto split: if_splits)
qed

lemma image_fresh:
  assumes "nul_free fn" "e \<in> index_image fn (m(pk := None))" "entry_of fn pk v = Some e'"
  shows "fst e \<noteq> fst e'"
proof -
  obtain pk' v' where "pk' \<noteq> pk" "entry_of fn pk' v' = Some e"
    using assms(2) by (auto simp: index_image_def split: if_splits)
  with assms(1,3) show ?thesis
    by (auto simp: entry_of_def nul_free_def composite_inject split: prod.splits if_splits)
qed

lemma remove_entry_image:
  assumes "btree_wf t" "nul_free fn" "set (bt_entries t) = index_image fn m" "m pk = Some old"
  shows "btree_wf (remove_index_entry t fn pk (Some old))
    \<and> set (bt_entries (remove_index_entry t fn pk (Some old))) = index_image fn (m(pk := None))"
proof (cases "entry_of fn pk old")
  case (Some e)
  then have r: "remove_index_entry t fn pk (Some old) = snd (fastkv_btree_delete t (Some (fst e)))"
    by (auto simp: remove_index_entry_def nt_copy_def entry_of_def split: prod.splits if_splits)
  have "set (bt_entries (remove_index_entry t fn pk (Some old))) = {x \<in> index_image fn m. fst x \<noteq> fst e}"
    using bt.list_del [OF assms(1)] assms(3) by (simp add: r set_al_del)
  also have "\<dots> = index_image fn (m(pk := None))"
    using image_split [of m pk old fn, OF assms(4)] image_fresh [OF assms(2) _ Some] Some by auto
  finally show ?thesis using bt.inv_del [OF assms(1)] r by simp
next
  case None
  then have r: "remove_index_entry t fn pk (Some old) = t"
    by (auto simp: remove_index_entry_def nt_copy_def entry_of_def split: prod.splits if_splits)
  with None assms image_split [of m pk old fn, OF assms(4)] show ?thesis by simp
qed

lemma add_entry_image:
  assumes "btree_wf t" "nul_free fn" "set (bt_entries t) = index_image fn (m(pk := None))"
  shows "btree_wf (add_index_entry t fn pk (Some new))
    \<and> set (bt_entries (add_index_entry t fn pk (Some new))) = index_image fn (m(pk \<mapsto> new))"
proof (cases "entry_of fn pk new")
  case (Some e)
  then have r: "add_index_entry t fn pk (Some new) = fastkv_btree_insert t (Some (fst e)) (Some pk)"
    and e: "slice_dup (Some pk) = snd e"
    by (auto simp: add_index_entry_def nt_copy_def entry_of_def split: prod.splits if_splits)
  have "set (bt_entries (add_index_entry t fn pk (Some new)))
      = insert e {x \<in> index_image fn (m(pk := None)). fst x \<noteq> fst e}"
    using bt.list_ins [OF assms(1)] assms(3) e by (simp add: r set_al_put)
  also have "\<dots> = index_image fn (m(pk \<mapsto> new))"
    using image_split [of "m(pk \<mapsto> new)" pk new fn] image_fresh [OF assms(2) _ Some] Some by auto
  finally show ?thesis using bt.inv_ins [OF assms(1)] r by simp
next
  case None
  then have r: "add_index_entry t fn pk (Some new) = t"
    by (auto simp: add_index_entry_def nt_copy_def entry_of_def split: prod.splits if_splits)
  with None assms image_split [of "m(pk \<mapsto> new)" pk new fn] show ?thesis by simp
qed

text \<open>The two hooks on one index.\<close>

lemma index_on_put_ok:
  assumes "index_ok idx m"
  shows "index_ok (index_on_put pk (m pk) (m pk \<noteq> None) (Some new) idx) (m(pk \<mapsto> new))"
proof -
  let ?t1 = "if m pk \<noteq> None then remove_index_entry (ibtree idx) (ifn idx) pk (m pk) else ibtree idx"
  have i: "btree_wf (ibtree idx)" "nul_free (ifn idx)" "set (bt_entries (ibtree idx)) = index_image (ifn idx) m"
    using assms by (simp_all add: index_ok_def)
  have "btree_wf ?t1 \<and> set (bt_entries ?t1) = index_image (ifn idx) (m(pk := None))"
  proof (cases "m pk")
    case None
    then have "m(pk := None) = m" by (simp add: fun_upd_idem)
    with None i show ?thesis by simp
  qed (use remove_entry_image [OF i] in simp)
  then show ?thesis
    using add_entry_image [of ?t1 "ifn idx" m pk new] i(2) by (simp add: index_ok_def index_on_put_def)
qed

lemma index_on_delete_ok:
  assumes "index_ok idx m" "m pk = Some old"
  shows "index_ok (index_on_delete pk (Some old) idx) (m(pk := None))"
  using assms remove_entry_image [of "ibtree idx" "ifn idx" m pk old] by (simp add: index_ok_def index_on_delete_def)

section \<open>Properties\<close>

text \<open>
  Property C34: the hooks keep an index equal to the image of the table.  If the index holds exactly one entry
  for every primary key whose value the extractor accepts, it does so after a put (with the old value passed
  when there is one) and after a delete, for every extractor with NUL-free index keys.
\<close>
theorem secondary_index_follows_table:
  assumes "index_ok idx m"
  shows "index_ok (index_on_put pk (m pk) (m pk \<noteq> None) (Some new) idx) (m(pk \<mapsto> new))
    \<and> (m pk \<noteq> None \<longrightarrow> index_ok (index_on_delete pk (m pk) idx) (m(pk := None)))"
  using index_on_put_ok [OF assms] index_on_delete_ok [OF assms] by auto

definition sample_index :: index where
  "sample_index = \<lparr>iname = [0x78], ifn = (\<lambda>pk v. (if slice_bytes v = [] then 1 else 0, Some [65])),
     ibtree = fastkv_btree_create\<rparr>"

lemma sample_index_ok: "index_ok sample_index Map.empty"
  by (simp add: index_ok_def sample_index_def create_wf nul_free_def index_image_def)

theorem secondary_index_follows_table_witness:
  "index_ok sample_index Map.empty
   \<and> index_ok (index_on_put [7] None False (Some [1]) sample_index) [[7] \<mapsto> [1]]"
  using secondary_index_follows_table [OF sample_index_ok, of "[7]" "[1]"] sample_index_ok by simp



text \<open>
  with a NUL byte in an index key the block of a lookup is no longer exact: the entry of primary
  key \<open>[7]\<close> under index key \<open>[65, 0, 66]\<close> lies in the range scanned for index key \<open>[65]\<close>.
\<close>
lemma secondary_nul_key_false_match:
  "[65, 0, 66] \<noteq> ([65] :: bytes)
   \<and> in_range (Some ([65] @ [0])) (Some ([65] @ [1])) (make_composite [65, 0, 66] [7])"
  by (simp add: in_range_def make_composite_def)

end
