(* ===== verification/Json_Index.thy ===== *)
theory Json_Index
  imports Secondary
begin

text \<open>
  \<open>index/json_index.c\<close>: the extractor that makes a secondary index on a field of flat JSON objects.  The
  pointer \<^verbatim>\<open>p\<close> of the scanner is the rest of the text from \<^verbatim>\<open>p\<close> to \<^verbatim>\<open>end\<close>; behind \<^verbatim>\<open>end\<close> lies the NUL
  byte of the copy that \<^verbatim>\<open>nt_copy\<close> makes, which an escape at the very end can step over.

  Shown here: on objects whose members are plain strings the extractor finds the first member with the field's
  name, provided no value equals that name; and two inputs on which it goes wrong.
\<close>

section \<open>Model\<close>

abbreviation quote :: byte where "quote \<equiv> 0x22"
abbreviation backslash :: byte where "backslash \<equiv> 0x5C"

text \<open>
  \<^verbatim>\<open>while (p < end && *p != '"') { if (*p == '\\') p++; p++; }\<close>: how far \<^verbatim>\<open>p\<close> moves.  A backslash as the last
  byte moves it one past \<^verbatim>\<open>end\<close>.
\<close>

fun str_len :: "bytes \<Rightarrow> nat" where
  "str_len [] = 0"
| "str_len (c # cs) =
     (if c = quote then 0
      else if c = backslash then (case cs of [] \<Rightarrow> 2 | _ # ds \<Rightarrow> 2 + str_len ds)
      else 1 + str_len cs)"

definition is_digit :: "byte \<Rightarrow> bool" where
  "is_digit c = (0x30 \<le> c \<and> c \<le> 0x39)"

definition number_char :: "byte \<Rightarrow> bool" where
  "number_char c = (is_digit c \<or> c = 0x2E \<or> c = 0x2D \<or> c = 0x65 \<or> c = 0x45 \<or> c = 0x2B)"

definition sep_char :: "byte \<Rightarrow> bool" where
  "sep_char c = (c = 0x3A \<or> c = 0x20 \<or> c = 0x09)"

text \<open>The value at \<^verbatim>\<open>p\<close>: a string, a number, \<^verbatim>\<open>true\<close> or \<^verbatim>\<open>false\<close>.\<close>

definition json_value :: "bytes \<Rightarrow> bytes option" where
  "json_value p =
     (case p of
        [] \<Rightarrow> None
      | c # cs \<Rightarrow>
          if c = quote then Some (take (str_len cs) (cs @ [0]))
          else if c = 0x2D \<or> is_digit c then Some (takeWhile number_char p)
          else if c = 0x74 \<and> length p \<ge> 4 \<and> take 4 p = [0x74, 0x72, 0x75, 0x65] then Some (take 4 p)
          else if c = 0x66 \<and> length p \<ge> 5 \<and> take 5 p = [0x66, 0x61, 0x6C, 0x73, 0x65] then Some (take 5 p)
          else None)"

definition field_here :: "bytes \<Rightarrow> bytes \<Rightarrow> bool" where
  "field_here field p = (length p \<ge> length field + 1 \<and> take (length field) p = field \<and> p ! length field = quote)"

function json_extract :: "bytes \<Rightarrow> bytes \<Rightarrow> bytes option" where
  "json_extract field json =
     (case dropWhile (\<lambda>c. c \<noteq> quote) json of
        [] \<Rightarrow> None
      | _ # p \<Rightarrow>
          if field_here field p
          then json_value (dropWhile sep_char (drop (length field + 1) p))
          else json_extract field (tl (drop (str_len p) p)))"
  by pat_completeness auto
termination
proof (relation "measure (length \<circ> snd)", simp, goal_cases)
  case (1 field json q p)
  have "length (tl (drop (str_len p) p)) \<le> length p" by simp
  also have "\<dots> < length (dropWhile (\<lambda>c. c \<noteq> quote) json)" using 1 by simp
  also have "\<dots> \<le> length json" by (rule length_dropWhile_le)
  finally show ?case by simp
qed

declare json_extract.simps [simp del]

text \<open>The field name is kept in 128 bytes, NUL included.\<close>

definition json_index_fn :: "bytes \<Rightarrow> index_fn" where
  "json_index_fn field = (\<lambda>key val.
     if val = None \<or> slice_len val = 0 then (1, None)
     else case json_extract field (slice_bytes val) of
            None \<Rightarrow> (1, None)
          | Some v \<Rightarrow> (0, Some v))"

definition json_field :: "bytes \<Rightarrow> bytes" where
  "json_field name = take 127 (takeWhile (\<lambda>c. c \<noteq> 0) name)"

section \<open>Plain strings\<close>

definition plain :: "bytes \<Rightarrow> bool" where
  "plain s \<longleftrightarrow> quote \<notin> set s \<and> backslash \<notin> set s"

definition json_str :: "bytes \<Rightarrow> bytes" where
  "json_str s = quote # s @ [quote]"

fun members :: "(bytes \<times> bytes) list \<Rightarrow> bytes" where
  "members [] = []"
| "members [(n, v)] = json_str n @ 0x3A # json_str v"
| "members ((n, v) # ms) = json_str n @ 0x3A # json_str v @ 0x2C # members ms"

definition json_object :: "(bytes \<times> bytes) list \<Rightarrow> bytes" where
  "json_object ms = 0x7B # members ms @ [0x7D]"

lemma str_len_plain: "plain s \<Longrightarrow> str_len (s @ quote # rest) = length s"
  by (induction s) (auto simp: plain_def)

lemma dropWhile_quote: "dropWhile (\<lambda>c. c \<noteq> quote) (json_str s @ rest) = quote # s @ quote # rest"
  by (simp add: json_str_def)

lemma field_here_plain: "plain s \<Longrightarrow> plain field \<Longrightarrow> field_here field (s @ quote # rest) \<longleftrightarrow> s = field"
proof
  assume p: "plain s" "plain field" and h: "field_here field (s @ quote # rest)"
  have t: "take (length field) (s @ quote # rest) = field" and q: "(s @ quote # rest) ! length field = quote"
    using h by (simp_all add: field_here_def)
  show "s = field"
  proof (cases "length field" "length s" rule: linorder_cases)
    case less
    then have "s ! length field = quote" using q by (simp add: nth_append)
    with less p(1) show ?thesis by (metis nth_mem plain_def)
  next
    case equal
    with t show ?thesis by simp
  next
    case greater
    then have "quote \<in> set (take (length field) (s @ quote # rest))"
      by (cases "length field - length s") auto
    with t p(2) show ?thesis by (simp add: plain_def)
  qed
qed (simp add: field_here_def nth_append)

text \<open>The scanner passes a string that is not the field, and reads the member that is.\<close>

lemma extract_skip:
  assumes "plain s" "plain field" "s \<noteq> field"
  shows "json_extract field (json_str s @ rest) = json_extract field rest"
  by (subst json_extract.simps)
    (simp add: dropWhile_quote field_here_plain [OF assms(1,2)] assms str_len_plain [OF assms(1)])

lemma extract_char: "c \<noteq> quote \<Longrightarrow> json_extract field (c # rest) = json_extract field rest"
  by (subst (1 2) json_extract.simps) simp

lemma extract_hit:
  assumes "plain field" "plain v"
  shows "json_extract field (json_str field @ 0x3A # json_str v @ rest) = Some v"
proof -
  have "sep_char 0x3A" "\<not> sep_char quote" by (simp_all add: sep_char_def)
  then have "dropWhile sep_char (0x3A # json_str v @ rest) = quote # v @ quote # rest"
    by (simp add: json_str_def)
  moreover have "json_value (quote # v @ quote # rest) = Some v"
    by (simp add: json_value_def str_len_plain [OF assms(2)])
  ultimately show ?thesis
    by (subst json_extract.simps) (simp add: dropWhile_quote field_here_plain [OF assms(1,1)])
qed

lemma extract_members:
  "\<forall>(n, v)\<in>set ms. plain n \<and> plain v \<and> v \<noteq> field \<Longrightarrow> plain field \<Longrightarrow>
   json_extract field (members ms @ [0x7D]) = map_of ms field"
proof (induction ms rule: members.induct)
  case 1
  show ?case by (subst json_extract.simps) simp
next
  case (2 n v)
  show ?case
  proof (cases "n = field")
    case True
    with 2 show ?thesis by (simp add: extract_hit)
  next
    case False
    have "json_extract field [0x7D] = None" by (subst json_extract.simps) simp
    with 2 False show ?thesis by (simp add: extract_skip extract_char)
  qed
next
  case (3 n v m ms)
  show ?case
  proof (cases "n = field")
    case True
    with 3 show ?thesis by (simp add: extract_hit)
  next
    case False
    with 3 show ?thesis by (simp add: extract_skip extract_char)
  qed
qed

section \<open>Properties\<close>

text \<open>
  Property C40: on a flat object of string members without escapes, the extractor returns the value of the first
  member named like the field, and nothing if there is none, provided no member has the field's name as value.
\<close>
theorem json_extract_object:
  assumes "\<forall>(n, v)\<in>set ms. plain n \<and> plain v \<and> v \<noteq> field" "plain field"
  shows "json_extract field (json_object ms) = map_of ms field"
  using extract_members [OF assms] by (simp add: json_object_def extract_char)

theorem json_extract_object_witness:
  "json_extract [0x62] (json_object [([0x61], [0x31]), ([0x62], [0x32])]) = Some [0x32]"
  using json_extract_object [of "[([0x61], [0x31]), ([0x62], [0x32])]" "[0x62]"] by (simp add: plain_def)

text \<open>
  a value that equals the field's name hides the field: in \<^verbatim>\<open>{"a":"b","b":"2"}\<close> the field \<^verbatim>\<open>b\<close> is not
  found, because the string \<^verbatim>\<open>"b"\<close> of the first member is taken for a member name.
\<close>
lemma json_extract_value_hides_field:
  "json_extract [0x62] (json_object [([0x61], [0x62]), ([0x62], [0x32])]) = None"
proof -
  have "json_extract [0x62] (json_object [([0x61], [0x62]), ([0x62], [0x32])])
      = json_extract [0x62] (json_str [0x61] @ 0x3A # json_str [0x62] @ 0x2C # json_str [0x62] @ 0x3A # json_str [0x32] @ [0x7D])"
    by (simp add: json_object_def extract_char)
  also have "\<dots> = json_extract [0x62] (json_str [0x62] @ 0x2C # json_str [0x62] @ 0x3A # json_str [0x32] @ [0x7D])"
    by (subst extract_skip) (simp_all add: plain_def extract_char)
  also have "\<dots> = None"
    by (subst json_extract.simps)
      (simp add: dropWhile_quote field_here_def sep_char_def json_value_def is_digit_def)
  finally show ?thesis .
qed

text \<open>
  a string value cut off right after a backslash is returned with the terminating NUL byte of the
  copy appended, so that index keys of JSON indexes are not always NUL-free.
\<close>
lemma json_extract_reads_terminator:
  "json_extract [0x61] ([0x7B] @ json_str [0x61] @ [0x3A, quote, 0x78, backslash]) = Some [0x78, backslash, 0]"
  by (subst json_extract.simps)
    (simp add: json_str_def field_here_def sep_char_def json_value_def)

end
