(* ===== verification/Ttl.thy ===== *)
theory Ttl
  imports Bytes Btree
begin

text \<open>
  \<open>persist/ttl.c\<close>: expiry times.  Two B+-trees are kept in step: \<^verbatim>\<open>ttl_key\<close> maps a primary key to its expiry
  time in milliseconds (8 bytes big-endian), \<^verbatim>\<open>ttl_exp\<close> has the key \<^verbatim>\<open>expiry + primary key\<close>, so that an
  ascending scan meets the entries in the order of expiry.  The wall clock is an argument; allocations
  succeed.  The loop that deletes the collected keys is in the theory \<open>Db\<close>, because it calls \<^verbatim>\<open>fastkv_delete\<close>.

  Shown here: the two trees always describe the same map from keys to expiry times, and the scan collects
  exactly the first 256 expired keys.
\<close>

section \<open>Model\<close>

record ttl =
  ttl_exp :: btree
  ttl_key :: btree

definition make_exp_key :: "u64 \<Rightarrow> bytes \<Rightarrow> bytes" where
  "make_exp_key expiry_ms pk = u64_to_be expiry_ms @ pk"

definition fastkv_ttl_init :: ttl where
  "fastkv_ttl_init = \<lparr>ttl_exp = fastkv_btree_create, ttl_key = fastkv_btree_create\<rparr>"

text \<open>The expiry time stored for a key, if there is one of the right length.\<close>

definition stored_expiry :: "ttl \<Rightarrow> bytes \<Rightarrow> u64 option" where
  "stored_expiry t key =
     (case fastkv_btree_get (ttl_key t) (Some key) of
        Inr v \<Rightarrow> if slice_len v = 8 then Some (be_to_u64 (slice_bytes v)) else None
      | Inl _ \<Rightarrow> None)"

definition fastkv_ttl_set :: "u64 \<Rightarrow> ttl \<Rightarrow> bytes \<Rightarrow> u64 \<Rightarrow> ttl" where
  "fastkv_ttl_set now_ms t key ttl_ms =
     (let expiry = now_ms + ttl_ms;
          t1 = (case stored_expiry t key of
                  None \<Rightarrow> t
                | Some old_expiry \<Rightarrow>
                    t\<lparr>ttl_exp := snd (fastkv_btree_delete (ttl_exp t) (Some (make_exp_key old_expiry key)))\<rparr>);
          t2 = t1\<lparr>ttl_key := fastkv_btree_insert (ttl_key t1) (Some key) (Some (u64_to_be expiry))\<rparr>
      in t2\<lparr>ttl_exp := fastkv_btree_insert (ttl_exp t2) (Some (make_exp_key expiry key)) FASTKV_SLICE_NULL\<rparr>)"

definition fastkv_ttl_remove :: "ttl \<Rightarrow> bytes \<Rightarrow> ttl" where
  "fastkv_ttl_remove t key =
     (case stored_expiry t key of
        None \<Rightarrow> t
      | Some old_expiry \<Rightarrow>
          \<lparr>ttl_exp = snd (fastkv_btree_delete (ttl_exp t) (Some (make_exp_key old_expiry key))),
           ttl_key = snd (fastkv_btree_delete (ttl_key t) (Some key))\<rparr>)"

text \<open>The scan callback; its state is the list of keys collected so far (\<^verbatim>\<open>ctx->n\<close> is its length).\<close>

definition collect_expired :: "u64 \<Rightarrow> bytes list scan_cb" where
  "collect_expired now = (\<lambda>exp_key val keys.
     if length exp_key < 8 then (FASTKV_OK, keys)
     else if be_to_u64 exp_key > now then (FASTKV_ERR_CURSOR_EOF, keys)
     else if length keys < 256
     then (let klen = length exp_key - 8
           in if klen \<le> FASTKV_MAX_KEY_LEN then (FASTKV_OK, keys @ [drop 8 exp_key]) else (FASTKV_OK, keys))
     else (FASTKV_OK, keys))"

text \<open>The scan of \<^verbatim>\<open>fastkv_ttl_expire\<close>; its code is ignored.\<close>

definition ttl_scan :: "nat \<Rightarrow> u64 \<Rightarrow> ttl \<Rightarrow> bytes list option" where
  "ttl_scan fuel now t =
     map_option snd (fastkv_btree_scan fuel (ttl_exp t) None None FASTKV_CURSOR_FORWARD (collect_expired now) [])"

section \<open>The map behind the two trees\<close>

definition ttl_rel :: "ttl \<Rightarrow> (bytes \<Rightarrow> u64 option) \<Rightarrow> bool" where
  "ttl_rel t m \<longleftrightarrow> btree_wf (ttl_exp t) \<and> btree_wf (ttl_key t)
     \<and> set (bt_entries (ttl_key t)) = {(k, Some (u64_to_be e)) | k e. m k = Some e}
     \<and> set (bt_entries (ttl_exp t)) = {(make_exp_key e k, None) | k e. m k = Some e}"

lemma exp_key_inject [simp]: "make_exp_key e k = make_exp_key e' k' \<longleftrightarrow> e = e' \<and> k = k'"
  by (auto simp: make_exp_key_def)

lemma init_rel: "ttl_rel fastkv_ttl_init Map.empty"
  by (simp add: ttl_rel_def fastkv_ttl_init_def create_wf)

lemma slice_dup_be [simp]: "slice_dup (Some (u64_to_be e)) = Some (u64_to_be e)"
  by (rule slice_dup_Some_ne) (metis length_u64_to_be list.size(3) zero_neq_numeral)

lemma stored_expiry_rel:
  assumes "ttl_rel t m"
  shows "stored_expiry t key = m key"
proof -
  have w: "btree_wf (ttl_key t)" and s: "set (bt_entries (ttl_key t)) = {(k, Some (u64_to_be e)) | k e. m k = Some e}"
    using assms by (simp_all add: ttl_rel_def)
  have "map_of (bt_entries (ttl_key t)) key = map_option (\<lambda>e. Some (u64_to_be e)) (m key)"
  proof (cases "m key")
    case (Some e)
    then have "(key, Some (u64_to_be e)) \<in> set (bt_entries (ttl_key t))" using s by auto
    then show ?thesis using Some ascending_distinct [OF btree_ascending [OF w]] by (simp add: map_of_is_SomeI)
  next
    case None
    then have "key \<notin> fst ` set (bt_entries (ttl_key t))" unfolding s by auto
    with None show ?thesis by (simp add: map_of_eq_None_iff)
  qed
  then show ?thesis using bt.look_eq [OF w] by (cases "m key") (simp_all add: stored_expiry_def)
qed

lemma ttl_key_insert:
  assumes "btree_wf t" "set (bt_entries t) = {(k, Some (u64_to_be e)) | k e. m k = Some e}"
  shows "set (bt_entries (fastkv_btree_insert t (Some key) (Some (u64_to_be x))))
    = {(k, Some (u64_to_be e)) | k e. (m(key \<mapsto> x)) k = Some e}"
  using bt.list_ins [OF assms(1)] assms(2) by (auto simp: set_al_put split: if_splits)

lemma ttl_key_delete:
  assumes "btree_wf t" "set (bt_entries t) = {(k, Some (u64_to_be e)) | k e. m k = Some e}"
  shows "set (bt_entries (snd (fastkv_btree_delete t (Some key))))
    = {(k, Some (u64_to_be e)) | k e. (m(key := None)) k = Some e}"
  using bt.list_del [OF assms(1)] assms(2) by (auto simp: set_al_del split: if_splits)

lemma ttl_exp_insert:
  assumes "btree_wf t" "set (bt_entries t) = {(make_exp_key e k, None) | k e. m k = Some e}" "m key = None"
  shows "set (bt_entries (fastkv_btree_insert t (Some (make_exp_key x key)) None))
    = {(make_exp_key e k, None) | k e. (m(key \<mapsto> x)) k = Some e}"
proof -
  have ne: "k \<noteq> key" if "m k = Some e" for k e using assms(3) that by auto
  have "set (bt_entries (fastkv_btree_insert t (Some (make_exp_key x key)) None))
      = insert (make_exp_key x key, None) {y \<in> {(make_exp_key e k, None) | k e. m k = Some e}. fst y \<noteq> make_exp_key x key}"
    using bt.list_ins [OF assms(1)] assms(2) by (simp add: set_al_put)
  also have "\<dots> = insert (make_exp_key x key, None) {(make_exp_key e k, None) | k e. m k = Some e}"
    using ne by fastforce
  also have "\<dots> = {(make_exp_key e k, None) | k e. (m(key \<mapsto> x)) k = Some e}"
    using ne by (auto split: if_splits)
  finally show ?thesis .
qed

lemma ttl_exp_delete:
  assumes "btree_wf t" "set (bt_entries t) = {(make_exp_key e k, None) | k e. m k = Some e}" "m key = Some x"
  shows "set (bt_entries (snd (fastkv_btree_delete t (Some (make_exp_key x key)))))
    = {(make_exp_key e k, None) | k e. (m(key := None)) k = Some e}"
proof -
  have "set (bt_entries (snd (fastkv_btree_delete t (Some (make_exp_key x key)))))
      = {y \<in> {(make_exp_key e k, None) | k e. m k = Some e}. fst y \<noteq> make_exp_key x key}"
    using bt.list_del [OF assms(1)] assms(2) by (simp add: set_al_del)
  also have "\<dots> = {(make_exp_key e k, None) | k e. m k = Some e \<and> k \<noteq> key}"
    using assms(3) by fastforce
  also have "\<dots> = {(make_exp_key e k, None) | k e. (m(key := None)) k = Some e}"
    by (auto split: if_splits)
  finally show ?thesis .
qed

lemma remove_rel:
  assumes "ttl_rel t m"
  shows "ttl_rel (fastkv_ttl_remove t key) (m(key := None))"
proof (cases "m key")
  case None
  then have "m(key := None) = m" by (simp add: fun_upd_idem)
  with None assms show ?thesis by (simp add: fastkv_ttl_remove_def stored_expiry_rel [OF assms])
next
  case (Some e)
  with assms ttl_key_delete [of "ttl_key t" m key] ttl_exp_delete [of "ttl_exp t" m key e] bt.inv_del show ?thesis
    by (simp add: fastkv_ttl_remove_def stored_expiry_rel [OF assms] ttl_rel_def)
qed

lemma ttl_set_rel:
  assumes "ttl_rel t m"
  shows "ttl_rel (fastkv_ttl_set now t key ms) (m(key \<mapsto> now + ms))"
proof -
  let ?x1 = "case m key of None \<Rightarrow> ttl_exp t
      | Some old \<Rightarrow> snd (fastkv_btree_delete (ttl_exp t) (Some (make_exp_key old key)))"
  have k: "btree_wf (ttl_key t)" "set (bt_entries (ttl_key t)) = {(k, Some (u64_to_be e)) | k e. m k = Some e}"
    and x: "btree_wf (ttl_exp t)" "set (bt_entries (ttl_exp t)) = {(make_exp_key e k, None) | k e. m k = Some e}"
    using assms by (simp_all add: ttl_rel_def)
  have x1: "btree_wf ?x1 \<and> set (bt_entries ?x1) = {(make_exp_key e k, None) | k e. (m(key := None)) k = Some e}"
  proof (cases "m key")
    case None
    then have "m(key := None) = m" by (simp add: fun_upd_idem)
    with None x show ?thesis by simp
  next
    case (Some e)
    then show ?thesis using bt.inv_del [OF x(1)] ttl_exp_delete [OF x Some] by simp
  qed
  have "fastkv_ttl_set now t key ms =
    \<lparr>ttl_exp = fastkv_btree_insert ?x1 (Some (make_exp_key (now + ms) key)) None,
     ttl_key = fastkv_btree_insert (ttl_key t) (Some key) (Some (u64_to_be (now + ms)))\<rparr>"
    by (rule ttl.equality; cases "m key") (simp_all add: fastkv_ttl_set_def stored_expiry_rel [OF assms] Let_def)
  then show ?thesis
    using ttl_key_insert [OF k, of key "now + ms"] bt.inv_ins [OF k(1)] bt.inv_ins [of ?x1]
      ttl_exp_insert [of ?x1 "m(key := None)" key "now + ms"] x1
    by (simp add: ttl_rel_def)
qed

section \<open>Collecting\<close>

lemma strict_sorted_distinct: "distinct (map f xs) \<longleftrightarrow> sorted_wrt (\<lambda>x y. f x \<noteq> f y) xs"
  by (induction xs) auto

lemma feed_collect:
  assumes "ascending es" "\<forall>e\<in>set es. \<exists>x k. fst e = make_exp_key x k \<and> length k \<le> FASTKV_MAX_KEY_LEN"
  shows "snd (feed (collect_expired now) es keys)
    = keys @ take (256 - length keys) (map (drop 8 \<circ> fst) (filter (\<lambda>e. be_to_u64 (fst e) \<le> now) es))"
  using assms
proof (induction es arbitrary: keys)
  case (Cons e es)
  obtain key val where kv: "e = (key, val)" by (cases e)
  from Cons.prems(2) obtain x k where e: "key = make_exp_key x k" "length k \<le> FASTKV_MAX_KEY_LEN" by (auto simp: kv)
  have be: "be_to_u64 key = x" "\<not> length key < 8" "drop 8 key = k" by (simp_all add: e make_exp_key_def)
  show ?case
  proof (cases "x > now")
    case True
    have "be_to_u64 (fst y) > now" if y: "y \<in> set es" for y
    proof -
      obtain x' k' where y': "fst y = make_exp_key x' k'" using Cons.prems(2) y by auto
      have "key < fst y" using Cons.prems(1) y kv by simp
      then have "x \<le> x'"
        unfolding e(1) y' make_exp_key_def by (auto simp: lex_less_append_same_length u64_to_be_less)
      then show ?thesis using True y' by (simp add: make_exp_key_def)
    qed
    then have "filter (\<lambda>e. be_to_u64 (fst e) \<le> now) es = []" by (auto simp: filter_empty_conv not_le)
    with True show ?thesis by (simp add: kv collect_expired_def be not_le)
  next
    case False
    then have step: "collect_expired now key val keys = (FASTKV_OK, if length keys < 256 then keys @ [k] else keys)"
      using be e(2) by (simp add: collect_expired_def e(1) make_exp_key_def)
    have IH: "snd (feed (collect_expired now) es ks)
        = ks @ take (256 - length ks) (map (drop 8 \<circ> fst) (filter (\<lambda>e. be_to_u64 (fst e) \<le> now) es))" for ks
      by (rule Cons.IH) (use Cons.prems in simp_all)
    show ?thesis
    proof (cases "length keys < 256")
      case True
      then have "256 - length keys = Suc (255 - length keys)" by simp
      with True False show ?thesis by (simp add: kv step IH be not_less comp_def)
    next
      case full: False
      with False show ?thesis by (simp add: kv step IH be not_less comp_def)
    qed
  qed
qed simp

lemma ttl_scan_expired:
  assumes "ttl_rel t m" "length (leaves (root (ttl_exp t))) \<le> fuel" "\<forall>k\<in>dom m. length k \<le> FASTKV_MAX_KEY_LEN"
  shows "\<exists>ks. ttl_scan fuel now t = Some (take 256 ks) \<and> set ks = {k. \<exists>e. m k = Some e \<and> e \<le> now} \<and> distinct ks
    \<and> sorted (map (\<lambda>k. the (m k)) ks)"
proof -
  let ?es = "bt_entries (ttl_exp t)" and ?P = "\<lambda>e. be_to_u64 (fst e) \<le> now"
  let ?ks = "map (drop 8 \<circ> fst) (filter ?P ?es)"
  have w: "btree_wf (ttl_exp t)" and s: "set ?es = {(make_exp_key e k, None) | k e. m k = Some e}"
    using assms(1) by (simp_all add: ttl_rel_def)
  note asc = btree_ascending [OF w]
  have keys: "\<forall>e\<in>set ?es. \<exists>x k. fst e = make_exp_key x k \<and> length k \<le> FASTKV_MAX_KEY_LEN"
    using assms(3) unfolding s by fastforce
  have "ttl_scan fuel now t = Some (take 256 ?ks)"
    using scan_forward [OF w assms(2), of None None "collect_expired now" "[]"] feed_collect [OF asc keys, of now "[]"]
    by (simp add: ttl_scan_def in_range_def scan_rc_def)
  moreover have "set ?ks = {k. \<exists>e. m k = Some e \<and> e \<le> now}"
    by (auto simp: s make_exp_key_def image_iff) force
  moreover have "sorted (map (\<lambda>k. the (m k)) ?ks) \<and> distinct ?ks"
  proof -
    have mem: "\<exists>x k. fst e = make_exp_key x k \<and> m k = Some x" if "e \<in> set ?es" for e using that unfolding s by auto
    have "sorted_wrt (\<lambda>x y. the (m (drop 8 (fst x))) \<le> the (m (drop 8 (fst y))) \<and> drop 8 (fst x) \<noteq> drop 8 (fst y)) ?es"
      using asc unfolding ascending_def
    proof (rule sorted_wrt_mono_rel [rotated])
      fix x y assume xy: "x \<in> set ?es" "y \<in> set ?es" "fst x < fst y"
      obtain a k where a: "fst x = make_exp_key a k" "m k = Some a" using mem [OF xy(1)] by auto
      obtain b l where b: "fst y = make_exp_key b l" "m l = Some b" using mem [OF xy(2)] by auto
      have "a < b \<or> a = b \<and> k < l"
        using xy(3) unfolding a(1) b(1) make_exp_key_def by (auto simp: lex_less_append_same_length u64_to_be_less)
      then show "the (m (drop 8 (fst x))) \<le> the (m (drop 8 (fst y))) \<and> drop 8 (fst x) \<noteq> drop 8 (fst y)"
        using a b by (auto simp: make_exp_key_def)
    qed
    then have "sorted_wrt (\<lambda>x y. the (m (drop 8 (fst x))) \<le> the (m (drop 8 (fst y))) \<and> drop 8 (fst x) \<noteq> drop 8 (fst y)) (filter ?P ?es)"
      by (rule sorted_wrt_filter)
    then show ?thesis
      by (auto simp: sorted_wrt_map comp_def strict_sorted_distinct elim: sorted_wrt_mono_rel [rotated])
  qed
  ultimately show ?thesis by blast
qed

section \<open>Properties\<close>

text \<open>
  setting and removing expiry times keeps the two trees in step: together they represent one map
  from primary keys to expiry times, which a set updates at its key to the clock plus the time to live (in 64-bit
  arithmetic) and a remove clears there.
\<close>
lemma ttl_trees_in_step:
  assumes "ttl_rel t m"
  shows "ttl_rel (fastkv_ttl_set now t key ms) (m(key \<mapsto> now + ms)) \<and> ttl_rel (fastkv_ttl_remove t key) (m(key := None))
    \<and> stored_expiry t key = m key"
  using ttl_set_rel remove_rel stored_expiry_rel assms by blast

lemma ttl_trees_in_step_example:
  "ttl_rel fastkv_ttl_init Map.empty \<and> ttl_rel (fastkv_ttl_set 1000 fastkv_ttl_init [7] 500) [[7] \<mapsto> 1500]"
  using ttl_trees_in_step [OF init_rel, of 1000 "[7]" 500] init_rel by simp

text \<open>
  Property C36: the expiry scan terminates and collects, of the keys whose expiry time has passed, the first 256 in
  the order of their expiry times, and no other key.
\<close>
theorem ttl_scan_collects_expired:
  assumes "ttl_rel t m" "length (leaves (root (ttl_exp t))) \<le> fuel" "\<forall>k\<in>dom m. length k \<le> FASTKV_MAX_KEY_LEN"
  shows "\<exists>ks. ttl_scan fuel now t = Some (take 256 ks) \<and> set ks = {k. \<exists>e. m k = Some e \<and> e \<le> now} \<and> distinct ks
    \<and> sorted (map (\<lambda>k. the (m k)) ks)"
  by (rule ttl_scan_expired [OF assms])

theorem ttl_scan_collects_expired_witness:
  "\<exists>ks. ttl_scan (length (leaves (root (ttl_exp (fastkv_ttl_set 1000 fastkv_ttl_init [7] 500))))) 2000
        (fastkv_ttl_set 1000 fastkv_ttl_init [7] 500) = Some (take 256 ks) \<and> set ks = {[7]}"
proof -
  have r: "ttl_rel (fastkv_ttl_set 1000 fastkv_ttl_init [7] 500) [[7] \<mapsto> 1500]"
    using ttl_set_rel [OF init_rel, of 1000 "[7]" 500] by simp
  have "{k. \<exists>e. [[7] \<mapsto> 1500 :: u64] k = Some e \<and> e \<le> 2000} = {[7 :: byte]}"
    by (auto split: if_splits)
  then show ?thesis
    using ttl_scan_collects_expired [OF r order_refl, of 2000] by (auto simp: FASTKV_MAX_KEY_LEN_def)
qed

end
