(* ===== verification/Uuid7.thy ===== *)
theory Uuid7
  imports Bytes
begin

text \<open>
  \<open>util/uuid7/\<close>: the time-ordered identifiers that name WAL segments and snapshots.  The operating system's
  entropy and clock are arguments; in the overflow branch \<open>fresh_now\<close> stands for the first clock reading that
  differs from the last timestamp, which the spin loop waits for.

  Shown here: the identifiers of one generator strictly increase in lexicographic order (and so do their
  hexadecimal names) as long as the clock does not jump back by more than the tolerated ten seconds and the 70-bit
  counter does not overflow within one millisecond; version and variant bits are those of RFC 9562.
\<close>

section \<open>Model\<close>

record uuid7_prng =
  s0 :: u64
  s1 :: u64
  s2 :: u64
  s3 :: u64

definition rotl64 :: "u64 \<Rightarrow> nat \<Rightarrow> u64" where
  "rotl64 x k = push_bit k x OR drop_bit (64 - k) x"

definition xoshiro256_next :: "uuid7_prng \<Rightarrow> u64 \<times> uuid7_prng" where
  "xoshiro256_next p =
     (let result = rotl64 (s1 p * 5) 7 * 9;
          t = push_bit 17 (s1 p);
          p = p\<lparr>s2 := s2 p XOR s0 p\<rparr>;
          p = p\<lparr>s3 := s3 p XOR s1 p\<rparr>;
          p = p\<lparr>s1 := s1 p XOR s2 p\<rparr>;
          p = p\<lparr>s0 := s0 p XOR s3 p\<rparr>;
          p = p\<lparr>s2 := s2 p XOR t\<rparr>;
          p = p\<lparr>s3 := rotl64 (s3 p) 45\<rparr>
      in (result, p))"

text \<open>
  \<^verbatim>\<open>prng_seed\<close>: \<open>entropy\<close> is what \<^verbatim>\<open>get_entropy\<close> fills in (\<^term>\<open>None\<close> if it fails); the fallback mixes the
  clock, the cycle counter and two addresses.
\<close>

definition prng_seed :: "(u64 \<times> u64 \<times> u64 \<times> u64) option \<Rightarrow> u64 \<Rightarrow> u64 \<Rightarrow> u64 \<Rightarrow> u64 \<Rightarrow> uuid7_prng" where
  "prng_seed entropy t c prng_addr arg_addr =
     (case (case entropy of
              Some seed \<Rightarrow> seed
            | None \<Rightarrow> (t XOR c XOR push_bit 32 prng_addr, t XOR 0x9E3779B97F4A7C15,
                       arg_addr XOR push_bit 17 c, t XOR drop_bit 7 c)) of
        (a, b, c, d) \<Rightarrow> ((\<lambda>p. snd (xoshiro256_next p)) ^^ 8) \<lparr>s0 = a, s1 = b, s2 = c, s3 = d\<rparr>)"

text \<open>\<^verbatim>\<open>prng_fill\<close>: whole words, then part of one more.\<close>

function prng_fill :: "uuid7_prng \<Rightarrow> nat \<Rightarrow> bytes \<times> uuid7_prng" where
  "prng_fill p len =
     (if len \<ge> 8
      then (case xoshiro256_next p of (r, p') \<Rightarrow>
              (case prng_fill p' (len - 8) of (bs, p'') \<Rightarrow> (le64 r @ bs, p'')))
      else if len > 0
      then (case xoshiro256_next p of (r, p') \<Rightarrow> (take len (le64 r), p'))
      else ([], p))"
  by pat_completeness auto
termination
  by (relation "measure snd") auto

declare prng_fill.simps [simp del]

record uuid7_ctx =
  last_timestamp_ms :: u64
  rand_a_high :: byte
  counter_high :: u16
  counter_low :: u64
  prng :: uuid7_prng

definition UUID7_CLOCK_BACKWARD_THRESHOLD_MS :: u64 where
  "UUID7_CLOCK_BACKWARD_THRESHOLD_MS = 10000"

text \<open>Drawing fresh random bits for a new timestamp.\<close>

definition uuid7_reseed :: "uuid7_ctx \<Rightarrow> u64 \<Rightarrow> uuid7_ctx" where
  "uuid7_reseed ctx now =
     (case prng_fill (prng ctx) 16 of
        (bs, p) \<Rightarrow>
          let rnd0 = le_dec (take 8 bs) :: u64; rnd1 = le_dec (drop 8 bs) :: u64
          in \<lparr>last_timestamp_ms = now,
              rand_a_high = ucast (drop_bit 60 rnd0 AND 0xF),
              counter_high = ucast (drop_bit 46 rnd0 AND 0x3FFF),
              counter_low = rnd1 AND 0x00FFFFFFFFFFFFFF,
              prng = p\<rparr>)"

definition uuid7_init :: "uuid7_prng \<Rightarrow> u64 \<Rightarrow> uuid7_ctx" where
  "uuid7_init seeded now =
     uuid7_reseed \<lparr>last_timestamp_ms = 0, rand_a_high = 0, counter_high = 0, counter_low = 0, prng = seeded\<rparr> now"

definition write_be48 :: "u64 \<Rightarrow> bytes" where
  "write_be48 v = [ucast (drop_bit 40 v), ucast (drop_bit 32 v), ucast (drop_bit 24 v),
                   ucast (drop_bit 16 v), ucast (drop_bit 8 v), ucast v]"

definition write_be56 :: "u64 \<Rightarrow> bytes" where
  "write_be56 v = ucast (drop_bit 48 v) # write_be48 v"

text \<open>The serialisation at the end of \<^verbatim>\<open>uuid7_generate_ex\<close>.\<close>

definition uuid7_bytes :: "uuid7_ctx \<Rightarrow> bytes" where
  "uuid7_bytes ctx =
     write_be48 (last_timestamp_ms ctx)
     @ [0x70 OR rand_a_high ctx,
        ucast (drop_bit 6 (counter_high ctx)),
        0x80 OR ucast (counter_high ctx AND 0x3F)]
     @ write_be56 (counter_low ctx)"

definition uuid7_step :: "uuid7_ctx \<Rightarrow> u64 \<Rightarrow> u64 \<Rightarrow> uuid7_ctx" where
  "uuid7_step ctx now fresh_now =
     (let delta = sint (now - last_timestamp_ms ctx)
      in if delta > 0 then uuid7_reseed ctx now
         else if delta = 0 \<or> (delta < 0 \<and> - delta \<le> uint UUID7_CLOCK_BACKWARD_THRESHOLD_MS)
         then
           let ctx1 = ctx\<lparr>counter_low := (counter_low ctx + 1) AND 0x00FFFFFFFFFFFFFF\<rparr>
           in if counter_low ctx1 = 0
              then let ctx2 = ctx1\<lparr>counter_high := counter_high ctx1 + 1\<rparr>
                   in if counter_high ctx2 = 0x4000 then uuid7_reseed ctx2 fresh_now else ctx2
              else ctx1
         else uuid7_reseed ctx now)"

definition uuid7_generate_ex :: "uuid7_ctx \<Rightarrow> u64 \<Rightarrow> u64 \<Rightarrow> bytes \<times> uuid7_ctx" where
  "uuid7_generate_ex ctx now fresh_now =
     (let ctx' = uuid7_step ctx now fresh_now in (uuid7_bytes ctx', ctx'))"

text \<open>\<^verbatim>\<open>uuid7_hex\<close>: two lower-case digits per byte.\<close>

definition hex_digit :: "byte \<Rightarrow> byte" where
  "hex_digit n = (if n < 10 then 0x30 + n else 0x57 + n)"

definition hex_of :: "bytes \<Rightarrow> bytes" where
  "hex_of raw = concat (map (\<lambda>b. [hex_digit (drop_bit 4 b), hex_digit (b AND 0xF)]) raw)"

definition uuid7_hex :: "uuid7_ctx \<Rightarrow> u64 \<Rightarrow> u64 \<Rightarrow> bytes \<times> uuid7_ctx" where
  "uuid7_hex ctx now fresh_now =
     (case uuid7_generate_ex ctx now fresh_now of (raw, ctx') \<Rightarrow> (hex_of raw, ctx'))"

section \<open>Well-formed generators\<close>

definition uuid_ok :: "uuid7_ctx \<Rightarrow> bool" where
  "uuid_ok ctx \<longleftrightarrow> last_timestamp_ms ctx < 2 ^ 48 \<and> rand_a_high ctx < 16 \<and> counter_high ctx < 0x4000
     \<and> counter_low ctx < 2 ^ 56"

lemma and_less: "unat (m :: 'a::len word) < n \<Longrightarrow> unat (x AND m) < n"
  by (meson le_less_trans word_and_le1 word_le_nat_alt)

lemma reseed_ok: "now < 2 ^ 48 \<Longrightarrow> uuid_ok (uuid7_reseed ctx now)"
proof -
  assume now: "now < 2 ^ 48"
  have a: "(ucast ((x::u64) AND 0xF) :: byte) < 16" for x
  proof -
    have "unat (x AND 0xF) < 16" by (rule and_less) simp
    then show ?thesis by (simp add: word_less_nat_alt unsigned_ucast_eq take_bit_nat_eq_self)
  qed
  have h: "(ucast ((x::u64) AND 0x3FFF) :: u16) < 0x4000" for x
  proof -
    have "unat (x AND 0x3FFF) < 0x4000" by (rule and_less) simp
    then show ?thesis by (simp add: word_less_nat_alt unsigned_ucast_eq take_bit_nat_eq_self)
  qed
  have l: "(x::u64) AND 0x00FFFFFFFFFFFFFF < 2 ^ 56" for x
  proof -
    have "unat (x AND 0x00FFFFFFFFFFFFFF) < 2 ^ 56" by (rule and_less) simp
    then show ?thesis by (simp add: word_less_nat_alt)
  qed
  show ?thesis using now a h l by (auto simp: uuid_ok_def uuid7_reseed_def Let_def split: prod.split)
qed

section \<open>Order of the serialised fields\<close>

lemma u64_to_be_56: "u64_to_be v = ucast (drop_bit 56 v) # write_be56 v"
  by (simp add: u64_to_be_def be_loop_le le_enc_Suc eval_nat_numeral write_be56_def write_be48_def drop_bit_drop_bit le_enc_def)

lemma drop_bit_small: "unat v < 2 ^ n \<Longrightarrow> drop_bit n v = 0" for v :: u64
proof -
  assume v: "unat v < 2 ^ n"
  have "unat (drop_bit n v) = unat v div 2 ^ n" unfolding unat_drop_bit_eq by (rule drop_bit_eq_div)
  with v show ?thesis by (simp add: unat_eq_zero)
qed

lemma be56_less: "a < 2 ^ 56 \<Longrightarrow> b < 2 ^ 56 \<Longrightarrow> write_be56 a < write_be56 b \<longleftrightarrow> a < b"
  using u64_to_be_less [of a b] drop_bit_small [of a 56] drop_bit_small [of b 56]
  by (simp add: u64_to_be_56 word_less_nat_alt)

lemma be48_less: "a < 2 ^ 48 \<Longrightarrow> b < 2 ^ 48 \<Longrightarrow> write_be48 a < write_be48 b \<longleftrightarrow> a < b"
  using be56_less [of a b] drop_bit_small [of a 48] drop_bit_small [of b 48]
  by (simp add: write_be56_def word_less_nat_alt)

lemma length_be [simp]: "length (write_be48 v) = 6" "length (write_be56 v) = 7"
  by (simp_all add: write_be48_def write_be56_def)

definition counter_bytes :: "u16 \<Rightarrow> bytes" where
  "counter_bytes ch = [ucast (drop_bit 6 ch), 0x80 OR ucast (ch AND 0x3F)]"

lemma counter_hi: "ch < 0x4000 \<Longrightarrow> unat (ucast (drop_bit 6 ch) :: byte) = unat ch div 64" for ch :: u16
proof -
  assume "ch < 0x4000"
  then have "unat ch div 64 < 256" by (simp add: word_less_nat_alt less_mult_imp_div_less)
  then show ?thesis
    by (simp add: unsigned_ucast_eq unat_drop_bit_eq drop_bit_eq_div unat_div_distrib take_bit_nat_eq_self)
qed

lemma counter_lo: "unat (0x80 OR ucast (ch AND 0x3F) :: byte) = 128 + unat ch mod 64" for ch :: u16
proof -
  have m: "ch AND 0x3F = take_bit 6 ch" by (simp add: take_bit_eq_mask mask_eq_exp_minus_1)
  have small: "unat ch mod 64 < 64" by simp
  have u: "unat (ucast (take_bit 6 ch) :: byte) = unat ch mod 64"
  proof -
    have "unat (ucast (take_bit 6 ch) :: byte) = take_bit 8 (take_bit 6 (unat ch))"
      unfolding unsigned_ucast_eq unsigned_take_bit_eq by simp
    also have "\<dots> = take_bit 6 (unat ch)" unfolding take_bit_take_bit by simp
    also have "\<dots> = unat ch mod 64" unfolding take_bit_eq_mod by simp
    finally show ?thesis .
  qed
  have "(2 ^ 7 :: byte) OR ucast (take_bit 6 ch) = 2 ^ 7 + ucast (take_bit 6 ch)"
  proof (rule disjunctive_add [symmetric])
    fix n
    show "\<not> bit (2 ^ 7 :: byte) n \<or> \<not> bit (ucast (take_bit 6 ch) :: byte) n"
      unfolding bit_exp_iff bit_ucast_iff bit_take_bit_iff by auto
  qed
  then have "(0x80 :: byte) OR ucast (take_bit 6 ch) = 0x80 + ucast (take_bit 6 ch)" by simp
  then show ?thesis using u small by (simp add: m unat_word_ariths)
qed

lemma counter_bytes_less: "a < b \<Longrightarrow> b < 0x4000 \<Longrightarrow> counter_bytes a < counter_bytes b"
proof -
  assume ab: "a < b" "b < 0x4000"
  then have a: "a < 0x4000" by simp
  have lt: "unat a < unat b" using ab by (simp add: word_less_nat_alt)
  then have "unat a div 64 < unat b div 64 \<or> unat a div 64 = unat b div 64 \<and> unat a mod 64 < unat b mod 64"
    by (metis div_le_mono div_mult_mod_eq le_eq_less_or_eq less_imp_le_nat nat_add_left_cancel_less)
  then show ?thesis
    using counter_hi [OF a] counter_hi [OF ab(2)] counter_lo [of a] counter_lo [of b]
    by (auto simp: counter_bytes_def word_less_nat_alt word_unat_eq_iff)
qed

section \<open>Order of the identifiers\<close>

lemma uuid7_bytes_split:
  "uuid7_bytes ctx = write_be48 (last_timestamp_ms ctx) @ (0x70 OR rand_a_high ctx)
     # counter_bytes (counter_high ctx) @ write_be56 (counter_low ctx)"
  by (simp add: uuid7_bytes_def counter_bytes_def)

lemma newer_timestamp_less:
  assumes "uuid_ok a" "uuid_ok b" "last_timestamp_ms a < last_timestamp_ms b"
  shows "uuid7_bytes a < uuid7_bytes b"
  using assms be48_less [of "last_timestamp_ms a" "last_timestamp_ms b"]
  by (simp add: uuid7_bytes_split lex_less_append_same_length uuid_ok_def)

lemma newer_counter_less:
  assumes "uuid_ok a" "uuid_ok b" "last_timestamp_ms a = last_timestamp_ms b" "rand_a_high a = rand_a_high b"
    "counter_high a < counter_high b \<or> counter_high a = counter_high b \<and> counter_low a < counter_low b"
  shows "uuid7_bytes a < uuid7_bytes b"
  using assms be56_less [of "counter_low a" "counter_low b"] counter_bytes_less [of "counter_high a" "counter_high b"]
  by (auto simp: uuid7_bytes_split lex_less_append_same_length uuid_ok_def counter_bytes_def)

text \<open>The signed difference of two 48-bit times is their difference.\<close>

lemma delta_48:
  fixes now last :: u64
  assumes "now < 2 ^ 48" "last < 2 ^ 48"
  shows "sint (now - last) = uint now - uint last"
proof -
  have b: "0 \<le> uint now" "uint now < 281474976710656" "0 \<le> uint last" "uint last < 281474976710656"
    using assms by (simp_all add: word_less_def)
  have r: "- 9223372036854775808 \<le> uint now - uint last" "uint now - uint last < 9223372036854775808"
    using b by linarith+
  have "sint (now - last) = signed_take_bit 63 (uint (now - last))" by (simp add: sint_uint)
  also have "uint (now - last) = take_bit 64 (uint now - uint last)"
    by (simp add: uint_word_ariths take_bit_eq_mod)
  also have "signed_take_bit 63 (take_bit 64 (uint now - uint last)) = signed_take_bit 63 (uint now - uint last)"
    by (simp add: signed_take_bit_take_bit)
  also have "\<dots> = uint now - uint last"
    using r by (intro signed_take_bit_int_eq_self) simp_all
  finally show ?thesis .
qed

lemma low_increment:
  assumes "(cl :: u64) < 2 ^ 56"
  shows "if cl = 2 ^ 56 - 1 then (cl + 1) AND 0x00FFFFFFFFFFFFFF = 0
    else (cl + 1) AND 0x00FFFFFFFFFFFFFF = cl + 1 \<and> cl < cl + 1 \<and> cl + 1 < 2 ^ 56 \<and> cl + 1 \<noteq> 0"
proof -
  have m: "x AND 0x00FFFFFFFFFFFFFF = take_bit 56 x" for x :: u64
    by (simp add: take_bit_eq_mask mask_eq_exp_minus_1)
  show ?thesis
  proof (cases "cl = 2 ^ 56 - 1")
    case False
    have "unat cl < 2 ^ 56" using assms by (simp add: word_less_nat_alt)
    moreover have "unat cl \<noteq> 2 ^ 56 - 1" using False by (auto simp: word_unat_eq_iff)
    ultimately have u: "unat cl + 1 < 2 ^ 56" by simp
    then have u1: "unat (cl + 1) = unat cl + 1" by (simp add: unat_word_ariths)
    have "take_bit 56 (cl + 1) = cl + 1"
      using u u1 by (intro word_unat_eq_iff [THEN iffD2]) (simp only: unsigned_take_bit_eq take_bit_nat_eq_self)
    with False u u1 show ?thesis
      unfolding m by (auto simp: word_less_nat_alt word_unat_eq_iff)
  qed (simp add: m)
qed

lemma step_increases:
  assumes ok: "uuid_ok ctx" and now: "now < 2 ^ 48"
    and bk: "uint (last_timestamp_ms ctx) - uint now \<le> uint UUID7_CLOCK_BACKWARD_THRESHOLD_MS"
    and room: "counter_high ctx < 0x3FFF \<or> counter_low ctx < 2 ^ 56 - 1"
  shows "uuid_ok (uuid7_step ctx now fresh) \<and> uuid7_bytes ctx < uuid7_bytes (uuid7_step ctx now fresh)"
proof -
  let ?l = "last_timestamp_ms ctx" and ?cl = "counter_low ctx" and ?ch = "counter_high ctx"
  have l: "?l < 2 ^ 48" "?cl < 2 ^ 56" "?ch < 0x4000" using ok by (simp_all add: uuid_ok_def)
  have d: "sint (now - ?l) = uint now - uint ?l" by (rule delta_48 [OF now l(1)])
  show ?thesis
  proof (cases "uint now > uint ?l")
    case True
    then have s: "uuid7_step ctx now fresh = uuid7_reseed ctx now" by (simp add: uuid7_step_def d)
    have ts: "last_timestamp_ms (uuid7_reseed ctx now) = now"
      by (simp add: uuid7_reseed_def Let_def split: prod.split)
    have "uuid7_bytes ctx < uuid7_bytes (uuid7_reseed ctx now)"
      using ok reseed_ok [OF now] True ts by (intro newer_timestamp_less) (simp_all add: word_less_def)
    then show ?thesis using reseed_ok [OF now] s by simp
  next
    case False
    let ?c1 = "ctx\<lparr>counter_low := (?cl + 1) AND 0x00FFFFFFFFFFFFFF\<rparr>"
    let ?c2 = "?c1\<lparr>counter_high := ?ch + 1\<rparr>"
    have s: "uuid7_step ctx now fresh
        = (if counter_low ?c1 = 0 then (if ?ch + 1 = 0x4000 then uuid7_reseed ?c2 fresh else ?c2) else ?c1)"
      using False bk unfolding uuid7_step_def Let_def d by auto
    show ?thesis
    proof (cases "?cl = 2 ^ 56 - 1")
      case True
      then have low: "counter_low ?c1 = 0" using low_increment [OF l(2)] by simp
      have "unat ?ch < 0x3FFF" using room True by (simp add: word_less_nat_alt)
      then have h: "unat (?ch + 1) = unat ?ch + 1" by (simp add: unat_word_ariths)
      then have ch: "?ch < ?ch + 1" "?ch + 1 < 0x4000" "?ch + 1 \<noteq> 0x4000"
        using \<open>unat ?ch < 0x3FFF\<close> by (auto simp: word_less_nat_alt word_unat_eq_iff)
      have "uuid_ok ?c2" using ok ch low by (simp add: uuid_ok_def)
      moreover have "uuid7_bytes ctx < uuid7_bytes ?c2"
        using ok calculation ch by (intro newer_counter_less) simp_all
      ultimately show ?thesis using s low ch(3) by simp
    next
      case False
      then have low: "(?cl + 1) AND 0x00FFFFFFFFFFFFFF = ?cl + 1" "?cl < ?cl + 1" "?cl + 1 < 2 ^ 56" "?cl + 1 \<noteq> 0"
        using low_increment [OF l(2)] by simp_all
      then have "uuid_ok ?c1" using ok by (simp add: uuid_ok_def)
      moreover have "uuid7_bytes ctx < uuid7_bytes ?c1"
        using ok calculation low by (intro newer_counter_less) simp_all
      ultimately show ?thesis using s low by simp
    qed
  qed
qed


section \<open>Hexadecimal names\<close>

lemma hex_digit_less: "a < 16 \<Longrightarrow> b < 16 \<Longrightarrow> hex_digit a < hex_digit b \<longleftrightarrow> a < b"
proof -
  assume ab: "a < 16" "b < 16"
  have u: "unat (hex_digit c) = (if unat c < 10 then 48 + unat c else 87 + unat c)" if "c < 16" for c
    using that by (auto simp: hex_digit_def word_less_nat_alt unat_word_ariths)
  show ?thesis using u [OF ab(1)] u [OF ab(2)] ab by (auto simp: word_less_nat_alt)
qed

lemma nibbles: "drop_bit 4 b < 16" "b AND 0xF < 16" "unat b = 16 * unat (drop_bit 4 b) + unat (b AND 0xF)" for b :: byte
proof -
  have m: "b AND 0xF = take_bit 4 b" by (simp add: take_bit_eq_mask mask_eq_exp_minus_1)
  have d: "unat (drop_bit 4 b) = unat b div 16" "unat (b AND 0xF) = unat b mod 16"
    unfolding m unat_drop_bit_eq unsigned_take_bit_eq by (simp_all add: drop_bit_eq_div take_bit_eq_mod)
  have "unat b < 2 ^ LENGTH(8)" by (rule unsigned_less)
  then have "unat b < 256" by simp
  then show "drop_bit 4 b < 16" "b AND 0xF < 16" "unat b = 16 * unat (drop_bit 4 b) + unat (b AND 0xF)"
    by (auto simp: word_less_nat_alt d)
qed

lemma hex_byte_less:
  "a < b \<Longrightarrow> [hex_digit (drop_bit 4 a), hex_digit (a AND 0xF)] < [hex_digit (drop_bit 4 b), hex_digit (b AND 0xF)]"
proof -
  assume "a < b"
  then have "unat a < unat b" by (simp add: word_less_nat_alt)
  then have "unat (drop_bit 4 a) < unat (drop_bit 4 b)
      \<or> unat (drop_bit 4 a) = unat (drop_bit 4 b) \<and> unat (a AND 0xF) < unat (b AND 0xF)"
    using nibbles [of a] nibbles [of b] unfolding word_less_nat_alt by simp linarith
  then show ?thesis
    using nibbles [of a] nibbles [of b] by (auto simp: hex_digit_less word_less_nat_alt [symmetric] word_unat_eq_iff [symmetric])
qed

lemma hex_of_less: "length xs = length ys \<Longrightarrow> xs < ys \<Longrightarrow> hex_of xs < hex_of ys"
proof (induction xs ys rule: list_induct2)
  case (Cons x xs y ys)
  show ?case
  proof (cases "x = y")
    case True
    with Cons show ?thesis by (simp add: hex_of_def)
  next
    case False
    with Cons.prems have "x < y" by simp
    then show ?thesis using hex_byte_less [of x y] by (auto simp: hex_of_def)
  qed
qed simp

lemma length_hex_of [simp]: "length (hex_of raw) = 2 * length raw"
  by (induction raw) (simp_all add: hex_of_def)

lemma length_uuid7_bytes [simp]: "length (uuid7_bytes ctx) = 16"
  by (simp add: uuid7_bytes_def)

section \<open>Properties\<close>

text \<open>
  Property C39.  Names of WAL segments and snapshots: as long as the clock stays below \<open>2^48\<close> ms and does not jump
  back by more than the tolerated ten seconds, and the 70-bit counter has room, the hexadecimal name that
  \<^verbatim>\<open>uuid7_hex\<close> returns has 32 characters and is lexicographically greater than the name of the identifier the
  generator produced before; the generator stays well formed, so this repeats for every later name.
\<close>

theorem uuid7_names_increase:
  assumes "uuid_ok ctx" "now < 2 ^ 48"
    and "uint (last_timestamp_ms ctx) - uint now \<le> uint UUID7_CLOCK_BACKWARD_THRESHOLD_MS"
    and "counter_high ctx < 0x3FFF \<or> counter_low ctx < 2 ^ 56 - 1"
    and "uuid7_hex ctx now fresh_now = (name, ctx')"
  shows "uuid_ok ctx' \<and> length name = 32 \<and> name = hex_of (uuid7_bytes ctx')
     \<and> hex_of (uuid7_bytes ctx) < name"
proof -
  have "ctx' = uuid7_step ctx now fresh_now" "name = hex_of (uuid7_bytes ctx')"
    using assms(5) by (auto simp: uuid7_hex_def uuid7_generate_ex_def Let_def)
  then show ?thesis using step_increases [OF assms(1-4)] hex_of_less by simp
qed

definition sample_ctx :: uuid7_ctx where
  "sample_ctx = \<lparr>last_timestamp_ms = 1000, rand_a_high = 5, counter_high = 7, counter_low = 2 ^ 56 - 1,
                 prng = \<lparr>s0 = 1, s1 = 2, s2 = 3, s3 = 4\<rparr>\<rparr>"

lemma sample_hex:
  "uuid7_hex sample_ctx 999 0 = (fst (uuid7_hex sample_ctx 999 0), snd (uuid7_hex sample_ctx 999 0))"
  by simp

theorem uuid7_names_increase_witness:
  "hex_of (uuid7_bytes sample_ctx) < fst (uuid7_hex sample_ctx 999 0)
   \<and> counter_high (snd (uuid7_hex sample_ctx 999 0)) = 8"
proof -
  have ok: "uuid_ok sample_ctx" by (simp add: uuid_ok_def sample_ctx_def)
  have "hex_of (uuid7_bytes sample_ctx) < fst (uuid7_hex sample_ctx 999 0)"
    by (rule uuid7_names_increase [OF ok _ _ _ sample_hex, THEN conjunct2, THEN conjunct2, THEN conjunct2])
      (simp_all add: sample_ctx_def UUID7_CLOCK_BACKWARD_THRESHOLD_MS_def)
  moreover have "counter_high (snd (uuid7_hex sample_ctx 999 0)) = 8" by code_simp
  ultimately show ?thesis by simp
qed

text \<open>
  Every identifier is 16 bytes long and carries version 7 and the variant bits \<open>10\<close>, and starting from
  \<^verbatim>\<open>uuid7_init\<close> the generator is well formed.
\<close>

lemma uuid7_format:
  assumes "now < 2 ^ 48"
  shows "uuid_ok (uuid7_init seeded now)
    \<and> (uuid_ok ctx \<longrightarrow> length (uuid7_bytes ctx) = 16 \<and> uuid7_bytes ctx ! 6 AND 0xF0 = 0x70
        \<and> uuid7_bytes ctx ! 8 AND 0xC0 = 0x80)"
proof -
  have v: "((0x70 :: byte) OR x) AND 0xF0 = 0x70" if "x < 16" for x
  proof -
    have "x = take_bit 4 x" using that by (simp add: word_less_nat_alt word_unat_eq_iff unsigned_take_bit_eq take_bit_nat_eq_self)
    then have "x = x AND 0xF" by (simp add: take_bit_eq_mask mask_eq_exp_minus_1)
    then have "x AND 0xF0 = (x AND 0xF) AND 0xF0" by simp
    also have "\<dots> = 0" by (simp add: and.assoc)
    finally show ?thesis by (simp add: bit.conj_disj_distrib2)
  qed
  have c: "((0x80 :: byte) OR ucast (y AND 0x3F)) AND 0xC0 = 0x80" for y :: u16
  proof -
    have "ucast (y AND 0x3F) AND (0xC0 :: byte) = ucast y AND (0x3F AND 0xC0)"
      by (simp only: unsigned_and_eq and.assoc) simp
    also have "\<dots> = 0" by simp
    finally show ?thesis by (simp add: bit.conj_disj_distrib2)
  qed
  show ?thesis
    using reseed_ok [OF assms] v c by (simp add: uuid7_init_def uuid7_bytes_def write_be48_def uuid_ok_def)
qed

end
