(* ===== verification/Repl_Server.thy ===== *)
theory Repl_Server
  imports Bytes "HOL-Library.Sublist"
begin

text \<open>
  \<open>repl/repl_server.c\<close> and the primary's side of \<open>repl/repl.h\<close>: every record appended to the log is queued for
  each connected replica, and one thread per replica sends the queue over TCP.  The queue between \<^verbatim>\<open>queue_head\<close> and
  \<^verbatim>\<open>queue_tail\<close> is a list.  A sender thread is a state machine whose steps are the stretches between the points
  where it takes or releases \<^verbatim>\<open>queue_lock\<close>; \<^verbatim>\<open>s_wire\<close> is what the kernel has accepted on the socket so far.  What each
  call of \<^verbatim>\<open>send\<close> returns and whether each allocation succeeds are arguments.

  Shown here, for every interleaving of broadcasts, sender threads, new connections and pruning: the byte counter
  of each queue is exact and never above 8 MB, and what a replica gets is a prefix of its greeting followed by the
  frames broadcast since it joined, without gap or reordering; while it is connected nothing of that stream is lost.
\<close>

section \<open>Model\<close>

definition REPL_MAGIC :: u32 where
  "REPL_MAGIC = 0x464B5254"

definition REPL_MAX_QUEUE_BYTES :: u64 where
  "REPL_MAX_QUEUE_BYTES = 8 * 1024 * 1024"

record repl_frame_hdr =
  h_magic :: u32
  h_payload_len :: u32
  h_offset :: u64

text \<open>The sixteen bytes of a header as they lie in memory.\<close>

definition hdr_bytes :: "repl_frame_hdr \<Rightarrow> bytes" where
  "hdr_bytes h = le32 (h_magic h) @ le32 (h_payload_len h) @ le64 (h_offset h)"

record repl_queued_frame =
  f_data :: bytes
  f_len :: u32
  f_offset :: u64

text \<open>Where a sender thread is: at the head of its loop, in the wait for a frame, sending one, or finished.\<close>

datatype sender_pc = At_loop | Waiting | Sending repl_queued_frame | Done

record repl_sender =
  s_addr :: bytes
  s_queue_bytes :: u64
  s_connected :: bool
  s_stop :: bool
  s_queue :: "repl_queued_frame list"
  s_pc :: sender_pc
  s_wire :: bytes

record repl_server =
  listen_fd :: int
  srv_port :: u16
  srv_stop :: bool
  senders :: "repl_sender list"
  primary_offset :: u64

text \<open>\<^verbatim>\<open>send_all\<close>: call \<open>i\<close> of \<^verbatim>\<open>send\<close> returns \<open>rs i\<close>; the bytes accepted are returned beside the result.\<close>

function send_all :: "(nat \<Rightarrow> int) \<Rightarrow> nat \<Rightarrow> bytes \<Rightarrow> bool \<times> bytes \<times> nat" where
  "send_all rs i buf =
     (if buf = [] then (True, [], i)
      else if rs i \<le> 0 then (False, [], Suc i)
      else case send_all rs (Suc i) (drop (nat (rs i)) buf) of
             (ok, out, j) \<Rightarrow> (ok, take (nat (rs i)) buf @ out, j))"
  by pat_completeness auto
termination
  by (relation "measure (\<lambda>(rs, i, buf). length buf)") auto

declare send_all.simps [simp del]

text \<open>The frame as \<^verbatim>\<open>sender_drain_queue\<close> sends it.\<close>

definition frame_hdr :: "repl_queued_frame \<Rightarrow> repl_frame_hdr" where
  "frame_hdr f = \<lparr>h_magic = REPL_MAGIC, h_payload_len = f_len f, h_offset = f_offset f\<rparr>"

definition frame_bytes :: "repl_queued_frame \<Rightarrow> bytes" where
  "frame_bytes f = hdr_bytes (frame_hdr f) @ f_data f"

definition send_frame :: "(nat \<Rightarrow> int) \<Rightarrow> repl_queued_frame \<Rightarrow> bool \<times> bytes" where
  "send_frame rs f =
     (case send_all rs 0 (hdr_bytes (frame_hdr f)) of
        (ok1, out1, i) \<Rightarrow>
          if ok1 then (case send_all rs i (f_data f) of (ok2, out2, j) \<Rightarrow> (ok2, out1 @ out2))
          else (False, out1))"

text \<open>
  One step of \<^verbatim>\<open>sender_thread\<close>; \<^term>\<open>None\<close> when the thread is blocked in \<^verbatim>\<open>pthread_cond_wait\<close> or has ended.
\<close>

definition sender_step :: "(nat \<Rightarrow> int) \<Rightarrow> repl_sender \<Rightarrow> repl_sender option" where
  "sender_step rs s =
     (case s_pc s of
        At_loop \<Rightarrow> Some (if s_stop s then s\<lparr>s_pc := Done, s_connected := False\<rparr> else s\<lparr>s_pc := Waiting\<rparr>)
      | Waiting \<Rightarrow>
          (case s_queue s of
             [] \<Rightarrow> if s_stop s then Some (s\<lparr>s_pc := At_loop\<rparr>) else None
           | f # q \<Rightarrow> Some (s\<lparr>s_queue := q, s_queue_bytes := s_queue_bytes s - ucast (f_len f), s_pc := Sending f\<rparr>))
      | Sending f \<Rightarrow>
          (case send_frame rs f of
             (ok, out) \<Rightarrow>
               let s1 = s\<lparr>s_wire := s_wire s @ out, s_pc := At_loop\<rparr>
               in Some (if ok then s1 else s1\<lparr>s_connected := False, s_stop := True\<rparr>))
      | Done \<Rightarrow> None)"

text \<open>\<^verbatim>\<open>sender_enqueue\<close>; the two flags are its two allocations.\<close>

definition sender_enqueue :: "bool \<Rightarrow> bool \<Rightarrow> repl_sender \<Rightarrow> bytes \<Rightarrow> u32 \<Rightarrow> u64 \<Rightarrow> repl_sender" where
  "sender_enqueue f_ok data_ok s data len offset =
     (if \<not> s_connected s then s
      else if s_queue_bytes s + ucast len > REPL_MAX_QUEUE_BYTES
      then s\<lparr>s_stop := True, s_connected := False\<rparr>
      else if \<not> f_ok then s
      else if \<not> data_ok then s
      else s\<lparr>s_queue := s_queue s @ [\<lparr>f_data = take (unat len) data, f_len = len, f_offset = offset\<rparr>],
             s_queue_bytes := s_queue_bytes s + ucast len\<rparr>)"

text \<open>\<^verbatim>\<open>sender_create\<close>: \<open>ok\<close> says whether the allocation and the thread creation succeed.\<close>

definition sender_create :: "bool \<Rightarrow> bytes \<Rightarrow> repl_sender option" where
  "sender_create ok addr =
     (if ok then Some \<lparr>s_addr = addr, s_queue_bytes = 0, s_connected = True, s_stop = False, s_queue = [],
                       s_pc = At_loop, s_wire = []\<rparr>
      else None)"

text \<open>\<^verbatim>\<open>prune_disconnected\<close> destroys the senders that are no longer connected.\<close>

definition prune_disconnected :: "repl_server \<Rightarrow> repl_server" where
  "prune_disconnected srv = srv\<lparr>senders := filter s_connected (senders srv)\<rparr>"

text \<open>One accepted connection in \<^verbatim>\<open>accept_thread\<close>; the result of sending the greeting is not looked at.\<close>

definition hello_bytes :: "u64 \<Rightarrow> bytes" where
  "hello_bytes off = hdr_bytes \<lparr>h_magic = REPL_MAGIC, h_payload_len = 0, h_offset = off\<rparr>"

definition accept_one :: "bool \<Rightarrow> (nat \<Rightarrow> int) \<Rightarrow> bytes \<Rightarrow> repl_server \<Rightarrow> repl_server" where
  "accept_one ok rs addr srv =
     (case sender_create ok addr of
        None \<Rightarrow> srv
      | Some s \<Rightarrow>
          (case send_all rs 0 (hello_bytes (primary_offset srv)) of
             (_, out, _) \<Rightarrow>
               prune_disconnected (srv\<lparr>senders := s\<lparr>s_wire := out\<rparr> # senders srv\<rparr>)))"

text \<open>
  \<^verbatim>\<open>fastkv_repl_server_init\<close>: the descriptor returned by \<^verbatim>\<open>socket\<close> and whether binding, listening and starting the
  accept thread succeed are arguments.
\<close>

definition fastkv_repl_server_init :: "int \<Rightarrow> bool \<Rightarrow> bool \<Rightarrow> u16 \<Rightarrow> fastkv_err + repl_server" where
  "fastkv_repl_server_init sock bind_listen_ok thread_ok port =
     (if sock < 0 then Inl FASTKV_ERR_IO
      else if \<not> bind_listen_ok then Inl FASTKV_ERR_IO
      else if \<not> thread_ok then Inl FASTKV_ERR_IO
      else Inr \<lparr>listen_fd = sock, srv_port = port, srv_stop = False, senders = [], primary_offset = 0\<rparr>)"

definition fastkv_repl_server_destroy :: "repl_server \<Rightarrow> repl_server" where
  "fastkv_repl_server_destroy srv =
     (if listen_fd srv \<le> 0 then srv else srv\<lparr>srv_stop := True, listen_fd := 0, senders := []\<rparr>)"

text \<open>\<^verbatim>\<open>fastkv_repl_broadcast\<close>; \<open>al i\<close> gives the two allocations for the sender at position \<open>i\<close>.\<close>

definition fastkv_repl_broadcast :: "(nat \<Rightarrow> bool \<times> bool) \<Rightarrow> repl_server \<Rightarrow> bytes \<Rightarrow> repl_server" where
  "fastkv_repl_broadcast al srv data =
     (if listen_fd srv \<le> 0 then srv
      else
        let off = primary_offset srv + of_nat (length data)
        in srv\<lparr>primary_offset := off,
               senders := map (\<lambda>(i, s). sender_enqueue (fst (al i)) (snd (al i)) s data (of_nat (length data)) off)
                            (enumerate 0 (senders srv))\<rparr>)"

section \<open>Sending\<close>

lemma send_all_out:
  "send_all rs i buf = (ok, out, j) \<Longrightarrow> prefix out buf \<and> (ok \<longrightarrow> out = buf)"
proof (induction rs i buf arbitrary: ok out j rule: send_all.induct)
  case (1 rs i buf)
  show ?case
  proof (cases "buf = [] \<or> rs i \<le> 0")
    case True
    then show ?thesis using "1.prems" by (auto simp: send_all.simps [of rs i buf] split: if_splits)
  next
    case False
    then obtain out' where out: "send_all rs (Suc i) (drop (nat (rs i)) buf) = (ok, out', j)"
        "out = take (nat (rs i)) buf @ out'"
      using "1.prems" by (auto simp: send_all.simps [of rs i buf] split: prod.splits)
    then have "prefix out' (drop (nat (rs i)) buf) \<and> (ok \<longrightarrow> out' = drop (nat (rs i)) buf)"
      using "1.IH" False by auto
    then show ?thesis using out(2) by (metis append_take_drop_id same_prefix_prefix)
  qed
qed

lemma send_frame_out:
  "send_frame rs f = (ok, out) \<Longrightarrow> prefix out (frame_bytes f) \<and> (ok \<longrightarrow> out = frame_bytes f)"
  unfolding send_frame_def frame_bytes_def
  by (auto split: prod.splits if_splits dest!: send_all_out intro: prefix_prefix)

section \<open>Executions\<close>

definition new_frame :: "repl_server \<Rightarrow> bytes \<Rightarrow> repl_queued_frame" where
  "new_frame srv data =
     \<lparr>f_data = data, f_len = of_nat (length data), f_offset = primary_offset srv + of_nat (length data)\<rparr>"

text \<open>
  The states a serving primary can reach, each with the frames broadcast so far.  Records have less than
  \<open>2^32\<close> bytes, allocations for queued frames succeed and the greeting of a new connection is sent completely;
  everything else, in particular every short or failing \<^verbatim>\<open>send\<close> of a sender thread, is arbitrary.
\<close>

inductive repl_run :: "repl_server \<Rightarrow> repl_queued_frame list \<Rightarrow> bool" where
  start: "fastkv_repl_server_init sock bl th port = Inr srv \<Longrightarrow> repl_run srv []"
| broadcast: "repl_run srv h \<Longrightarrow> listen_fd srv > 0 \<Longrightarrow> length data < 2 ^ 32 \<Longrightarrow>
    repl_run (fastkv_repl_broadcast (\<lambda>_. (True, True)) srv data) (h @ [new_frame srv data])"
| thread: "repl_run srv h \<Longrightarrow> i < length (senders srv) \<Longrightarrow> sender_step rs (senders srv ! i) = Some s \<Longrightarrow>
    repl_run (srv\<lparr>senders := (senders srv)[i := s]\<rparr>) h"
| accept: "repl_run srv h \<Longrightarrow> fst (send_all rs 0 (hello_bytes (primary_offset srv))) \<Longrightarrow>
    repl_run (accept_one ok rs addr srv) h"
| prune: "repl_run srv h \<Longrightarrow> repl_run (prune_disconnected srv) h"
| destroy: "repl_run srv h \<Longrightarrow> repl_run (fastkv_repl_server_destroy srv) h"

section \<open>Invariant\<close>

definition pending :: "repl_sender \<Rightarrow> repl_queued_frame list" where
  "pending s = (case s_pc s of Sending f \<Rightarrow> [f] | _ \<Rightarrow> []) @ s_queue s"

definition enc_frames :: "repl_queued_frame list \<Rightarrow> bytes" where
  "enc_frames fs = concat (map frame_bytes fs)"

text \<open>The byte stream owed to a replica that joined after \<open>j\<close> broadcasts.\<close>

definition repl_stream :: "u64 \<Rightarrow> nat \<Rightarrow> repl_queued_frame list \<Rightarrow> bytes" where
  "repl_stream off j h = hello_bytes off @ enc_frames (drop j h)"

definition halted :: "repl_sender \<Rightarrow> bool" where
  "halted s \<longleftrightarrow> s_stop s \<and> (s_pc s = At_loop \<or> s_pc s = Done)"

definition queue_exact :: "repl_sender \<Rightarrow> bool" where
  "queue_exact s \<longleftrightarrow> unat (s_queue_bytes s) = (\<Sum>f\<leftarrow>s_queue s. unat (f_len f))
     \<and> s_queue_bytes s \<le> REPL_MAX_QUEUE_BYTES"

definition stream_ok :: "repl_queued_frame list \<Rightarrow> repl_sender \<Rightarrow> bool" where
  "stream_ok h s \<longleftrightarrow> (\<exists>off j. j \<le> length h \<and> prefix (s_wire s) (repl_stream off j h)
     \<and> (\<not> halted s \<longrightarrow> prefix (s_wire s @ enc_frames (pending s)) (repl_stream off j h))
     \<and> (s_connected s \<longrightarrow> s_wire s @ enc_frames (pending s) = repl_stream off j h))"

lemma enc_frames_simps [simp]:
  "enc_frames [] = []" "enc_frames (f # fs) = frame_bytes f @ enc_frames fs"
  "enc_frames (fs @ gs) = enc_frames fs @ enc_frames gs"
  by (simp_all add: enc_frames_def)

lemma repl_stream_snoc: "j \<le> length h \<Longrightarrow> repl_stream off j (h @ [f]) = repl_stream off j h @ frame_bytes f"
  by (simp add: repl_stream_def)

text \<open>Every frame that is broadcast extends the stream.\<close>

lemma stream_ok_snoc:
  assumes "stream_ok h s" "\<not> s_connected s"
  shows "stream_ok (h @ [f]) s"
  using assms unfolding stream_ok_def by (metis le_SucI length_append_singleton prefix_prefix repl_stream_snoc)

lemma unat_ucast_len: "unat (ucast (x :: u32) :: u64) = unat x"
proof -
  have "unat x < 2 ^ LENGTH(32)" by (rule unsigned_less)
  then show ?thesis by (simp add: unsigned_ucast_eq take_bit_nat_eq_self_iff)
qed

lemma enqueue_queue_exact:
  assumes "queue_exact s"
  shows "queue_exact (sender_enqueue fo do s data len off)"
proof -
  have "unat (s_queue_bytes s) \<le> 8388608"
    using assms by (simp add: queue_exact_def REPL_MAX_QUEUE_BYTES_def word_le_nat_alt)
  moreover have "unat len < 4294967296" using unsigned_less [of len] by simp
  ultimately have "unat (s_queue_bytes s + ucast len) = unat (s_queue_bytes s) + unat len"
    by (simp add: unat_word_ariths unat_ucast_len)
  then show ?thesis using assms by (auto simp: sender_enqueue_def queue_exact_def)
qed

lemma enqueue_stream_ok:
  assumes "stream_ok h s" "unat len = length data"
  shows "stream_ok (h @ [\<lparr>f_data = data, f_len = len, f_offset = off\<rparr>]) (sender_enqueue True True s data len off)"
proof (cases "s_connected s")
  case False
  then show ?thesis using stream_ok_snoc [OF assms(1)] by (simp add: sender_enqueue_def)
next
  case True
  let ?f = "\<lparr>f_data = data, f_len = len, f_offset = off\<rparr>"
  obtain o' j where j: "j \<le> length h" "s_wire s @ enc_frames (pending s) = repl_stream o' j h"
    using assms(1) True by (auto simp: stream_ok_def)
  show ?thesis
  proof (cases "s_queue_bytes s + ucast len > REPL_MAX_QUEUE_BYTES")
    case over: True
    let ?s = "s\<lparr>s_stop := True, s_connected := False\<rparr>"
    have p: "pending ?s = pending s" by (simp add: pending_def)
    have "repl_stream o' j (h @ [?f]) = (s_wire ?s @ enc_frames (pending ?s)) @ frame_bytes ?f"
      using j p by (simp add: repl_stream_snoc)
    then have "prefix (s_wire ?s @ enc_frames (pending ?s)) (repl_stream o' j (h @ [?f]))"
      by (metis prefixI)
    then have "stream_ok (h @ [?f]) ?s"
      unfolding stream_ok_def using j(1) by (intro exI [of _ o'] exI [of _ j]) (auto dest: append_prefixD)
    then show ?thesis using True over by (simp add: sender_enqueue_def)
  next
    case False
    let ?s = "s\<lparr>s_queue := s_queue s @ [?f], s_queue_bytes := s_queue_bytes s + ucast len\<rparr>"
    have p: "pending ?s = pending s @ [?f]" by (simp add: pending_def)
    have e: "s_wire ?s @ enc_frames (pending ?s) = repl_stream o' j (h @ [?f])"
      using j p by (simp add: repl_stream_snoc flip: append_assoc)
    then have "prefix (s_wire ?s) (repl_stream o' j (h @ [?f]))" by (metis prefixI)
    with e j(1) have "stream_ok (h @ [?f]) ?s"
      unfolding stream_ok_def by (intro exI [of _ o'] exI [of _ j]) simp
    then show ?thesis using True False assms(2) by (simp add: sender_enqueue_def)
  qed
qed

lemma sender_step_queue_exact:
  assumes "queue_exact s" "sender_step rs s = Some s'"
  shows "queue_exact s'"
proof (cases "s_pc s = Waiting \<and> s_queue s \<noteq> []")
  case False
  then show ?thesis
    using assms by (auto simp: sender_step_def queue_exact_def Let_def split: sender_pc.splits if_splits list.splits prod.splits)
next
  case True
  then obtain f q where q: "s_queue s = f # q" by (auto simp: neq_Nil_conv)
  then have s': "s' = s\<lparr>s_queue := q, s_queue_bytes := s_queue_bytes s - ucast (f_len f), s_pc := Sending f\<rparr>"
    using assms(2) True by (simp add: sender_step_def)
  have "unat (f_len f) \<le> unat (s_queue_bytes s)" using assms(1) q by (simp add: queue_exact_def)
  then have "ucast (f_len f) \<le> s_queue_bytes s" by (simp add: word_le_nat_alt unat_ucast_len)
  then have "unat (s_queue_bytes s - ucast (f_len f)) = unat (s_queue_bytes s) - unat (f_len f)"
    by (simp add: unat_sub unat_ucast_len)
  then show ?thesis using assms(1) q s' by (auto simp: queue_exact_def word_le_nat_alt)
qed

lemma sender_step_stream_ok:
  assumes "stream_ok h s" "sender_step rs s = Some s'"
  shows "stream_ok h s'"
proof (cases "\<exists>f. s_pc s = Sending f")
  case False
  then have same: "s_wire s' = s_wire s" "pending s' = pending s" "s_connected s' \<longrightarrow> s_connected s"
      "\<not> halted s' \<longrightarrow> \<not> halted s"
    using assms(2)
    by (auto simp: sender_step_def pending_def halted_def split: sender_pc.splits if_splits list.splits)
  then show ?thesis using assms(1) by (auto simp: stream_ok_def)
next
  case True
  then obtain f where f: "s_pc s = Sending f" by blast
  obtain ok out where o: "send_frame rs f = (ok, out)" by force
  obtain off j where j: "j \<le> length h" "prefix (s_wire s @ enc_frames (pending s)) (repl_stream off j h)"
      "s_connected s \<longrightarrow> s_wire s @ enc_frames (pending s) = repl_stream off j h"
    using assms(1) f by (auto simp: stream_ok_def halted_def)
  have pend: "enc_frames (pending s) = frame_bytes f @ enc_frames (s_queue s)" by (simp add: pending_def f)
  have "prefix (s_wire s @ out) (s_wire s @ enc_frames (pending s))"
    using send_frame_out [OF o] pend by (simp add: prefix_prefix)
  then have wire: "prefix (s_wire s @ out) (repl_stream off j h)" using j(2) by (rule prefix_order.trans)
  have s': "s' = (let s1 = s\<lparr>s_wire := s_wire s @ out, s_pc := At_loop\<rparr>
      in if ok then s1 else s1\<lparr>s_connected := False, s_stop := True\<rparr>)"
    using assms(2) by (simp add: sender_step_def f o Let_def)
  show ?thesis
  proof (cases ok)
    case True
    then have "out = frame_bytes f" using send_frame_out [OF o] by simp
    then have "s_wire s' @ enc_frames (pending s') = s_wire s @ enc_frames (pending s)" "s_connected s' = s_connected s"
      using s' True pend by (simp_all add: pending_def Let_def)
    then show ?thesis
      unfolding stream_ok_def using j wire s' True by (intro exI [of _ off] exI [of _ j]) (auto simp: Let_def)
  next
    case False
    then show ?thesis
      unfolding stream_ok_def using j wire s'
      by (intro exI [of _ off] exI [of _ j]) (auto simp: Let_def halted_def)
  qed
qed

lemma map_enumerate_snd: "map (\<lambda>(i, s). g s) (enumerate n xs) = map g xs"
  by (induction xs arbitrary: n) auto

lemma repl_run_senders:
  assumes "repl_run srv h"
  shows "\<forall>s \<in> set (senders srv). queue_exact s \<and> stream_ok h s"
  using assms
proof induction
  case (start sock bl th port srv)
  then show ?case by (auto simp: fastkv_repl_server_init_def split: if_splits)
next
  case (broadcast srv h data)
  let ?n = "of_nat (length data) :: u32"
  have n: "unat ?n = length data" using broadcast.hyps(3) by (simp add: unsigned_of_nat take_bit_nat_eq_self)
  have set: "set (senders (fastkv_repl_broadcast (\<lambda>_. (True, True)) srv data))
      = (\<lambda>s. sender_enqueue True True s data ?n (primary_offset srv + of_nat (length data))) ` set (senders srv)"
    using broadcast.hyps(2) by (simp add: fastkv_repl_broadcast_def Let_def map_enumerate_snd)
  then show ?case
    using broadcast.IH enqueue_queue_exact enqueue_stream_ok [OF _ n] by (auto simp: new_frame_def)
next
  case (thread srv h i rs s)
  then have "queue_exact s \<and> stream_ok h s"
    using sender_step_queue_exact sender_step_stream_ok nth_mem by blast
  then show ?case using thread.IH by (auto dest!: set_update_subset_insert [THEN subsetD])
next
  case (accept srv h rs ok addr)
  obtain out i where o: "send_all rs 0 (hello_bytes (primary_offset srv)) = (True, out, i)"
    using accept.hyps(2) by (cases "send_all rs 0 (hello_bytes (primary_offset srv))") auto
  then have out: "out = hello_bytes (primary_offset srv)" using send_all_out by blast
  have "queue_exact s \<and> stream_ok h s"
    if "s = \<lparr>s_addr = addr, s_queue_bytes = 0, s_connected = True, s_stop = False, s_queue = [], s_pc = At_loop,
            s_wire = out\<rparr>" for s
    unfolding stream_ok_def using that out
    by (auto simp: queue_exact_def pending_def repl_stream_def intro!: exI [of _ "primary_offset srv"] exI [of _ "length h"])
  then show ?case
    using accept.IH o by (auto simp: accept_one_def sender_create_def prune_disconnected_def split: if_splits)
qed (auto simp: prune_disconnected_def fastkv_repl_server_destroy_def split: if_splits)

lemma repl_run_lengths: "repl_run srv h \<Longrightarrow> f \<in> set h \<Longrightarrow> f_len f = of_nat (length (f_data f))"
  by (induction rule: repl_run.induct) (auto simp: new_frame_def)

section \<open>Properties\<close>


text \<open>A run with one replica: greeting, one record queued, the sender thread waiting.\<close>

definition sample_srv :: repl_server where
  "sample_srv = \<lparr>listen_fd = 3, srv_port = 7000, srv_stop = False, senders = [], primary_offset = 0\<rparr>"

definition sample_srv1 :: "bytes \<Rightarrow> repl_server" where
  "sample_srv1 data = fastkv_repl_broadcast (\<lambda>_. (True, True)) (accept_one True (\<lambda>_. 5) [49] sample_srv) data"

definition sample_queued :: "bytes \<Rightarrow> repl_queued_frame" where
  "sample_queued data = \<lparr>f_data = data, f_len = of_nat (length data), f_offset = of_nat (length data)\<rparr>"

lemma send_all_short: "0 < n \<Longrightarrow> \<exists>j. send_all (\<lambda>_. int n) i buf = (True, buf, j)"
proof (induction buf arbitrary: i rule: length_induct)
  case (1 buf)
  show ?case
  proof (cases "buf = []")
    case False
    then obtain j where "send_all (\<lambda>_. int n) (Suc i) (drop n buf) = (True, drop n buf, j)"
      using "1.IH" "1.prems" by fastforce
    then show ?thesis using False "1.prems" by (simp add: send_all.simps [of "\<lambda>_. int n" i buf])
  qed (simp add: send_all.simps)
qed

lemma sample_run:
  assumes "length data \<le> 1000"
  shows "repl_run (sample_srv1 data) [sample_queued data]"
    "senders (sample_srv1 data) = [\<lparr>s_addr = [49], s_queue_bytes = of_nat (length data), s_connected = True, s_stop = False,
       s_queue = [sample_queued data], s_pc = At_loop, s_wire = hello_bytes 0\<rparr>]"
proof -
  obtain j where out: "send_all (\<lambda>_. 5) 0 (hello_bytes 0) = (True, hello_bytes 0, j)"
    using send_all_short [of 5 0 "hello_bytes 0"] by auto
  have n: "unat (of_nat (length data) :: u32) = length data" "unat (of_nat (length data) :: u64) = length data"
    using assms by (simp_all add: unsigned_of_nat take_bit_nat_eq_self)
  have "ucast (of_nat (length data) :: u32) = (of_nat (length data) :: u64)"
    using assms by (simp add: unsigned_of_nat take_bit_nat_eq_self)
  moreover have "(of_nat (length data) :: u64) \<le> REPL_MAX_QUEUE_BYTES"
    using assms by (simp add: word_le_nat_alt n REPL_MAX_QUEUE_BYTES_def)
  moreover have "repl_run sample_srv []"
    by (rule repl_run.start [of 3 True True 7000]) (simp add: fastkv_repl_server_init_def sample_srv_def)
  then have a: "repl_run (accept_one True (\<lambda>_. 5) [49] sample_srv) []"
    by (rule repl_run.accept) (simp add: sample_srv_def out)
  have acc: "accept_one True (\<lambda>_. 5) [49] sample_srv = sample_srv\<lparr>senders := [\<lparr>s_addr = [49], s_queue_bytes = 0,
      s_connected = True, s_stop = False, s_queue = [], s_pc = At_loop, s_wire = hello_bytes 0\<rparr>]\<rparr>"
    by (simp add: accept_one_def sender_create_def prune_disconnected_def sample_srv_def out)
  have "repl_run (sample_srv1 data) ([] @ [new_frame (accept_one True (\<lambda>_. 5) [49] sample_srv) data])"
    unfolding sample_srv1_def
    by (rule repl_run.broadcast [OF a]) (use assms in \<open>unfold acc, simp_all add: sample_srv_def\<close>)
  then show "repl_run (sample_srv1 data) [sample_queued data]"
    unfolding new_frame_def acc by (simp add: sample_srv_def sample_queued_def)
  show "senders (sample_srv1 data) = [\<lparr>s_addr = [49], s_queue_bytes = of_nat (length data), s_connected = True, s_stop = False,
     s_queue = [sample_queued data], s_pc = At_loop, s_wire = hello_bytes 0\<rparr>]"
    unfolding sample_srv1_def acc using calculation
    by (simp add: fastkv_repl_broadcast_def sender_enqueue_def sample_srv_def sample_queued_def n Let_def not_less)
qed


text \<open>
  When memory for a queued frame runs out, \<^verbatim>\<open>sender_enqueue\<close> drops the record and leaves the replica connected: the
  next record that is queued follows the gap, and nothing on the wire tells the replica.
\<close>

lemma repl_enqueue_oom_gap:
  assumes "s_connected s" "s_queue_bytes s + ucast len1 \<le> REPL_MAX_QUEUE_BYTES"
    "s_queue_bytes s + ucast len2 \<le> REPL_MAX_QUEUE_BYTES" "unat len2 = length data2"
  shows "(let s' = sender_enqueue True True (sender_enqueue False d s data1 len1 off1) data2 len2 off2
      in s_connected s' \<and> pending s' = pending s @ [\<lparr>f_data = data2, f_len = len2, f_offset = off2\<rparr>])"
  using assms by (auto simp: sender_enqueue_def pending_def Let_def not_le [symmetric])

end
