(* ===== verification/Db.thy ===== *)
theory Db
  imports Hashtable Txn Wal Json_Index Ttl Uuid7 Repl_Server
begin

text \<open>
  \<open>api/kv_api.c\<close>: the database that ties the components together.  \<open>db\<close> is \<^verbatim>\<open>struct fastkv_db\<close> with the disk it
  writes to; pointers that may be NULL are options.  Locks, the compaction thread and logging are left out: an
  operation is one step, and the theory \<open>Crash\<close> interleaves the steps of several transactions.  What the
  environment decides (allocations, system calls, compare-and-swap retries) is an argument of each operation.

  Opening, closing and checkpoints are in the theory \<open>Recovery\<close>.
\<close>

section \<open>The database\<close>

record fastkv_opts =
  map_size :: nat
  arena_size :: nat
  opt_sync_writes :: bool
  opt_read_only :: bool

record fastkv_repl_client =
  cli_host :: bytes
  cli_port :: u16
  cli_connected :: bool
  cli_stop :: bool
  bytes_received :: u64
  cli_primary_offset :: u64

record fastkv_db =
  opts :: fastkv_opts
  dmgr :: txn_mgr
  tbl :: ht
  dwal :: "wal option"
  dsk :: disk
  tree :: btree
  indexes :: "index list"
  dttl :: ttl
  snapshot_ts :: fastkv_ts
  stat_num_keys :: u64
  stat_snapshot_count :: u64
  uuid7 :: uuid7_ctx
  repl_srv :: "repl_server option"
  repl_cli :: "fastkv_repl_client option"

text \<open>The environment of one write: the table's allocations, the hook's buffer, the frames queued for replicas.\<close>

record write_env =
  w_ht :: ht_env
  w_tmp :: bool
  w_frames :: "nat \<Rightarrow> bool \<times> bool"

text \<open>The environment of one operation that begins, fills and ends a transaction.\<close>

record op_env =
  o_begin :: begin_env
  o_mems :: mems
  o_write :: "nat \<Rightarrow> write_env"

section \<open>Applying a write set\<close>

text \<open>The record goes to the log first; the hook hands it to the replication server.\<close>

definition repl_wal_hook :: "(nat \<Rightarrow> bool \<times> bool) \<Rightarrow> bytes option \<Rightarrow> repl_server option \<Rightarrow> repl_server option" where
  "repl_wal_hook al hooked srv =
     (case hooked of None \<Rightarrow> srv | Some data \<Rightarrow> map_option (\<lambda>s. fastkv_repl_broadcast al s data) srv)"

definition log_entry :: "os \<Rightarrow> write_env \<Rightarrow> fastkv_db \<Rightarrow> write_entry \<Rightarrow> fastkv_ts \<Rightarrow> fastkv_err \<times> fastkv_db" where
  "log_entry os env db e commit_ts =
     (case dwal db of
        None \<Rightarrow> (FASTKV_OK, db)
      | Some w \<Rightarrow>
          (case fastkv_wal_append os (w_tmp env) w (dsk db)
                  (if wvalue e \<noteq> None then WAL_REC_PUT else WAL_REC_DELETE) commit_ts (wkey e) (wvalue e) of
             (rc, w', d', hooked) \<Rightarrow>
               (rc, db\<lparr>dwal := Some w', dsk := d', repl_srv := repl_wal_hook (w_frames env) hooked (repl_srv db)\<rparr>)))"

definition store_entry :: "write_env \<Rightarrow> fastkv_db \<Rightarrow> write_entry \<Rightarrow> fastkv_ts \<Rightarrow> fastkv_db" where
  "store_entry env db e commit_ts =
     (let old = fastkv_ht_get (tbl db) (commit_ts - 1) (wkey e);
          had_old = (case old of Inr _ \<Rightarrow> True | Inl _ \<Rightarrow> False);
          old_val = (case old of Inr bs \<Rightarrow> Some bs | Inl _ \<Rightarrow> None)
      in if wvalue e \<noteq> None
         then
           db\<lparr>tbl := snd (fastkv_ht_put (w_ht env) (tbl db) commit_ts (wkey e) (wvalue e)),
              tree := fastkv_btree_insert (tree db) (Some (wkey e)) (wvalue e),
              stat_num_keys := (if \<not> had_old then stat_num_keys db + 1 else stat_num_keys db),
              indexes := secondary_on_put (indexes db) (wkey e) old_val had_old (wvalue e)\<rparr>
         else
           db\<lparr>tbl := snd (fastkv_ht_delete (w_ht env) (tbl db) commit_ts (wkey e)),
              tree := snd (fastkv_btree_delete (tree db) (Some (wkey e))),
              dttl := fastkv_ttl_remove (dttl db) (wkey e),
              stat_num_keys := (if had_old then stat_num_keys db - 1 else stat_num_keys db),
              indexes := (if had_old then secondary_on_delete (indexes db) (wkey e) old_val else indexes db)\<rparr>)"

fun apply_entries ::
  "os \<Rightarrow> (nat \<Rightarrow> write_env) \<Rightarrow> nat \<Rightarrow> fastkv_db \<Rightarrow> write_entry list \<Rightarrow> fastkv_ts \<Rightarrow> fastkv_err \<times> fastkv_db" where
  "apply_entries os env i db [] commit_ts = (FASTKV_OK, db)"
| "apply_entries os env i db (e # es) commit_ts =
     (case log_entry os (env i) db e commit_ts of
        (rc, db1) \<Rightarrow>
          if rc \<noteq> FASTKV_OK then (rc, db1)
          else apply_entries os env (Suc i) (store_entry (env i) db1 e commit_ts) es commit_ts)"

definition fastkv_db_apply_write_set ::
  "os \<Rightarrow> (nat \<Rightarrow> write_env) \<Rightarrow> fastkv_db \<Rightarrow> write_entry list \<Rightarrow> fastkv_ts \<Rightarrow> fastkv_err \<times> fastkv_db" where
  "fastkv_db_apply_write_set os env db head commit_ts = apply_entries os env 0 db head commit_ts"

section \<open>Conflicts\<close>

text \<open>The walk stops at the first version of the key.\<close>

fun chain_conflict :: "version list \<Rightarrow> bytes \<Rightarrow> fastkv_ts \<Rightarrow> bool" where
  "chain_conflict [] key begin = False"
| "chain_conflict (v # vs) key begin =
     (if slice_eq (vkey v) key then begin_ts v > begin else chain_conflict vs key begin)"

fun fastkv_db_check_conflicts :: "fastkv_db \<Rightarrow> write_entry list \<Rightarrow> fastkv_ts \<Rightarrow> fastkv_err" where
  "fastkv_db_check_conflicts db [] begin = FASTKV_OK"
| "fastkv_db_check_conflicts db (e # es) begin =
     (if chain_conflict (buckets (tbl db) ! bucket_idx (tbl db) (wkey e)) (wkey e) begin
      then FASTKV_ERR_TXN_CONFLICT
      else fastkv_db_check_conflicts db es begin)"

section \<open>Transactions\<close>

definition fastkv_txn_begin :: "begin_env \<Rightarrow> fastkv_db \<Rightarrow> bool \<Rightarrow> (fastkv_err + txn) \<times> fastkv_db" where
  "fastkv_txn_begin env db read_only =
     (if \<not> read_only \<and> opt_read_only (opts db) then (Inl FASTKV_ERR_TXN_RO, db)
      else case fastkv_txn_mgr_begin env (dmgr db) read_only of (r, mgr) \<Rightarrow> (r, db\<lparr>dmgr := mgr\<rparr>))"

definition fastkv_txn_get :: "fastkv_db \<Rightarrow> txn \<Rightarrow> bytes \<Rightarrow> fastkv_err + bytes" where
  "fastkv_txn_get db txn key =
     (if txn_state txn \<noteq> TXN_ACTIVE then Inl FASTKV_ERR_TXN_CLOSED
      else if length key > FASTKV_MAX_KEY_LEN then Inl FASTKV_ERR_KEYSIZE
      else case fastkv_txn_write_lookup txn key of
             Inr bs \<Rightarrow> Inr bs
           | Inl rc \<Rightarrow>
               if rc \<noteq> FASTKV_ERR_NOTFOUND then Inl rc
               else fastkv_ht_get (tbl db) (txn_begin_ts txn) key)"

definition fastkv_txn_put :: "mems \<Rightarrow> txn \<Rightarrow> bytes \<Rightarrow> slice \<Rightarrow> fastkv_err \<times> txn" where
  "fastkv_txn_put mems txn key val =
     (if length key > FASTKV_MAX_KEY_LEN then (FASTKV_ERR_KEYSIZE, txn)
      else if slice_len val > FASTKV_MAX_VAL_LEN then (FASTKV_ERR_VALSIZE, txn)
      else fastkv_txn_write_put mems txn key val)"

definition fastkv_txn_delete :: "mems \<Rightarrow> txn \<Rightarrow> bytes \<Rightarrow> fastkv_err \<times> txn" where
  "fastkv_txn_delete mems txn key =
     (if length key > FASTKV_MAX_KEY_LEN then (FASTKV_ERR_KEYSIZE, txn)
      else fastkv_txn_write_delete mems txn key)"

definition fastkv_txn_commit ::
  "os \<Rightarrow> (nat \<Rightarrow> write_env) \<Rightarrow> fastkv_db \<Rightarrow> txn \<Rightarrow> fastkv_err \<times> fastkv_db \<times> txn option" where
  "fastkv_txn_commit os env db txn =
     (case fastkv_txn_mgr_commit fastkv_db_check_conflicts (fastkv_db_apply_write_set os env) (dmgr db) db txn of
        (rc, mgr, db', t) \<Rightarrow> (rc, db'\<lparr>dmgr := mgr\<rparr>, t))"

definition fastkv_txn_abort :: "fastkv_db \<Rightarrow> txn \<Rightarrow> fastkv_err \<times> fastkv_db \<times> txn option" where
  "fastkv_txn_abort db txn =
     (case fastkv_txn_mgr_abort (dmgr db) txn of (rc, mgr, t) \<Rightarrow> (rc, db\<lparr>dmgr := mgr\<rparr>, t))"

section \<open>Single operations\<close>

definition fastkv_get :: "begin_env \<Rightarrow> fastkv_db \<Rightarrow> bytes \<Rightarrow> (fastkv_err + bytes) \<times> fastkv_db" where
  "fastkv_get env db key =
     (case fastkv_txn_begin env db True of
        (Inl rc, db1) \<Rightarrow> (Inl rc, db1)
      | (Inr txn, db1) \<Rightarrow>
          (let r = fastkv_txn_get db1 txn key
           in case fastkv_txn_abort db1 txn of (_, db2, _) \<Rightarrow> (r, db2)))"

definition fastkv_put :: "os \<Rightarrow> op_env \<Rightarrow> fastkv_db \<Rightarrow> bytes \<Rightarrow> slice \<Rightarrow> fastkv_err \<times> fastkv_db" where
  "fastkv_put os env db key val =
     (case fastkv_txn_begin (o_begin env) db False of
        (Inl rc, db1) \<Rightarrow> (rc, db1)
      | (Inr txn, db1) \<Rightarrow>
          (case fastkv_txn_put (o_mems env) txn key val of
             (rc, txn1) \<Rightarrow>
               if rc \<noteq> FASTKV_OK
               then (case fastkv_txn_abort db1 txn1 of (_, db2, _) \<Rightarrow> (rc, db2))
               else (case fastkv_txn_commit os (o_write env) db1 txn1 of (rc', db2, _) \<Rightarrow> (rc', db2))))"

definition fastkv_delete :: "os \<Rightarrow> op_env \<Rightarrow> fastkv_db \<Rightarrow> bytes \<Rightarrow> fastkv_err \<times> fastkv_db" where
  "fastkv_delete os env db key =
     (case fastkv_txn_begin (o_begin env) db False of
        (Inl rc, db1) \<Rightarrow> (rc, db1)
      | (Inr txn, db1) \<Rightarrow>
          (case fastkv_txn_delete (o_mems env) txn key of
             (rc, txn1) \<Rightarrow>
               if rc \<noteq> FASTKV_OK
               then (case fastkv_txn_abort db1 txn1 of (_, db2, _) \<Rightarrow> (rc, db2))
               else (case fastkv_txn_commit os (o_write env) db1 txn1 of (rc', db2, _) \<Rightarrow> (rc', db2))))"

section \<open>Cursors\<close>

text \<open>A cursor owns copies of all entries of the tree at the time it is opened.\<close>

record fastkv_cursor =
  c_entries :: "(bytes \<times> bytes) list"
  c_pos :: int
  c_dir :: fastkv_cursor_dir

text \<open>\<open>mem n\<close> says whether the allocations for entry \<open>n\<close> succeed.\<close>

definition snap_collect :: "(nat \<Rightarrow> bool) \<Rightarrow> (bytes \<times> bytes) list scan_cb" where
  "snap_collect mem = (\<lambda>key val s.
     if \<not> mem (length s) then (FASTKV_ERR_NOMEM, s) else (FASTKV_OK, s @ [(key, slice_bytes val)]))"

definition fastkv_cursor_open ::
  "bool \<Rightarrow> (nat \<Rightarrow> bool) \<Rightarrow> nat \<Rightarrow> fastkv_db \<Rightarrow> fastkv_cursor_dir \<Rightarrow> (fastkv_err + fastkv_cursor) option" where
  "fastkv_cursor_open c_ok mem fuel db dir =
     (if \<not> c_ok then Some (Inl FASTKV_ERR_NOMEM)
      else
        map_option
          (\<lambda>(rc, s). if rc \<noteq> FASTKV_OK then Inl rc
                     else Inr \<lparr>c_entries = s,
                               c_pos = (if dir = FASTKV_CURSOR_FORWARD then 0 else int (length s) - 1),
                               c_dir = dir\<rparr>)
          (fastkv_btree_scan fuel (tree db) None None FASTKV_CURSOR_FORWARD (snap_collect mem) []))"

definition fastkv_cursor_seek :: "fastkv_cursor \<Rightarrow> bytes \<Rightarrow> fastkv_err \<times> fastkv_cursor" where
  "fastkv_cursor_seek c key =
     (let lo = bsearch (\<lambda>mid. cmp (fst (c_entries c ! mid)) key < 0) 0 (length (c_entries c))
      in if lo \<ge> length (c_entries c) then (FASTKV_ERR_CURSOR_EOF, c) else (FASTKV_OK, c\<lparr>c_pos := int lo\<rparr>))"

definition fastkv_cursor_next :: "fastkv_cursor \<Rightarrow> fastkv_err \<times> fastkv_cursor" where
  "fastkv_cursor_next c =
     (if c_dir c = FASTKV_CURSOR_FORWARD
      then let c' = c\<lparr>c_pos := c_pos c + 1\<rparr>
           in (if c_pos c' \<ge> int (length (c_entries c)) then FASTKV_ERR_CURSOR_EOF else FASTKV_OK, c')
      else let c' = c\<lparr>c_pos := c_pos c - 1\<rparr>
           in (if c_pos c' < 0 then FASTKV_ERR_CURSOR_EOF else FASTKV_OK, c'))"

definition fastkv_cursor_key :: "fastkv_cursor \<Rightarrow> fastkv_err + bytes" where
  "fastkv_cursor_key c =
     (if c_pos c < 0 \<or> c_pos c \<ge> int (length (c_entries c)) then Inl FASTKV_ERR_CURSOR_EOF
      else Inr (fst (c_entries c ! nat (c_pos c))))"

definition fastkv_cursor_value :: "fastkv_cursor \<Rightarrow> fastkv_err + bytes" where
  "fastkv_cursor_value c =
     (if c_pos c < 0 \<or> c_pos c \<ge> int (length (c_entries c)) then Inl FASTKV_ERR_CURSOR_EOF
      else Inr (snd (c_entries c ! nat (c_pos c))))"

section \<open>Secondary indexes\<close>

text \<open>\<^verbatim>\<open>fastkv_index_create\<close> copies at most 63 bytes of the name; the new index starts empty.\<close>

definition index_name :: "bytes \<Rightarrow> bytes" where
  "index_name name = take 63 (takeWhile (\<lambda>c. c \<noteq> 0) name)"

definition fastkv_index_create :: "bool \<Rightarrow> fastkv_db \<Rightarrow> bytes \<Rightarrow> index_fn \<Rightarrow> fastkv_err \<times> fastkv_db" where
  "fastkv_index_create ok db name fn =
     (if \<not> ok then (FASTKV_ERR_NOMEM, db)
      else (FASTKV_OK,
            db\<lparr>indexes := \<lparr>iname = index_name name, ifn = fn, ibtree = fastkv_btree_create\<rparr> # indexes db\<rparr>))"

text \<open>\<^verbatim>\<open>strncmp\<close> over 64 bytes: the stored name ends within them.\<close>

definition name_matches :: "bytes \<Rightarrow> bytes \<Rightarrow> bool" where
  "name_matches stored name \<longleftrightarrow> stored = takeWhile (\<lambda>c. c \<noteq> 0) name"

fun drop_index :: "index list \<Rightarrow> bytes \<Rightarrow> (index list) option" where
  "drop_index [] name = None"
| "drop_index (idx # idxs) name =
     (if name_matches (iname idx) name then Some idxs else map_option ((#) idx) (drop_index idxs name))"

definition fastkv_index_drop :: "fastkv_db \<Rightarrow> bytes \<Rightarrow> fastkv_err \<times> fastkv_db" where
  "fastkv_index_drop db name =
     (case drop_index (indexes db) name of
        None \<Rightarrow> (FASTKV_ERR_NOTFOUND, db)
      | Some idxs \<Rightarrow> (FASTKV_OK, db\<lparr>indexes := idxs\<rparr>))"

definition fastkv_json_index_create :: "bool \<Rightarrow> bool \<Rightarrow> fastkv_db \<Rightarrow> bytes \<Rightarrow> bytes \<Rightarrow> fastkv_err \<times> fastkv_db" where
  "fastkv_json_index_create ctx_mem ok db name field =
     (if \<not> ctx_mem then (FASTKV_ERR_NOMEM, db)
      else fastkv_index_create ok db name (json_index_fn (json_field field)))"

section \<open>Expiry\<close>

definition fastkv_put_ttl ::
  "os \<Rightarrow> op_env \<Rightarrow> u64 \<Rightarrow> fastkv_db \<Rightarrow> bytes \<Rightarrow> slice \<Rightarrow> u64 \<Rightarrow> fastkv_err \<times> fastkv_db" where
  "fastkv_put_ttl os env now_ms db key val ttl_ms =
     (case fastkv_put os env db key val of
        (rc, db1) \<Rightarrow>
          if rc \<noteq> FASTKV_OK then (rc, db1)
          else (FASTKV_OK, db1\<lparr>dttl := fastkv_ttl_set now_ms (dttl db1) key ttl_ms\<rparr>))"

text \<open>The loop of \<^verbatim>\<open>fastkv_ttl_expire\<close> over the collected keys; the result of each deletion is ignored.\<close>

fun expire_keys :: "os \<Rightarrow> (nat \<Rightarrow> op_env) \<Rightarrow> u64 \<Rightarrow> nat \<Rightarrow> bytes list \<Rightarrow> fastkv_db \<Rightarrow> fastkv_db" where
  "expire_keys os env now i [] db = db"
| "expire_keys os env now i (pk # pks) db =
     (case stored_expiry (dttl db) pk of
        None \<Rightarrow> expire_keys os env now (Suc i) pks db
      | Some expiry \<Rightarrow>
          if expiry > now then expire_keys os env now (Suc i) pks db
          else expire_keys os env now (Suc i) pks (snd (fastkv_delete os (env i) db pk)))"

definition fastkv_ttl_expire ::
  "os \<Rightarrow> (nat \<Rightarrow> op_env) \<Rightarrow> nat \<Rightarrow> u64 \<Rightarrow> fastkv_db \<Rightarrow> (fastkv_err \<times> fastkv_db) option" where
  "fastkv_ttl_expire os env fuel now db =
     map_option (\<lambda>keys. (FASTKV_OK, expire_keys os env now 0 keys db)) (ttl_scan fuel now (dttl db))"

section \<open>Statistics and replication\<close>

record fastkv_stats =
  st_num_keys :: u64
  st_committed :: u64
  st_aborted :: u64
  st_conflicts :: u64
  st_wal_bytes :: u64
  st_snapshots :: u64
  st_arena_bytes :: u64

definition fastkv_stats :: "fastkv_db \<Rightarrow> fastkv_stats" where
  "fastkv_stats db =
     \<lparr>st_num_keys = stat_num_keys db, st_committed = num_committed (dmgr db), st_aborted = num_aborted (dmgr db),
      st_conflicts = num_conflicts (dmgr db),
      st_wal_bytes = fastkv_wal_bytes_written (dwal db),
      st_snapshots = stat_snapshot_count db, st_arena_bytes = 0\<rparr>"

definition set_hook :: "fastkv_db \<Rightarrow> bool \<Rightarrow> fastkv_db" where
  "set_hook db on = db\<lparr>dwal := map_option (\<lambda>w. fastkv_wal_set_hook w on) (dwal db)\<rparr>"

definition fastkv_repl_serve :: "bool \<Rightarrow> int \<Rightarrow> bool \<Rightarrow> bool \<Rightarrow> fastkv_db \<Rightarrow> u16 \<Rightarrow> fastkv_err \<times> fastkv_db" where
  "fastkv_repl_serve ok sock bl th db port =
     (if repl_srv db \<noteq> None then (FASTKV_ERR_INVAL, db)
      else if \<not> ok then (FASTKV_ERR_NOMEM, db)
      else case fastkv_repl_server_init sock bl th port of
             Inl rc \<Rightarrow> (rc, db)
           | Inr srv \<Rightarrow> (FASTKV_OK, set_hook (db\<lparr>repl_srv := Some srv\<rparr>) True))"

definition fastkv_repl_stop_server :: "fastkv_db \<Rightarrow> fastkv_db" where
  "fastkv_repl_stop_server db = (if repl_srv db = None then db else (set_hook db False)\<lparr>repl_srv := None\<rparr>)"

record fastkv_repl_peer =
  p_addr :: bytes
  p_connected :: bool
  p_lag_bytes :: u64
  p_bytes_total :: u64

definition fastkv_repl_peers :: "fastkv_db \<Rightarrow> nat \<Rightarrow> fastkv_repl_peer list" where
  "fastkv_repl_peers db n_max =
     (case repl_srv db of
        None \<Rightarrow> []
      | Some srv \<Rightarrow>
          map (\<lambda>s. \<lparr>p_addr = take 63 (s_addr s), p_connected = s_connected s, p_lag_bytes = s_queue_bytes s,
                    p_bytes_total = primary_offset srv\<rparr>) (take n_max (senders srv)))"

definition fastkv_repl_client_init :: "bool \<Rightarrow> bytes \<Rightarrow> u16 \<Rightarrow> fastkv_err + fastkv_repl_client" where
  "fastkv_repl_client_init thread_ok host port =
     (if \<not> thread_ok then Inl FASTKV_ERR_IO
      else Inr \<lparr>cli_host = take 255 (takeWhile (\<lambda>c. c \<noteq> 0) host), cli_port = port, cli_connected = False,
                cli_stop = False, bytes_received = 0, cli_primary_offset = 0\<rparr>)"

definition fastkv_repl_connect :: "bool \<Rightarrow> bool \<Rightarrow> fastkv_db \<Rightarrow> bytes \<Rightarrow> u16 \<Rightarrow> fastkv_err \<times> fastkv_db" where
  "fastkv_repl_connect ok thread_ok db host port =
     (if repl_cli db \<noteq> None then (FASTKV_ERR_INVAL, db)
      else if \<not> ok then (FASTKV_ERR_NOMEM, db)
      else case fastkv_repl_client_init thread_ok host port of
             Inl rc \<Rightarrow> (rc, db)
           | Inr cli \<Rightarrow> (FASTKV_OK, db\<lparr>repl_cli := Some cli\<rparr>))"

definition fastkv_repl_disconnect :: "fastkv_db \<Rightarrow> fastkv_db" where
  "fastkv_repl_disconnect db = db\<lparr>repl_cli := None\<rparr>"

text \<open>The conversion \<^verbatim>\<open>%u\<close> of the port number.\<close>

function dec_digits :: "nat \<Rightarrow> bytes" where
  "dec_digits n = (if n < 10 then [0x30 + of_nat n] else dec_digits (n div 10) @ [0x30 + of_nat (n mod 10)])"
  by pat_completeness auto
termination
  by (relation "measure id") auto

declare dec_digits.simps [simp del]

definition fastkv_repl_primary_stat :: "fastkv_db \<Rightarrow> fastkv_repl_peer" where
  "fastkv_repl_primary_stat db =
     (case repl_cli db of
        None \<Rightarrow> \<lparr>p_addr = [], p_connected = False, p_lag_bytes = 0, p_bytes_total = 0\<rparr>
      | Some cli \<Rightarrow>
          \<lparr>p_addr = take 63 (cli_host cli @ [0x3A] @ dec_digits (unat (cli_port cli))), p_connected = cli_connected cli,
           p_lag_bytes = (if cli_primary_offset cli > bytes_received cli
                          then cli_primary_offset cli - bytes_received cli else 0),
           p_bytes_total = bytes_received cli\<rparr>)"

section \<open>Invariant\<close>

text \<open>The ordered tree holds the live pairs of the table (a key with an empty value has an entry without value).\<close>

definition mirrors :: "btree \<Rightarrow> ht \<Rightarrow> bool" where
  "mirrors t h \<longleftrightarrow> (\<forall>k bs. map_of (bt_entries t) k = Some (Some bs) \<longleftrightarrow> latest h k = Some bs)"

definition core_ok :: "fastkv_ts \<Rightarrow> fastkv_db \<Rightarrow> bool" where
  "core_ok c db \<longleftrightarrow> ht_wf (tbl db) \<and> ht_upto (tbl db) c \<and> btree_wf (tree db) \<and> mirrors (tree db) (tbl db)
     \<and> (\<exists>m. ttl_rel (dttl db) m)"

abbreviation db_clock :: "fastkv_db \<Rightarrow> fastkv_ts" where
  "db_clock db \<equiv> clock (mgr_oracle (dmgr db))"

definition db_ok :: "fastkv_db \<Rightarrow> bool" where
  "db_ok db \<longleftrightarrow> 0 < db_clock db \<and> core_ok (db_clock db - 1) db"

definition envs_ok :: "(nat \<Rightarrow> write_env) \<Rightarrow> bool" where
  "envs_ok env \<longleftrightarrow> (\<forall>i. env_ok (w_ht (env i)))"

lemma core_ok_mono: "core_ok c db \<Longrightarrow> c \<le> c' \<Longrightarrow> core_ok c' db"
  using hts.upto_mono by (auto simp: core_ok_def)

text \<open>Only the log, the disk and the replication queues change when a record is logged.\<close>

lemma log_entry_frame:
  assumes "log_entry os env db e ts = (rc, db')"
  obtains w d srv where "db' = db\<lparr>dwal := w, dsk := d, repl_srv := srv\<rparr>"
proof (cases "dwal db")
  case None
  with assms have "db' = db\<lparr>dwal := dwal db, dsk := dsk db, repl_srv := repl_srv db\<rparr>" by (simp add: log_entry_def)
  then show thesis by (rule that)
next
  case (Some w)
  with assms show thesis by (auto simp: log_entry_def intro!: that split: prod.splits)
qed

lemma store_entry_tbl:
  assumes "core_ok ts db" "ts < FASTKV_TS_MAX" "env_ok (w_ht env)"
  shows "tbl (store_entry env db e ts) = ht_write (tbl db) ts (wkey e) (wvalue e)"
  using assms insert_version_write [of "tbl db" ts "w_ht env" "wkey e"]
  by (cases "wvalue e") (simp_all add: store_entry_def core_ok_def fastkv_ht_put_def fastkv_ht_delete_def Let_def)

definition tree_write :: "btree \<Rightarrow> bytes \<Rightarrow> slice \<Rightarrow> btree" where
  "tree_write t k v =
     (if v \<noteq> None then fastkv_btree_insert t (Some k) v else snd (fastkv_btree_delete t (Some k)))"

lemma store_entry_tree: "tree (store_entry env db e ts) = tree_write (tree db) (wkey e) (wvalue e)"
  by (simp add: store_entry_def tree_write_def Let_def)

lemma tree_write_wf: "btree_wf t \<Longrightarrow> btree_wf (tree_write t k v)"
  by (simp add: tree_write_def bt.inv_ins bt.inv_del)

lemma tree_write_map_of:
  "btree_wf t \<Longrightarrow> map_of (bt_entries (tree_write t k v)) =
     (map_of (bt_entries t))(k := (case v of None \<Rightarrow> None | Some bs \<Rightarrow> Some (slice_dup v)))"
  by (auto simp: tree_write_def bt.list_ins bt.list_del map_of_al_put map_of_al_del fun_eq_iff split: option.split)

lemma mirrors_write:
  assumes "ht_wf h" "ts < FASTKV_TS_MAX" "btree_wf t" "mirrors t h"
  shows "mirrors (tree_write t k v) (ht_write h ts k v)"
proof -
  have "(case v of None \<Rightarrow> None | Some bs \<Rightarrow> Some (slice_dup v)) = Some (Some bs) \<longleftrightarrow> slice_dup v = Some bs" for bs
    by (cases v) auto
  then show ?thesis
    using assms(4) unfolding mirrors_def latest_write [OF assms(1,2)] tree_write_map_of [OF assms(3)] by auto
qed

lemma store_entry_core:
  assumes "core_ok ts db" "ts < FASTKV_TS_MAX" "env_ok (w_ht env)"
  shows "core_ok ts (store_entry env db e ts)"
proof -
  have c: "ht_wf (tbl db)" "ht_upto (tbl db) ts" "btree_wf (tree db)" "mirrors (tree db) (tbl db)"
    using assms(1) by (simp_all add: core_ok_def)
  obtain m where m: "ttl_rel (dttl db) m" using assms(1) by (auto simp: core_ok_def)
  have "\<exists>m. ttl_rel (dttl (store_entry env db e ts)) m"
    using m remove_rel [OF m] by (cases "wvalue e") (auto simp: store_entry_def Let_def)
  then show ?thesis
    using store_entry_tbl [OF assms, of e] store_entry_tree [of env db e ts] hts.wf_write [OF c(1,2) assms(2)]
      hts.upto_write [OF c(1,2) assms(2)] mirrors_write [OF c(1) assms(2) c(3,4)] tree_write_wf [OF c(3)]
    by (simp add: core_ok_def)
qed

section \<open>Committing\<close>

abbreviation wpairs :: "write_entry list \<Rightarrow> (bytes \<times> slice) list" where
  "wpairs es \<equiv> map (\<lambda>e. (wkey e, wvalue e)) es"

abbreviation ht_writes :: "fastkv_ts \<Rightarrow> ht \<Rightarrow> (bytes \<times> slice) list \<Rightarrow> ht" where
  "ht_writes ts h ws \<equiv> foldl (\<lambda>st (k, v). ht_write st ts k v) h ws"

text \<open>
  What applying a write set does to the table: the entries in list order, all of them when it succeeds, the ones
  before the failed append otherwise.
\<close>

lemma apply_entries_tbl:
  assumes "apply_entries os env i db es ts = (rc, db')" "core_ok ts db" "ts < FASTKV_TS_MAX" "envs_ok env"
  shows "core_ok ts db' \<and> dmgr db' = dmgr db \<and> opts db' = opts db
    \<and> (\<exists>applied rest. es = applied @ rest \<and> tbl db' = ht_writes ts (tbl db) (wpairs applied)
         \<and> (rc = FASTKV_OK \<longleftrightarrow> rest = []))"
  using assms(1,2)
proof (induction es arbitrary: i db)
  case (Cons e es)
  obtain rc1 db1 where l: "log_entry os (env i) db e ts = (rc1, db1)" by force
  then obtain w d srv where db1: "db1 = db\<lparr>dwal := w, dsk := d, repl_srv := srv\<rparr>" by (rule log_entry_frame)
  have c1: "core_ok ts db1" using Cons.prems(2) by (simp add: db1 core_ok_def)
  show ?case
  proof (cases "rc1 = FASTKV_OK")
    case False
    then have "rc = rc1" "db' = db1" using Cons.prems(1) l by auto
    then have "e # es = [] @ (e # es) \<and> tbl db' = ht_writes ts (tbl db) (wpairs []) \<and> (rc = FASTKV_OK \<longleftrightarrow> e # es = [])"
      using False by (simp add: db1)
    then have "\<exists>applied rest. e # es = applied @ rest \<and> tbl db' = ht_writes ts (tbl db) (wpairs applied)
         \<and> (rc = FASTKV_OK \<longleftrightarrow> rest = [])" by blast
    with \<open>db' = db1\<close> c1 show ?thesis by (simp add: db1)
  next
    case True
    let ?db2 = "store_entry (env i) db1 e ts"
    have e: "env_ok (w_ht (env i))" using assms(4) by (simp add: envs_ok_def)
    have "apply_entries os env (Suc i) ?db2 es ts = (rc, db')" using Cons.prems(1) l True by simp
    moreover note store_entry_core [OF c1 assms(3) e]
    ultimately have IH: "core_ok ts db' \<and> dmgr db' = dmgr ?db2 \<and> opts db' = opts ?db2 \<and>
        (\<exists>applied rest. es = applied @ rest \<and> tbl db' = ht_writes ts (tbl ?db2) (wpairs applied)
           \<and> (rc = FASTKV_OK \<longleftrightarrow> rest = []))"
      by (rule Cons.IH)
    have "dmgr ?db2 = dmgr db" "opts ?db2 = opts db" by (simp_all add: store_entry_def Let_def db1)
    moreover have "tbl ?db2 = ht_write (tbl db) ts (wkey e) (wvalue e)"
      using store_entry_tbl [OF c1 assms(3) e] by (simp add: db1)
    moreover from IH obtain applied rest where "es = applied @ rest"
        "tbl db' = ht_writes ts (tbl ?db2) (wpairs applied)" "rc = FASTKV_OK \<longleftrightarrow> rest = []" by blast
    ultimately show ?thesis using IH by (intro conjI exI [of _ "e # applied"] exI [of _ rest]) simp_all
  qed
qed auto

lemma clock_room: "c < FASTKV_TS_MAX \<Longrightarrow> 0 < c + 1 \<and> c + 1 - 1 = c \<and> c \<le> c + 1" for c :: fastkv_ts
  by (simp add: FASTKV_TS_MAX_def word_less_nat_alt word_le_nat_alt unat_word_ariths)

lemma clock_pred: "0 < c \<Longrightarrow> c - 1 \<le> c \<and> c - 1 < c" for c :: fastkv_ts
proof -
  assume "0 < c"
  then have "c \<noteq> 0" by auto
  then have "unat (c - 1) = unat c - 1" "0 < unat c" by (simp_all add: unat_minus_one unat_gt_0)
  then show ?thesis by (simp add: word_less_nat_alt word_le_nat_alt)
qed

definition committing :: "txn \<Rightarrow> bool" where
  "committing txn \<longleftrightarrow> writable txn \<and> write_head txn \<noteq> []"

text \<open>The outcomes of a commit that has something to write.\<close>

lemma commit_effect:
  assumes "db_ok db" "db_clock db < FASTKV_TS_MAX" "envs_ok env" "committing txn"
    "fastkv_txn_commit os env db txn = (rc, db', t)"
  shows "db_ok db' \<and> opts db' = opts db
    \<and> (\<exists>applied rest. write_head txn = applied @ rest
         \<and> tbl db' = ht_writes (db_clock db) (tbl db) (wpairs applied) \<and> (rc = FASTKV_OK \<longleftrightarrow> rest = []))
    \<and> (rc = FASTKV_OK \<longrightarrow> db_clock db' = db_clock db + 1)"
proof -
  let ?ts = "db_clock db" and ?ck = "fastkv_db_check_conflicts db (write_head txn) (txn_begin_ts txn)"
  have a: "txn_state txn = TXN_ACTIVE" "\<not> txn_read_only txn" "write_head txn \<noteq> []"
    using assms(4) by (simp_all add: committing_def writable_def)
  have core: "core_ok ?ts db" "0 < ?ts" using assms(1) core_ok_mono clock_pred by (auto simp: db_ok_def)
  obtain rc1 db1 where ap: "fastkv_db_apply_write_set os env db (write_head txn) ?ts = (rc1, db1)" by force
  note eff = apply_entries_tbl [OF ap [unfolded fastkv_db_apply_write_set_def] core(1) assms(2,3)]
  show ?thesis
  proof (cases "?ck = FASTKV_OK")
    case False
    then have "rc = ?ck" "tbl db' = tbl db" "opts db' = opts db" "db_clock db' = ?ts" "tree db' = tree db" "dttl db' = dttl db"
      using assms(5) a
      by (auto simp: fastkv_txn_commit_def fastkv_txn_mgr_commit_def fastkv_txn_mgr_abort_def
          fastkv_oracle_release_def Let_def split: if_splits)
    moreover from this have "db_ok db'" using assms(1) by (simp add: db_ok_def core_ok_def)
    ultimately show ?thesis using False a(3) by (intro conjI exI [of _ "[]"] exI [of _ "write_head txn"]) auto
  next
    case True
    then have "rc = rc1 \<and> opts db' = opts db1 \<and> tbl db' = tbl db1 \<and> tree db' = tree db1 \<and> dttl db' = dttl db1 \<and> db_clock db' = ?ts + 1"
      using assms(5) a ap
      by (auto simp: fastkv_txn_commit_def fastkv_txn_mgr_commit_def fastkv_txn_mgr_abort_def fastkv_oracle_commit_def
          fastkv_oracle_release_def Let_def split: if_splits)
    moreover from this have "db_ok db'"
      using eff clock_room [OF assms(2)] by (simp add: db_ok_def core_ok_def)
    ultimately show ?thesis using eff by auto
  qed
qed

lemma commit_ok_tbl:
  assumes "db_ok db" "db_clock db < FASTKV_TS_MAX" "envs_ok env" "committing txn"
    "fastkv_txn_commit os env db txn = (FASTKV_OK, db', t)"
  shows "db_ok db' \<and> tbl db' = ht_writes (db_clock db) (tbl db) (wpairs (write_head txn))
    \<and> db_clock db' = db_clock db + 1 \<and> opts db' = opts db"
  using commit_effect [OF assms] by auto

text \<open>A commit with nothing to write only ends the transaction.\<close>

lemma commit_nothing:
  assumes "txn_state txn = TXN_ACTIVE" "txn_read_only txn \<or> write_head txn = []"
    "fastkv_txn_commit os env db txn = (rc, db', t)"
  shows "rc = FASTKV_OK \<and> (\<exists>mgr. db' = db\<lparr>dmgr := mgr\<rparr> \<and> clock (mgr_oracle mgr) = db_clock db)"
  using assms by (auto simp: fastkv_txn_commit_def fastkv_txn_mgr_commit_def fastkv_oracle_release_def Let_def)

lemma db_ok_mgr: "clock (mgr_oracle mgr) = db_clock db \<Longrightarrow> db_ok (db\<lparr>dmgr := mgr\<rparr>) = db_ok db"
  by (simp add: db_ok_def core_ok_def)

text \<open>A begin advances the clock and touches nothing else.\<close>

lemma begin_effect:
  assumes "fastkv_txn_begin env db ro = (r, db')"
  shows "\<exists>mgr. db' = db\<lparr>dmgr := mgr\<rparr> \<and>
    (case r of Inl _ \<Rightarrow> mgr = dmgr db
     | Inr txn \<Rightarrow> clock (mgr_oracle mgr) = db_clock db + 1 \<and> txn_begin_ts txn = db_clock db \<and> txn_state txn = TXN_ACTIVE
         \<and> txn_read_only txn = ro \<and> write_head txn = [])"
proof (cases "\<not> ro \<and> opt_read_only (opts db)")
  case True
  then show ?thesis using assms by (auto simp: fastkv_txn_begin_def intro!: exI [of _ "dmgr db"])
next
  case False
  then obtain mgr where m: "fastkv_txn_mgr_begin env (dmgr db) ro = (r, mgr)" "db' = db\<lparr>dmgr := mgr\<rparr>"
    using assms by (auto simp: fastkv_txn_begin_def split: prod.splits)
  show ?thesis
    using m by (intro exI [of _ mgr])
      (auto simp: fastkv_txn_mgr_begin_def fastkv_oracle_begin_def Let_def split: if_splits option.splits)
qed

definition begin_ok :: "begin_env \<Rightarrow> bool" where
  "begin_ok env \<longleftrightarrow> txn_ok env \<and> arena_a_ok env \<and> arena_mem env \<noteq> None"

lemma begin_succeeds:
  assumes "begin_ok env" "ro \<or> \<not> opt_read_only (opts db)"
  shows "\<exists>txn db'. fastkv_txn_begin env db ro = (Inr txn, db')"
  using assms
  by (auto simp: fastkv_txn_begin_def fastkv_txn_mgr_begin_def begin_ok_def fastkv_arena_create_def block_new_def
      FASTKV_ARENA_DEFAULT_BLOCK_def Let_def split: prod.split option.split)

lemma begin_db_ok:
  assumes "db_ok db" "db_clock db < FASTKV_TS_MAX" "fastkv_txn_begin env db ro = (r, db')"
  shows "db_ok db' \<and> tbl db' = tbl db \<and> opts db' = opts db
    \<and> db_clock db' = (case r of Inl _ \<Rightarrow> db_clock db | Inr _ \<Rightarrow> db_clock db + 1)"
proof -
  obtain mgr where m: "db' = db\<lparr>dmgr := mgr\<rparr>"
      "case r of Inl _ \<Rightarrow> mgr = dmgr db | Inr txn \<Rightarrow> clock (mgr_oracle mgr) = db_clock db + 1"
    using begin_effect [OF assms(3)] by (cases r) auto
  have "core_ok (db_clock db) db" using assms(1) core_ok_mono clock_pred by (auto simp: db_ok_def)
  then show ?thesis
    using m assms(1) clock_room [OF assms(2)] by (cases r) (auto simp: db_ok_def core_ok_def)
qed

lemma abort_effect:
  assumes "fastkv_txn_abort db txn = (rc, db', t)"
  shows "\<exists>mgr. db' = db\<lparr>dmgr := mgr\<rparr> \<and> clock (mgr_oracle mgr) = db_clock db"
proof -
  obtain mgr where "fastkv_txn_mgr_abort (dmgr db) txn = (rc, mgr, t)" "db' = db\<lparr>dmgr := mgr\<rparr>"
    using assms by (auto simp: fastkv_txn_abort_def split: prod.splits)
  then show ?thesis
    by (intro exI [of _ mgr]) (auto simp: fastkv_txn_mgr_abort_def fastkv_oracle_release_def split: if_splits)
qed

section \<open>Single operations\<close>

text \<open>A read sees the newest committed value.\<close>

definition latest_get :: "fastkv_db \<Rightarrow> bytes \<Rightarrow> fastkv_err + bytes" where
  "latest_get db key =
     (if length key > FASTKV_MAX_KEY_LEN then Inl FASTKV_ERR_KEYSIZE
      else case latest (tbl db) key of None \<Rightarrow> Inl FASTKV_ERR_NOTFOUND | Some bs \<Rightarrow> Inr bs)"

lemma ht_get_view: "fastkv_ht_get h s key = (case ht_view h s key of None \<Rightarrow> Inl FASTKV_ERR_NOTFOUND | Some bs \<Rightarrow> Inr bs)"
  using chain_get_err [of "buckets h ! bucket_idx h key" s key]
  by (cases "fastkv_ht_get h s key") (auto simp: ht_view_def fastkv_ht_get_def)

lemma db_ok_latest: "db_ok db \<Longrightarrow> db_clock db \<le> s \<Longrightarrow> s < FASTKV_TS_MAX \<Longrightarrow> ht_view (tbl db) s key = latest (tbl db) key"
proof -
  assume a: "db_ok db" "db_clock db \<le> s" "s < FASTKV_TS_MAX"
  let ?c = "db_clock db - 1"
  have h: "ht_wf (tbl db)" "ht_upto (tbl db) ?c" "?c \<le> s"
    using a clock_pred [of "db_clock db"] by (auto simp: db_ok_def core_ok_def)
  have "?c \<le> FASTKV_TS_MAX - 1" "FASTKV_TS_MAX - 1 < FASTKV_TS_MAX" using h(3) a(3) ts_max_pred by auto
  then show ?thesis using view_upto [OF h(1,2)] h(3) a(3) unfolding latest_def by metis
qed

lemma get_latest:
  assumes "db_ok db" "db_clock db < FASTKV_TS_MAX" "begin_ok env"
  shows "fst (fastkv_get env db key) = latest_get db key \<and> db_ok (snd (fastkv_get env db key))
    \<and> tbl (snd (fastkv_get env db key)) = tbl db"
proof -
  obtain txn db1 where b: "fastkv_txn_begin env db True = (Inr txn, db1)" using begin_succeeds [OF assms(3)] by blast
  note e = begin_effect [OF b] and ok = begin_db_ok [OF assms(1,2) b]
  obtain rc db2 t where a: "fastkv_txn_abort db1 txn = (rc, db2, t)" by (cases "fastkv_txn_abort db1 txn")
  have g: "fastkv_get env db key = (fastkv_txn_get db1 txn key, db2)"
    by (simp add: fastkv_get_def b a Let_def)
  have "txn_state txn = TXN_ACTIVE" "write_head txn = []" "txn_begin_ts txn = db_clock db" "tbl db1 = tbl db"
    using e by auto
  then have "fastkv_txn_get db1 txn key = latest_get db key"
    using db_ok_latest [OF assms(1) order_refl assms(2), of key]
    by (simp add: fastkv_txn_get_def fastkv_txn_write_lookup_def ht_get_view latest_get_def)
  moreover have "db_ok db2 \<and> tbl db2 = tbl db1" using abort_effect [OF a] ok db_ok_mgr by auto
  ultimately show ?thesis using g ok by simp
qed

lemma write_add_shape:
  assumes "mems_ok mems" "writable txn" "write_head txn = []" "write_entry_add mems txn key val = (rc, txn1)"
  shows "rc = FASTKV_OK \<and> committing txn1 \<and> write_head txn1 = [\<lparr>wkey = key, wvalue = val\<rparr>]
    \<and> txn_begin_ts txn1 = txn_begin_ts txn"
proof -
  obtain a where "write_entry_add mems txn key val =
      (FASTKV_OK, txn\<lparr>txn_arena := a, write_head := \<lparr>wkey = key, wvalue = val\<rparr> # write_head txn,
                      write_count := write_count txn + 1\<rparr>)"
    using write_entry_add_ok [OF assms(1,2)] .
  with assms(2-4) show ?thesis by (auto simp: committing_def writable_def)
qed

text \<open>Put and delete share their shape; \<open>val\<close> is \<^term>\<open>None\<close> for a deletion.\<close>

definition single_write :: "os \<Rightarrow> op_env \<Rightarrow> fastkv_db \<Rightarrow> bytes \<Rightarrow> slice \<Rightarrow> fastkv_err \<times> fastkv_db" where
  "single_write os env db key val =
     (if val = None then fastkv_delete os env db key else fastkv_put os env db key val)"

definition op_ok :: "op_env \<Rightarrow> bool" where
  "op_ok env \<longleftrightarrow> begin_ok (o_begin env) \<and> mems_ok (o_mems env) \<and> envs_ok (o_write env)"

lemma single_write_cases:
  assumes "op_ok env" "\<not> opt_read_only (opts db)" "length key \<le> FASTKV_MAX_KEY_LEN" "slice_len val \<le> FASTKV_MAX_VAL_LEN"
  obtains txn0 db1 txn where "fastkv_txn_begin (o_begin env) db False = (Inr txn0, db1)"
    "committing txn" "write_head txn = [\<lparr>wkey = key, wvalue = val\<rparr>]" "txn_begin_ts txn = db_clock db"
    "single_write os env db key val
       = (case fastkv_txn_commit os (o_write env) db1 txn of (rc', db2, _) \<Rightarrow> (rc', db2))"
proof -
  obtain txn0 db1 where b: "fastkv_txn_begin (o_begin env) db False = (Inr txn0, db1)"
    using begin_succeeds [of "o_begin env" False db] assms(1,2) by (auto simp: op_ok_def)
  have w: "writable txn0" "write_head txn0 = []" using begin_effect [OF b] by (auto simp: writable_def)
  obtain rc txn where t: "write_entry_add (o_mems env) txn0 key val = (rc, txn)" by force
  then have s: "rc = FASTKV_OK" "committing txn" "write_head txn = [\<lparr>wkey = key, wvalue = val\<rparr>]"
      "txn_begin_ts txn = db_clock db"
    using write_add_shape [OF _ w t] assms(1) begin_effect [OF b] by (auto simp: op_ok_def)
  show thesis
    by (rule that [OF b s(2-4)])
      (use assms(3,4) b t s(1) in \<open>auto simp: single_write_def fastkv_put_def fastkv_delete_def fastkv_txn_put_def
        fastkv_txn_delete_def fastkv_txn_write_put_def fastkv_txn_write_delete_def\<close>)
qed

lemma single_write_effect:
  assumes "db_ok db" "db_clock db + 1 < FASTKV_TS_MAX" "db_clock db < FASTKV_TS_MAX" "op_ok env" "\<not> opt_read_only (opts db)"
    "length key \<le> FASTKV_MAX_KEY_LEN" "slice_len val \<le> FASTKV_MAX_VAL_LEN" "single_write os env db key val = (rc, db')"
  shows "db_ok db' \<and> opts db' = opts db
    \<and> tbl db' = (if rc = FASTKV_OK then ht_write (tbl db) (db_clock db + 1) key val else tbl db)
    \<and> (rc = FASTKV_OK \<longrightarrow> db_clock db' = db_clock db + 2)"
proof (rule single_write_cases [OF assms(4-7), of os])
  fix txn0 db1 txn
  assume b: "fastkv_txn_begin (o_begin env) db False = (Inr txn0, db1)" and c: "committing txn"
    and h: "write_head txn = [\<lparr>wkey = key, wvalue = val\<rparr>]"
    and s: "single_write os env db key val = (case fastkv_txn_commit os (o_write env) db1 txn of (rc', db2, _) \<Rightarrow> (rc', db2))"
  obtain t where k: "fastkv_txn_commit os (o_write env) db1 txn = (rc, db', t)"
    using s assms(8) by (cases "fastkv_txn_commit os (o_write env) db1 txn") auto
  have d1: "db_ok db1" "tbl db1 = tbl db" "opts db1 = opts db" "db_clock db1 = db_clock db + 1"
    using begin_db_ok [OF assms(1,3) b] by auto
  have e: "envs_ok (o_write env)" using assms(4) by (simp add: op_ok_def)
  have "db_clock db1 < FASTKV_TS_MAX" using d1(4) assms(2) by simp
  note eff = commit_effect [OF d1(1) this e c k]
  from eff obtain applied rest where ar: "[\<lparr>wkey = key, wvalue = val\<rparr>] = applied @ rest"
    "tbl db' = ht_writes (db_clock db1) (tbl db1) (wpairs applied)" "rc = FASTKV_OK \<longleftrightarrow> rest = []"
    using h by auto
  then have "applied = (if rc = FASTKV_OK then [\<lparr>wkey = key, wvalue = val\<rparr>] else [])"
    by (cases applied) auto
  then show ?thesis using eff ar(2) d1 by simp
qed

text \<open>Room for \<open>n\<close> more timestamps.\<close>

definition room :: "nat \<Rightarrow> fastkv_db \<Rightarrow> bool" where
  "room n db \<longleftrightarrow> unat (db_clock db) + n < unat FASTKV_TS_MAX"

lemma room_mono: "room n db \<Longrightarrow> m \<le> n \<Longrightarrow> room m db"
  by (simp add: room_def)

lemma room_add: "room n db \<Longrightarrow> unat (db_clock db + of_nat n) = unat (db_clock db) + n"
  by (simp add: room_def FASTKV_TS_MAX_def unat_word_ariths unsigned_of_nat take_bit_nat_eq_self)

lemma room_less: "room n db \<Longrightarrow> db_clock db + of_nat n < FASTKV_TS_MAX"
  using room_add [of n db] by (simp add: room_def word_less_nat_alt)

lemma room_clock: "room n db \<Longrightarrow> db_clock db < FASTKV_TS_MAX"
  by (simp add: room_def word_less_nat_alt)

lemma room_shift: "room (m + n) db \<Longrightarrow> db_clock db' = db_clock db + of_nat m \<Longrightarrow> room n db'"
  using room_add [of m db] by (simp add: room_def)

lemma single_write_reads:
  assumes "db_ok db" "room 2 db" "op_ok env" "begin_ok benv" "\<not> opt_read_only (opts db)"
    "length key \<le> FASTKV_MAX_KEY_LEN" "slice_len val \<le> FASTKV_MAX_VAL_LEN" "single_write os env db key val = (FASTKV_OK, db')"
  shows "db_ok db' \<and> fst (fastkv_get benv db' k) =
    (if k = key then (case slice_dup val of None \<Rightarrow> Inl FASTKV_ERR_NOTFOUND | Some v \<Rightarrow> Inr v)
     else fst (fastkv_get benv db k))"
proof -
  have r: "db_clock db < FASTKV_TS_MAX" "db_clock db + 1 < FASTKV_TS_MAX" "db_clock db + 2 < FASTKV_TS_MAX"
    using room_less [of 1 db] room_less [of 2 db] room_clock room_mono [OF assms(2), of 1] assms(2) by auto
  note e = single_write_effect [OF assms(1) r(2,1) assms(3,5-8)]
  have wf: "ht_wf (tbl db)" using assms(1) by (simp add: db_ok_def core_ok_def)
  have "db_ok db'" "db_clock db' < FASTKV_TS_MAX" "tbl db' = ht_write (tbl db) (db_clock db + 1) key val"
    using e r(3) by auto
  then show ?thesis
    using get_latest [of db' benv k] get_latest [OF assms(1) r(1) assms(4), of k] assms(4,6) latest_write [OF wf r(2)]
    by (auto simp: latest_get_def)
qed

lemma single_write_put: "single_write os env db key (Some v) = fastkv_put os env db key (Some v)"
  and single_write_delete: "single_write os env db key None = fastkv_delete os env db key"
  by (simp_all add: single_write_def)

text \<open>The write set as log records.\<close>

definition wrecs :: "fastkv_ts \<Rightarrow> write_entry list \<Rightarrow> wrec list" where
  "wrecs ts es = map (\<lambda>e. (if wvalue e \<noteq> None then WAL_REC_PUT else WAL_REC_DELETE, ts, wkey e, wvalue e)) es"

lemma wrecs_simps [simp]:
  "wrecs ts [] = []"
  "wrecs ts (e # es) = (if wvalue e \<noteq> None then WAL_REC_PUT else WAL_REC_DELETE, ts, wkey e, wvalue e) # wrecs ts es"
  by (simp_all add: wrecs_def)

definition db_log :: "bytes \<Rightarrow> fastkv_db \<Rightarrow> bool" where
  "db_log s db \<longleftrightarrow> (case dwal db of None \<Rightarrow> True | Some w \<Rightarrow> wal_log s w (dsk db))"

lemma length_rec_enc: "length (rec_enc ty ts key val) = WAL_HEADER_SIZE + length key + slice_len val"
  by (simp add: rec_enc_body length_rec_body WAL_HEADER_SIZE_def)

lemma log_entry_healthy:
  assumes "healthy os" "db_log s db" "length s + WAL_HEADER_SIZE + length (wkey e) + slice_len (wvalue e) \<le> INT64_MAX"
  shows "fst (log_entry os env db e ts) = FASTKV_OK"
proof (cases "dwal db")
  case (Some w)
  then have "wal_log s w (dsk db)" using assms(2) by (simp add: db_log_def)
  then have "fst (fastkv_wal_append os (w_tmp env) w (dsk db) (if wvalue e \<noteq> None then WAL_REC_PUT else WAL_REC_DELETE)
      ts (wkey e) (wvalue e)) = FASTKV_OK"
    using append_healthy [OF assms(1)] assms(3) by (simp add: length_rec_enc)
  then show ?thesis by (auto simp: log_entry_def Some split: prod.split)
qed (simp add: log_entry_def)

text \<open>A transaction that has just begun cannot conflict.\<close>

lemma no_conflict_fresh:
  assumes "\<forall>v \<in> set vs. begin_ts v \<le> b"
  shows "\<not> chain_conflict vs key b"
  using assms by (induction vs) (auto simp: not_less)

lemma check_fresh:
  assumes "ht_wf (tbl db)" "ht_upto (tbl db) b"
  shows "fastkv_db_check_conflicts db es b = FASTKV_OK"
proof (induction es)
  case (Cons e es)
  have "buckets (tbl db) ! bucket_idx (tbl db) (wkey e) \<in> set (buckets (tbl db))"
    using bucket_idx_less [OF assms(1)] assms(1) by (simp add: ht_wf_def)
  then show ?case using Cons no_conflict_fresh assms(2) by (simp add: ht_upto_def)
qed simp

lemma commit_no_conflict:
  assumes "committing txn" "fastkv_db_check_conflicts db (write_head txn) (txn_begin_ts txn) = FASTKV_OK"
  shows "fst (fastkv_txn_commit os env db txn) = fst (apply_entries os env 0 db (write_head txn) (db_clock db))"
  using assms
  by (auto simp: fastkv_txn_commit_def fastkv_txn_mgr_commit_def fastkv_txn_mgr_abort_def fastkv_oracle_commit_def
      fastkv_db_apply_write_set_def committing_def writable_def Let_def split: prod.split)

lemma single_write_healthy:
  assumes "db_ok db" "room 2 db" "op_ok env" "\<not> opt_read_only (opts db)" "length key \<le> FASTKV_MAX_KEY_LEN"
    "slice_len val \<le> FASTKV_MAX_VAL_LEN" "healthy os" "db_log s db"
    "length s + WAL_HEADER_SIZE + length key + slice_len val \<le> INT64_MAX"
  shows "fst (single_write os env db key val) = FASTKV_OK"
proof (rule single_write_cases [OF assms(3-6), of os])
  fix txn0 db1 txn
  assume b: "fastkv_txn_begin (o_begin env) db False = (Inr txn0, db1)" and c: "committing txn"
    and h: "write_head txn = [\<lparr>wkey = key, wvalue = val\<rparr>]" "txn_begin_ts txn = db_clock db"
    and s: "single_write os env db key val = (case fastkv_txn_commit os (o_write env) db1 txn of (rc', db2, _) \<Rightarrow> (rc', db2))"
  obtain mgr where m: "db1 = db\<lparr>dmgr := mgr\<rparr>" using begin_effect [OF b] by blast
  have "ht_wf (tbl db1)" "ht_upto (tbl db1) (txn_begin_ts txn)"
    using assms(1) clock_pred [of "db_clock db"] hts.upto_mono by (auto simp: db_ok_def core_ok_def m h(2))
  then have "fst (fastkv_txn_commit os (o_write env) db1 txn)
      = fst (apply_entries os (o_write env) 0 db1 (write_head txn) (db_clock db1))"
    by (intro commit_no_conflict [OF c] check_fresh)
  also have "\<dots> = FASTKV_OK"
  proof -
    obtain rc db2 where l: "log_entry os (o_write env 0) db1 \<lparr>wkey = key, wvalue = val\<rparr> (db_clock db1) = (rc, db2)" by force
    moreover have "db_log s db1" using assms(8) by (simp add: db_log_def m split: option.splits)
    ultimately have "rc = FASTKV_OK"
      using log_entry_healthy [OF assms(7), of s db1 "\<lparr>wkey = key, wvalue = val\<rparr>"] assms(9) by (metis fst_conv write_entry.select_convs(1,2))
    with l show ?thesis by (simp add: h(1))
  qed
  finally show ?thesis by (cases "fastkv_txn_commit os (o_write env) db1 txn") (simp add: s)
qed

section \<open>Properties of single operations\<close>

definition sample_db :: fastkv_db where
  "sample_db =
     \<lparr>opts = \<lparr>map_size = 1, arena_size = 65536, opt_sync_writes = True, opt_read_only = False\<rparr>,
      dmgr = fastkv_txn_mgr_init, tbl = \<lparr>buckets = [[]], capacity = 1, num_keys = 0, num_versions = 0\<rparr>,
      dwal = None, dsk = \<lparr>files = Map.empty, durable = Map.empty, calls = 0\<rparr>, tree = fastkv_btree_create,
      indexes = [], dttl = fastkv_ttl_init, snapshot_ts = 0, stat_num_keys = 0, stat_snapshot_count = 0,
      uuid7 = sample_ctx, repl_srv = None, repl_cli = None\<rparr>"

definition sample_begin :: begin_env where
  "sample_begin = \<lparr>txn_ok = True, arena_a_ok = True, arena_mem = Some 0x10000\<rparr>"

definition sample_op :: op_env where
  "sample_op = \<lparr>o_begin = sample_begin, o_mems = (Some 0x20000, Some 0x30000, Some 0x40000),
                o_write = (\<lambda>_. \<lparr>w_ht = mem_ok, w_tmp = True, w_frames = (\<lambda>_. (True, True))\<rparr>)\<rparr>"

lemma sample_env_ok: "op_ok sample_op" "begin_ok sample_begin" "envs_ok (o_write sample_op)"
  by (simp_all add: op_ok_def sample_op_def begin_ok_def sample_begin_def mems_ok_def envs_ok_def)

lemma sample_tbl_ok:
  "ht_wf (tbl sample_db)" "ht_upto (tbl sample_db) c" "latest (tbl sample_db) key = None"
proof -
  have "fastkv_ht_create True True 1 = Some (Inr (tbl sample_db))"
    by (simp add: fastkv_ht_create_def sample_db_def)
  then show "ht_wf (tbl sample_db)" "ht_upto (tbl sample_db) c" "latest (tbl sample_db) key = None"
    using ht_create_wf [of 1] by (auto simp: latest_def)
qed

lemma sample_db_ok: "db_ok sample_db" "room 1000 sample_db" "\<not> opt_read_only (opts sample_db)"
  "dwal sample_db = None" "db_clock sample_db = 1"
proof -
  have "mirrors (tree sample_db) (tbl sample_db)"
    using sample_tbl_ok(3) by (simp add: mirrors_def sample_db_def bt.list_emp)
  then show "db_ok sample_db"
    using sample_tbl_ok(1,2) init_rel
    by (auto simp: db_ok_def core_ok_def sample_db_def fastkv_txn_mgr_init_def fastkv_oracle_init_def bt.inv_emp)
qed (simp_all add: room_def sample_db_def fastkv_txn_mgr_init_def fastkv_oracle_init_def FASTKV_TS_MAX_def)

text \<open>
  Property C7.  A put that returns \<^verbatim>\<open>FASTKV_OK\<close> is read back: with memory for its copies, a put of a non-empty value
  within the size limits, on a well-formed database with room on its clock, is followed by gets that return the value
  for its key and what they returned before for every other key, and leaves the database well formed.
\<close>

theorem db_put_get:
  assumes "db_ok db" "room 2 db" "op_ok env" "begin_ok benv" "\<not> opt_read_only (opts db)"
    "length key \<le> FASTKV_MAX_KEY_LEN" "v \<noteq> []" "length v \<le> FASTKV_MAX_VAL_LEN"
    "fastkv_put os env db key (Some v) = (FASTKV_OK, db')"
  shows "db_ok db' \<and> fst (fastkv_get benv db' k) = (if k = key then Inr v else fst (fastkv_get benv db k))"
proof -
  have "slice_dup (Some v) = Some v" using assms(7) by (cases v) auto
  then show ?thesis
    using single_write_reads [OF assms(1-6), of "Some v" os db' k] assms(8,9) by (simp add: single_write_put)
qed

theorem db_put_get_witness:
  "fst (fastkv_get sample_begin (snd (fastkv_put (\<lambda>_. SysOk) sample_op sample_db [7] (Some [1, 2]))) [7]) = Inr [1, 2]
   \<and> fst (fastkv_get sample_begin (snd (fastkv_put (\<lambda>_. SysOk) sample_op sample_db [7] (Some [1, 2]))) [8])
       = Inl FASTKV_ERR_NOTFOUND"
proof -
  let ?r = "fastkv_put (\<lambda>_. SysOk) sample_op sample_db [7] (Some [1, 2])"
  have r2: "room 2 sample_db" using sample_db_ok(2) room_mono by simp
  have "fst ?r = FASTKV_OK"
    using single_write_healthy [OF sample_db_ok(1) r2 sample_env_ok(1) sample_db_ok(3), of "[7]" "Some [1, 2]" "\<lambda>_. SysOk" "[]"]
    by (simp add: single_write_put healthy_def db_log_def sample_db_ok(4) FASTKV_MAX_KEY_LEN_def FASTKV_MAX_VAL_LEN_def
        WAL_HEADER_SIZE_def INT64_MAX_def)
  then have p: "?r = (FASTKV_OK, snd ?r)" by (metis prod.collapse)
  have "fst (fastkv_get sample_begin (snd ?r) k) = (if k = [7] then Inr [1, 2] else fst (fastkv_get sample_begin sample_db k))" for k
    using db_put_get [OF sample_db_ok(1) r2 sample_env_ok(1,2) sample_db_ok(3) _ _ _ p]
    by (simp add: FASTKV_MAX_KEY_LEN_def FASTKV_MAX_VAL_LEN_def)
  moreover have "fst (fastkv_get sample_begin sample_db [8]) = Inl FASTKV_ERR_NOTFOUND"
    using get_latest [OF sample_db_ok(1) room_clock [OF r2] sample_env_ok(2), of "[8]"] sample_tbl_ok(3)
    by (simp add: latest_get_def FASTKV_MAX_KEY_LEN_def)
  ultimately show ?thesis by simp
qed

text \<open>
  A delete that returns \<^verbatim>\<open>FASTKV_OK\<close> makes its key unreadable and leaves what gets return for every other
  key as it was; deleting a key that does not exist succeeds too.
\<close>

lemma db_delete_get:
  assumes "db_ok db" "room 2 db" "op_ok env" "begin_ok benv" "\<not> opt_read_only (opts db)"
    "length key \<le> FASTKV_MAX_KEY_LEN" "fastkv_delete os env db key = (FASTKV_OK, db')"
  shows "db_ok db' \<and> fst (fastkv_get benv db' k)
    = (if k = key then Inl FASTKV_ERR_NOTFOUND else fst (fastkv_get benv db k))"
  using single_write_reads [OF assms(1-6), of None os db' k] assms(7) by (simp add: single_write_delete)

lemma db_delete_get_example:
  "fst (fastkv_get sample_begin (snd (fastkv_delete (\<lambda>_. SysOk) sample_op sample_db [7])) [7]) = Inl FASTKV_ERR_NOTFOUND"
proof -
  let ?r = "fastkv_delete (\<lambda>_. SysOk) sample_op sample_db [7]"
  have r2: "room 2 sample_db" using sample_db_ok(2) room_mono by simp
  have "fst ?r = FASTKV_OK"
    using single_write_healthy [OF sample_db_ok(1) r2 sample_env_ok(1) sample_db_ok(3), of "[7]" None "\<lambda>_. SysOk" "[]"]
    by (simp add: single_write_delete healthy_def db_log_def sample_db_ok(4) FASTKV_MAX_KEY_LEN_def
        WAL_HEADER_SIZE_def INT64_MAX_def)
  then have p: "?r = (FASTKV_OK, snd ?r)" by (metis prod.collapse)
  show ?thesis
    using db_delete_get [OF sample_db_ok(1) r2 sample_env_ok(1,2) sample_db_ok(3) _ p, of "[7]"]
    by (simp add: FASTKV_MAX_KEY_LEN_def)
qed


end
