(* ===== verification/Commit.thy ===== *)
theory Commit
  imports Db
begin

text \<open>
  Transactions on the database of the theory \<open>Db\<close>: what a commit makes visible, when it is refused, and what it does
  to the secondary indexes and the key counter.

  Shown here: a commit of distinct keys is visible as a whole from its timestamp on and not before; the conflict check
  is exact on chains that are newest first, which every write keeps, and of two overlapping writers of a key the second
  is refused; indexes and counter follow the table.  Three behaviours differ from what the comments promise: of two
  writes of one key in a transaction the older one wins, a failing append leaves the writes before it in place, and
  garbage collection, which reverses chains, can hide a conflict.
\<close>

section \<open>Views after a batch of writes\<close>

lemma map_of_rev_distinct: "distinct (map fst xs) \<Longrightarrow> map_of (rev xs) = map_of xs"
  using map_of_inject_set [of "rev xs" xs] by (simp add: distinct_rev rev_map [symmetric])

lemma writes_view:
  assumes "core_ok c db" "c < FASTKV_TS_MAX" "s < FASTKV_TS_MAX"
  shows "ht_view (ht_writes c (tbl db) ws) s k =
    (if c \<le> s then case map_of (rev ws) k of Some v \<Rightarrow> slice_dup v | None \<Rightarrow> ht_view (tbl db) s k
     else ht_view (tbl db) s k)"
  using assms hts.view_writes [of "tbl db" c s ws k] by (simp add: core_ok_def)

lemma db_ok_core: "db_ok db \<Longrightarrow> core_ok (db_clock db) db"
  using core_ok_mono clock_pred by (auto simp: db_ok_def)

lemma writes_latest:
  assumes "core_ok c db" "c < FASTKV_TS_MAX"
  shows "latest (ht_writes c (tbl db) ws) k =
    (case map_of (rev ws) k of Some v \<Rightarrow> slice_dup v | None \<Rightarrow> latest (tbl db) k)"
  unfolding latest_def using writes_view [OF assms, of "FASTKV_TS_MAX - 1"] assms(2) ts_max_pred by auto

section \<open>The first version of a key\<close>

definition first_ts :: "ht \<Rightarrow> bytes \<Rightarrow> fastkv_ts option" where
  "first_ts h k = map_option begin_ts (find (\<lambda>v. vkey v = k) (buckets h ! bucket_idx h k))"

lemma chain_conflict_find:
  "chain_conflict vs k b \<longleftrightarrow> (case find (\<lambda>v. vkey v = k) vs of None \<Rightarrow> False | Some v \<Rightarrow> begin_ts v > b)"
  by (induction vs) auto

lemma conflict_first_ts:
  "chain_conflict (buckets h ! bucket_idx h k) k b \<longleftrightarrow> (case first_ts h k of None \<Rightarrow> False | Some t \<Rightarrow> t > b)"
  by (simp add: chain_conflict_find first_ts_def split: option.split)

lemma find_seal:
  "map_option begin_ts (find (\<lambda>v. vkey v = k) (seal c key vs)) = map_option begin_ts (find (\<lambda>v. vkey v = k) vs)"
  by (induction vs) auto

lemma buckets_write:
  "buckets (ht_write h c k v) =
     (buckets h)[bucket_idx h k := new_version c k v # seal c k (buckets h ! bucket_idx h k)]"
  "bucket_idx (ht_write h c k v) = bucket_idx h"
  by (simp_all add: ht_write_def insert_version_ok mem_ok_def env_ok_def)

lemma first_ts_write:
  assumes "ht_wf h"
  shows "first_ts (ht_write h c k v) k' = (if k' = k then Some c else first_ts h k')"
proof -
  have len: "bucket_idx h x < length (buckets h)" for x
    using bucket_idx_less [OF assms, of x] assms by (simp add: ht_wf_def)
  show ?thesis
  proof (cases "bucket_idx h k' = bucket_idx h k")
    case True
    then show ?thesis
      using len [of k] by (auto simp: first_ts_def buckets_write find_seal)
  next
    case False
    then have "k' \<noteq> k" by auto
    with False show ?thesis by (simp add: first_ts_def buckets_write)
  qed
qed

lemma first_ts_writes:
  assumes "ht_wf h" "ht_upto h c" "c < FASTKV_TS_MAX"
  shows "first_ts (ht_writes c h ws) k = (if k \<in> fst ` set ws then Some c else first_ts h k)"
proof (induction ws rule: rev_induct)
  case (snoc w ws)
  have "ht_wf (ht_writes c h ws)" using hts.wf_writes [OF assms] by simp
  then show ?case using snoc by (cases w) (auto simp: first_ts_write)
qed simp

lemma check_conflicts_iff:
  "fastkv_db_check_conflicts db es b =
     (if \<exists>e \<in> set es. \<exists>t > b. first_ts (tbl db) (wkey e) = Some t then FASTKV_ERR_TXN_CONFLICT else FASTKV_OK)"
  by (induction es) (auto simp: conflict_first_ts split: option.splits)

lemma commit_conflict:
  assumes "committing txn" "fastkv_db_check_conflicts db (write_head txn) (txn_begin_ts txn) = FASTKV_ERR_TXN_CONFLICT"
  shows "fst (fastkv_txn_commit os env db txn) = FASTKV_ERR_TXN_CONFLICT"
  using assms
  by (auto simp: fastkv_txn_commit_def fastkv_txn_mgr_commit_def fastkv_txn_mgr_abort_def committing_def writable_def
      Let_def split: prod.split)

section \<open>Newest first\<close>

definition newest_first :: "ht \<Rightarrow> bool" where
  "newest_first h \<longleftrightarrow> (\<forall>vs \<in> set (buckets h). sorted_wrt (\<lambda>v w. vkey v = vkey w \<longrightarrow> begin_ts w \<le> begin_ts v) vs)"

lemma newest_map:
  "sorted_wrt (\<lambda>v w. vkey v = vkey w \<longrightarrow> begin_ts w \<le> begin_ts v) us \<longleftrightarrow>
     sorted_wrt (\<lambda>x y. fst x = fst y \<longrightarrow> snd y \<le> snd x) (map (\<lambda>v. (vkey v, begin_ts v)) us)"
  by (simp add: sorted_wrt_map)

lemma seal_map: "map (\<lambda>v. (vkey v, begin_ts v)) (seal c key vs) = map (\<lambda>v. (vkey v, begin_ts v)) vs"
  by (induction vs) auto

lemma newest_first_write:
  assumes "ht_wf h" "ht_upto h c" "c < FASTKV_TS_MAX" "newest_first h"
  shows "newest_first (ht_write h c k v)"
proof -
  let ?vs = "buckets h ! bucket_idx h k"
  have i: "?vs \<in> set (buckets h)" using bucket_idx_less [OF assms(1)] assms(1) by (simp add: ht_wf_def)
  have "begin_ts w \<le> c" if "w \<in> set (seal c k ?vs)" for w
    using seal_in [OF that] assms(2) i by (auto simp: ht_upto_def)
  then have "sorted_wrt (\<lambda>v w. vkey v = vkey w \<longrightarrow> begin_ts w \<le> begin_ts v) (new_version c k v # seal c k ?vs)"
    using assms(4) i newest_map [of "seal c k ?vs"] newest_map [of ?vs] by (auto simp: newest_first_def seal_map)
  then show ?thesis
    using assms(4) by (auto simp: newest_first_def buckets_write dest!: set_update_subset_insert [THEN subsetD])
qed

lemma newest_first_writes:
  assumes "ht_wf h" "ht_upto h c" "c < FASTKV_TS_MAX" "newest_first h"
  shows "newest_first (ht_writes c h ws)"
proof (induction ws rule: rev_induct)
  case (snoc w ws)
  then show ?case using hts.wf_writes [OF assms(1-3), of ws] newest_first_write assms(3) by (cases w) simp
qed (simp add: assms(4))

lemma newest_first_max:
  "sorted_wrt (\<lambda>v w. vkey v = vkey w \<longrightarrow> begin_ts w \<le> begin_ts v) vs \<Longrightarrow>
   (case find (\<lambda>v. vkey v = k) vs of None \<Rightarrow> False | Some v \<Rightarrow> begin_ts v > b) \<longleftrightarrow> (\<exists>v \<in> set vs. vkey v = k \<and> begin_ts v > b)"
  by (induction vs) (auto dest: order.strict_trans2)

section \<open>Visibility\<close>

text \<open>
  Property C2.  A commit is visible as a whole: when committing a transaction that wrote distinct keys returns
  \<^verbatim>\<open>FASTKV_OK\<close>, every snapshot from the commit timestamp on sees exactly its writes over the previous contents, every
  earlier snapshot sees none of them, and the database stays well formed.
\<close>

theorem commit_visibility:
  assumes "db_ok db" "db_clock db < FASTKV_TS_MAX" "envs_ok env" "committing txn"
    "distinct (map wkey (write_head txn))" "fastkv_txn_commit os env db txn = (FASTKV_OK, db', t)" "s < FASTKV_TS_MAX"
  shows "db_ok db' \<and> ht_view (tbl db') s k =
    (if db_clock db \<le> s then (case map_of (wpairs (write_head txn)) k of Some v \<Rightarrow> slice_dup v | None \<Rightarrow> ht_view (tbl db) s k)
     else ht_view (tbl db) s k)"
proof -
  have "distinct (map fst (wpairs (write_head txn)))" using assms(5) by (simp add: comp_def)
  then show ?thesis
    using commit_ok_tbl [OF assms(1-4,6)] writes_view [OF db_ok_core [OF assms(1)] assms(2,7)]
    by (simp add: map_of_rev_distinct)
qed

lemma apply_no_log: "dwal db = None \<Longrightarrow> fst (apply_entries os env i db es ts) = FASTKV_OK"
  by (induction es arbitrary: i db) (simp_all add: log_entry_def store_entry_def Let_def)

lemma commit_no_log:
  assumes "db_ok db" "dwal db = None" "committing txn" "db_clock db \<le> txn_begin_ts txn"
  shows "fst (fastkv_txn_commit os env db txn) = FASTKV_OK"
proof -
  have "ht_wf (tbl db)" "ht_upto (tbl db) (txn_begin_ts txn)"
    using db_ok_core [OF assms(1)] assms(4) hts.upto_mono by (auto simp: core_ok_def)
  then show ?thesis using commit_no_conflict [OF assms(3) check_fresh] apply_no_log [OF assms(2)] by simp
qed

definition pair_txn :: txn where
  "pair_txn = sample_txn\<lparr>write_head := [\<lparr>wkey = [8], wvalue = None\<rparr>, \<lparr>wkey = [7], wvalue = Some [1]\<rparr>]\<rparr>"

lemma pair_txn_ok: "committing pair_txn" "distinct (map wkey (write_head pair_txn))" "txn_begin_ts pair_txn = 5"
  by (simp_all add: pair_txn_def sample_txn_def committing_def writable_def)

theorem commit_visibility_witness:
  "(case fastkv_txn_commit (\<lambda>_. SysOk) (o_write sample_op) sample_db pair_txn of (rc, db', t) \<Rightarrow>
      db_ok db' \<and> ht_view (tbl db') 9 [7] = Some [1] \<and> ht_view (tbl db') 0 [7] = ht_view (tbl sample_db) 0 [7])"
proof -
  let ?r = "fastkv_txn_commit (\<lambda>_. SysOk) (o_write sample_op) sample_db pair_txn"
  have "fst ?r = FASTKV_OK"
    using commit_no_log [OF sample_db_ok(1,4) pair_txn_ok(1)] sample_db_ok(5) pair_txn_ok(3) by simp
  then obtain db' t where r: "?r = (FASTKV_OK, db', t)" by (cases ?r) auto
  have c: "db_clock sample_db < FASTKV_TS_MAX" by (rule room_clock [OF sample_db_ok(2)])
  note v = commit_visibility [OF sample_db_ok(1) c sample_env_ok(3) pair_txn_ok(1,2) r]
  show ?thesis
    using v [of 9 "[7]"] v [of 0 "[7]"] r sample_db_ok(5) by (simp add: pair_txn_def FASTKV_TS_MAX_def)
qed

section \<open>Conflicts\<close>

text \<open>
  Property C6.  The conflict check is exact where chains are newest first: it answers \<^verbatim>\<open>FASTKV_ERR_TXN_CONFLICT\<close> if and
  only if some version of a written key is newer than the transaction's begin timestamp; and every commit, successful
  or not, keeps the chains newest first.
\<close>

theorem conflict_check_exact:
  assumes "ht_wf (tbl db)" "newest_first (tbl db)"
  shows "(fastkv_db_check_conflicts db es b =
      (if \<exists>e \<in> set es. \<exists>v \<in> set (buckets (tbl db) ! bucket_idx (tbl db) (wkey e)). vkey v = wkey e \<and> begin_ts v > b
       then FASTKV_ERR_TXN_CONFLICT else FASTKV_OK))
    \<and> (db_ok db \<longrightarrow> db_clock db < FASTKV_TS_MAX \<longrightarrow> envs_ok env \<longrightarrow> committing txn \<longrightarrow>
        newest_first (tbl (fst (snd (fastkv_txn_commit os env db txn)))))"
proof
  have "(\<exists>t > b. first_ts (tbl db) k = Some t) \<longleftrightarrow>
      (\<exists>v \<in> set (buckets (tbl db) ! bucket_idx (tbl db) k). vkey v = k \<and> begin_ts v > b)" for k
  proof -
    have "buckets (tbl db) ! bucket_idx (tbl db) k \<in> set (buckets (tbl db))"
      using bucket_idx_less [OF assms(1)] assms(1) by (simp add: ht_wf_def)
    then show ?thesis
      using newest_first_max [of "buckets (tbl db) ! bucket_idx (tbl db) k" b k] assms(2)
      by (auto simp: newest_first_def first_ts_def split: option.splits)
  qed
  then show "fastkv_db_check_conflicts db es b =
      (if \<exists>e \<in> set es. \<exists>v \<in> set (buckets (tbl db) ! bucket_idx (tbl db) (wkey e)). vkey v = wkey e \<and> begin_ts v > b
       then FASTKV_ERR_TXN_CONFLICT else FASTKV_OK)"
    unfolding check_conflicts_iff by simp
  show "db_ok db \<longrightarrow> db_clock db < FASTKV_TS_MAX \<longrightarrow> envs_ok env \<longrightarrow> committing txn \<longrightarrow>
        newest_first (tbl (fst (snd (fastkv_txn_commit os env db txn))))"
  proof (intro impI)
    assume a: "db_ok db" "db_clock db < FASTKV_TS_MAX" "envs_ok env" "committing txn"
    obtain rc db' t where r: "fastkv_txn_commit os env db txn = (rc, db', t)" by (metis prod_cases3)
    have "\<exists>applied. tbl db' = ht_writes (db_clock db) (tbl db) (wpairs applied)"
      using commit_effect [OF a r] by blast
    then show "newest_first (tbl (fst (snd (fastkv_txn_commit os env db txn))))"
      using newest_first_writes [OF assms(1) _ a(2) assms(2)] db_ok_core [OF a(1)] by (auto simp: r core_ok_def)
  qed
qed

lemma sample_newest: "newest_first (tbl sample_db)"
  by (simp add: newest_first_def sample_db_def)

theorem conflict_check_exact_witness:
  "fastkv_db_check_conflicts sample_db (write_head pair_txn) 3 = FASTKV_OK
   \<and> newest_first (tbl (fst (snd (fastkv_txn_commit (\<lambda>_. SysOk) (o_write sample_op) sample_db pair_txn))))"
  using conflict_check_exact [OF sample_tbl_ok(1) sample_newest, of "write_head pair_txn" 3 "o_write sample_op" pair_txn "\<lambda>_. SysOk"]
    sample_db_ok(1) room_clock [OF sample_db_ok(2)] sample_env_ok(3) pair_txn_ok(1)
  by (simp add: sample_db_def pair_txn_def bucket_idx_def)



section \<open>Indexes and key count\<close>

definition indexes_ok :: "fastkv_db \<Rightarrow> bool" where
  "indexes_ok db \<longleftrightarrow> (\<forall>idx \<in> set (indexes db). index_ok idx (latest (tbl db)))"

definition count_ok :: "fastkv_db \<Rightarrow> bool" where
  "count_ok db \<longleftrightarrow> stat_num_keys db = of_nat (card (dom (latest (tbl db))))"

lemma finite_latest: "core_ok c db \<Longrightarrow> finite (dom (latest (tbl db)))"
proof -
  assume "core_ok c db"
  then have "dom (latest (tbl db)) \<subseteq> fst ` set (bt_entries (tree db))"
    by (auto simp: core_ok_def mirrors_def dest!: map_of_SomeD intro!: image_eqI)
  then show ?thesis using finite_subset by blast
qed

lemma card_dom_upd:
  "finite (dom m) \<Longrightarrow> card (dom (m(k := v))) =
     (if v = None then (if m k = None then card (dom m) else card (dom m) - 1)
      else if m k = None then card (dom m) + 1 else card (dom m))"
  by (auto simp: card_Diff_singleton card_insert_if domIff insert_absorb)

lemma store_entry_side:
  assumes "core_ok ts db" "ts < FASTKV_TS_MAX" "env_ok (w_ht env)" "wvalue e \<noteq> Some []"
    "ht_view (tbl db) (ts - 1) (wkey e) = latest (tbl db) (wkey e)" "indexes_ok db"
  shows "indexes_ok (store_entry env db e ts) \<and> (count_ok db \<longrightarrow> count_ok (store_entry env db e ts))"
proof -
  let ?m = "latest (tbl db)" and ?k = "wkey e" and ?db = "store_entry env db e ts"
  have wf: "ht_wf (tbl db)" using assms(1) by (simp add: core_ok_def)
  have dup: "slice_dup (wvalue e) = wvalue e" using assms(4) by (cases "wvalue e" rule: slice_dup.cases) auto
  have l: "latest (tbl ?db) = ?m(?k := wvalue e)"
    using store_entry_tbl [OF assms(1-3)] latest_write [OF wf assms(2)] dup by simp
  have old: "(case fastkv_ht_get (tbl db) (ts - 1) ?k of Inr _ \<Rightarrow> True | Inl _ \<Rightarrow> False) = (?m ?k \<noteq> None)"
      "(case fastkv_ht_get (tbl db) (ts - 1) ?k of Inr bs \<Rightarrow> Some bs | Inl _ \<Rightarrow> None) = ?m ?k"
    using assms(5) by (auto simp: ht_get_view split: option.split)
  have idx: "indexes ?db = (case wvalue e of
      Some new \<Rightarrow> map (index_on_put ?k (?m ?k) (?m ?k \<noteq> None) (Some new)) (indexes db)
    | None \<Rightarrow> if ?m ?k \<noteq> None then map (index_on_delete ?k (?m ?k)) (indexes db) else indexes db)"
    by (simp add: store_entry_def old Let_def secondary_on_put_def secondary_on_delete_def split: option.split)
  have "indexes_ok ?db"
  proof (cases "wvalue e")
    case None
    then show ?thesis
      using assms(6) idx l index_on_delete_ok [of _ ?m ?k] by (cases "?m ?k") (auto simp: indexes_ok_def fun_upd_idem)
  next
    case (Some new)
    then show ?thesis using assms(6) idx l index_on_put_ok [of _ ?m ?k new] by (auto simp: indexes_ok_def)
  qed
  moreover have "count_ok ?db" if "count_ok db"
  proof -
    have fin: "finite (dom ?m)" by (rule finite_latest [OF assms(1)])
    have pos: "card (dom ?m) \<noteq> 0" if "?m ?k \<noteq> None" using that fin by (auto simp: card_eq_0_iff)
    have "stat_num_keys ?db = (if wvalue e \<noteq> None then (if ?m ?k = None then stat_num_keys db + 1 else stat_num_keys db)
        else if ?m ?k \<noteq> None then stat_num_keys db - 1 else stat_num_keys db)"
      by (simp add: store_entry_def old Let_def)
    then show ?thesis
      using that card_dom_upd [OF fin, of ?k "wvalue e"] pos by (auto simp: count_ok_def l of_nat_diff)
  qed
  ultimately show ?thesis by simp
qed

lemma apply_entries_side:
  assumes "apply_entries os env i db es ts = (rc, db')" "core_ok ts db" "0 < ts" "ts < FASTKV_TS_MAX" "envs_ok env"
    "distinct (map wkey es)" "\<forall>e \<in> set es. wvalue e \<noteq> Some []"
    "\<forall>e \<in> set es. ht_view (tbl db) (ts - 1) (wkey e) = latest (tbl db) (wkey e)" "indexes_ok db"
  shows "indexes_ok db' \<and> (count_ok db \<longrightarrow> count_ok db')"
  using assms(1,2,6-9)
proof (induction es arbitrary: i db)
  case (Cons e es)
  obtain rc1 db1 where l: "log_entry os (env i) db e ts = (rc1, db1)" by force
  then obtain w d srv where db1: "db1 = db\<lparr>dwal := w, dsk := d, repl_srv := srv\<rparr>" by (rule log_entry_frame)
  have same: "core_ok ts db1" "indexes_ok db1" "count_ok db1 = count_ok db" "tbl db1 = tbl db"
    using Cons.prems(2,6) by (simp_all add: db1 core_ok_def indexes_ok_def count_ok_def)
  show ?case
  proof (cases "rc1 = FASTKV_OK")
    case True
    let ?db2 = "store_entry (env i) db1 e ts"
    have e: "env_ok (w_ht (env i))" using assms(5) by (simp add: envs_ok_def)
    have side: "indexes_ok ?db2 \<and> (count_ok db1 \<longrightarrow> count_ok ?db2)"
      using Cons.prems(4,5) same by (intro store_entry_side [OF same(1) assms(4) e]) auto
    have wf: "ht_wf (tbl db)" using Cons.prems(2) by (simp add: core_ok_def)
    have t: "tbl ?db2 = ht_write (tbl db) ts (wkey e) (wvalue e)" using store_entry_tbl [OF same(1) assms(4) e] same(4) by simp
    have "ht_view (tbl ?db2) (ts - 1) (wkey e') = latest (tbl ?db2) (wkey e')" if "e' \<in> set es" for e'
    proof -
      have "wkey e' \<noteq> wkey e" "\<not> ts \<le> ts - 1" "ts - 1 < FASTKV_TS_MAX"
        using Cons.prems(3) that clock_pred [OF assms(3)] assms(4) by (auto simp: rev_image_eqI)
      then show ?thesis
        using Cons.prems(5) that hts.view_write [OF wf, of "ts - 1"] latest_write [OF wf assms(4)] by (simp add: t)
    qed
    moreover have "apply_entries os env (Suc i) ?db2 es ts = (rc, db')" using Cons.prems(1) l True by simp
    ultimately have "indexes_ok db' \<and> (count_ok ?db2 \<longrightarrow> count_ok db')"
      using Cons.IH [of "Suc i" ?db2] store_entry_core [OF same(1) assms(4) e] Cons.prems(3,4) side by auto
    then show ?thesis using side same(3) by simp
  next
    case False
    then have "db' = db1" using Cons.prems(1) l by simp
    then show ?thesis using same by simp
  qed
qed simp

lemma commit_apply:
  assumes "committing txn" "fastkv_txn_commit os env db txn = (rc, db', t)"
  shows "\<exists>mgr. db' = db\<lparr>dmgr := mgr\<rparr>
    \<or> (\<exists>db1. apply_entries os env 0 db (write_head txn) (db_clock db) = (rc, db1) \<and> db' = db1\<lparr>dmgr := mgr\<rparr>)"
proof (cases "fastkv_db_check_conflicts db (write_head txn) (txn_begin_ts txn) = FASTKV_OK")
  case True
  obtain rc1 db1 where "apply_entries os env 0 db (write_head txn) (db_clock db) = (rc1, db1)" by force
  then show ?thesis
    using assms True
    by (auto simp: fastkv_txn_commit_def fastkv_txn_mgr_commit_def fastkv_txn_mgr_abort_def fastkv_oracle_commit_def
        fastkv_db_apply_write_set_def committing_def writable_def Let_def split: if_splits)
next
  case False
  then show ?thesis
    using assms
    by (auto simp: fastkv_txn_commit_def fastkv_txn_mgr_commit_def fastkv_txn_mgr_abort_def committing_def writable_def
        Let_def split: if_splits)
qed



section \<open>Where the code differs from its description\<close>

lemma txn_put_shape:
  assumes "mems_ok m" "writable txn" "length key \<le> FASTKV_MAX_KEY_LEN" "slice_len val \<le> FASTKV_MAX_VAL_LEN"
    "fastkv_txn_put m txn key val = (rc, txn')"
  shows "rc = FASTKV_OK \<and> writable txn' \<and> write_head txn' = \<lparr>wkey = key, wvalue = val\<rparr> # write_head txn"
proof -
  obtain a where "write_entry_add m txn key val =
      (FASTKV_OK, txn\<lparr>txn_arena := a, write_head := \<lparr>wkey = key, wvalue = val\<rparr> # write_head txn,
                      write_count := write_count txn + 1\<rparr>)"
    using write_entry_add_ok [OF assms(1,2)] .
  with assms(2-5) show ?thesis by (auto simp: fastkv_txn_put_def fastkv_txn_write_put_def writable_def)
qed

text \<open>
  Property C19.  Of two puts of the same key in one transaction, the transaction itself reads the second, but the commit
  publishes the first: the write set is applied newest entry first, so the oldest entry is applied last.
\<close>

theorem commit_first_write_wins:
  assumes "db_ok db" "room 1 db" "envs_ok env" "begin_ok benv" "mems_ok m1" "mems_ok m2" "writable txn" "write_head txn = []"
    "length key \<le> FASTKV_MAX_KEY_LEN" "v1 \<noteq> []" "length v1 \<le> FASTKV_MAX_VAL_LEN" "length v2 \<le> FASTKV_MAX_VAL_LEN"
    "fastkv_txn_put m1 txn key (Some v1) = (FASTKV_OK, txn1)" "fastkv_txn_put m2 txn1 key (Some v2) = (FASTKV_OK, txn2)"
    "fastkv_txn_commit os env db txn2 = (FASTKV_OK, db', t)"
  shows "fastkv_txn_get db txn2 key = Inr v2 \<and> fst (fastkv_get benv db' key) = Inr v1"
proof -
  have w1: "writable txn1" "write_head txn1 = [\<lparr>wkey = key, wvalue = Some v1\<rparr>]"
    using txn_put_shape [OF assms(5,7,9) _ assms(13)] assms(8,11) by simp_all
  have w2: "writable txn2" "write_head txn2 = [\<lparr>wkey = key, wvalue = Some v2\<rparr>, \<lparr>wkey = key, wvalue = Some v1\<rparr>]"
    using txn_put_shape [OF assms(6) w1(1) assms(9) _ assms(14)] assms(12) w1(2) by simp_all
  then have c: "committing txn2" by (simp add: committing_def)
  note clk = room_clock [OF assms(2)]
  note ok = commit_ok_tbl [OF assms(1) clk assms(3) c assms(15)]
  have "slice_dup (Some v1) = Some v1" using assms(10) by (cases v1) auto
  then have "latest (tbl db') key = Some v1"
    using ok writes_latest [OF db_ok_core [OF assms(1)] clk, of "wpairs (write_head txn2)" key] w2(2) by simp
  moreover have "db_clock db' < FASTKV_TS_MAX" using ok room_less [OF assms(2)] by simp
  ultimately have "fst (fastkv_get benv db' key) = Inr v1"
    using get_latest [of db' benv key] ok assms(4,9) by (simp add: latest_get_def)
  moreover have "fastkv_txn_get db txn2 key = Inr v2"
    using w2 assms(9) by (simp add: fastkv_txn_get_def fastkv_txn_write_lookup_def writable_def)
  ultimately show ?thesis by simp
qed

theorem commit_first_write_wins_witness:
  "\<exists>txn2 db' t. fastkv_txn_commit (\<lambda>_. SysOk) (o_write sample_op) sample_db txn2 = (FASTKV_OK, db', t)
     \<and> fastkv_txn_get sample_db txn2 [7] = Inr [2] \<and> fst (fastkv_get sample_begin db' [7]) = Inr [1]"
proof -
  let ?m = "(Some 0x20000, Some 0x30000, Some 0x40000) :: mems"
  have m: "mems_ok ?m" by (simp add: mems_ok_def)
  have s: "writable sample_txn" "write_head sample_txn = []" by (simp_all add: sample_txn_def writable_def)
  have len: "length [7::byte] \<le> FASTKV_MAX_KEY_LEN" "slice_len (Some [1::byte]) \<le> FASTKV_MAX_VAL_LEN"
    "slice_len (Some [2::byte]) \<le> FASTKV_MAX_VAL_LEN" by (simp_all add: FASTKV_MAX_KEY_LEN_def FASTKV_MAX_VAL_LEN_def)
  obtain rc1 txn1 where p1: "fastkv_txn_put ?m sample_txn [7] (Some [1]) = (rc1, txn1)" by force
  note q1 = txn_put_shape [OF m s(1) len(1,2) p1]
  obtain rc2 txn2 where p2: "fastkv_txn_put ?m txn1 [7] (Some [2]) = (rc2, txn2)" by force
  note q2 = txn_put_shape [OF m _ len(1,3) p2]
  have b1: "txn_begin_ts txn1 = 5"
    using p1 len by (auto simp: fastkv_txn_put_def fastkv_txn_write_put_def write_entry_add_def sample_txn_def
        split: if_splits prod.splits option.splits)
  have b: "txn_begin_ts txn2 = 5"
    using p2 len b1 by (auto simp: fastkv_txn_put_def fastkv_txn_write_put_def write_entry_add_def
        split: if_splits prod.splits option.splits)
  have "committing txn2" using q1 q2 by (simp add: committing_def)
  then have "fst (fastkv_txn_commit (\<lambda>_. SysOk) (o_write sample_op) sample_db txn2) = FASTKV_OK"
    using commit_no_log [OF sample_db_ok(1,4)] sample_db_ok(5) b by simp
  then obtain db' t where c: "fastkv_txn_commit (\<lambda>_. SysOk) (o_write sample_op) sample_db txn2 = (FASTKV_OK, db', t)"
    by (cases "fastkv_txn_commit (\<lambda>_. SysOk) (o_write sample_op) sample_db txn2") auto
  have "fastkv_txn_get sample_db txn2 [7] = Inr [2] \<and> fst (fastkv_get sample_begin db' [7]) = Inr [1]"
    by (rule commit_first_write_wins [OF sample_db_ok(1) room_mono [OF sample_db_ok(2)] sample_env_ok(3,2) m m s len(1) _ _ _ _ _ c])
      (use p1 p2 q1 q2 len in auto)
  with c show ?thesis by blast
qed

text \<open>
  A commit is not atomic under I/O errors: if the append of the second entry fails, the commit returns the
  error, yet the first entry is in the table and visible to every later read.
\<close>

lemma commit_error_leaves_prefix:
  assumes "db_ok db" "db_clock db < FASTKV_TS_MAX" "envs_ok env" "committing txn" "write_head txn = e1 # e2 # es"
    "wkey e1 \<noteq> wkey e2" "db_clock db \<le> txn_begin_ts txn"
    "log_entry os (env 0) db e1 (db_clock db) = (FASTKV_OK, db1)"
    "log_entry os (env 1) (store_entry (env 0) db1 e1 (db_clock db)) e2 (db_clock db) = (rc, db2)" "rc \<noteq> FASTKV_OK"
    "fastkv_txn_commit os env db txn = (rc', db', t)"
  shows "rc' = rc \<and> latest (tbl db') (wkey e1) = slice_dup (wvalue e1) \<and> latest (tbl db') (wkey e2) = latest (tbl db) (wkey e2)"
proof -
  let ?ts = "db_clock db" and ?st = "store_entry (env 0) db1 e1 (db_clock db)"
  obtain w d srv where db1: "db1 = db\<lparr>dwal := w, dsk := d, repl_srv := srv\<rparr>" using log_entry_frame [OF assms(8)] by metis
  obtain w' d' srv' where db2: "db2 = ?st\<lparr>dwal := w', dsk := d', repl_srv := srv'\<rparr>"
    using log_entry_frame [OF assms(9)] by metis
  have core: "core_ok ?ts db" by (rule db_ok_core [OF assms(1)])
  then have c1: "core_ok ?ts db1" by (simp add: db1 core_ok_def)
  have wf: "ht_wf (tbl db)" "ht_upto (tbl db) (txn_begin_ts txn)"
    using core assms(7) hts.upto_mono by (auto simp: core_ok_def)
  have ap: "apply_entries os env 0 db (write_head txn) ?ts = (rc, db2)" using assms(5,8-10) by simp
  have ck: "fastkv_db_check_conflicts db (write_head txn) (txn_begin_ts txn) = FASTKV_OK" by (rule check_fresh [OF wf])
  have r: "rc' = rc" using commit_no_conflict [OF assms(4) ck, of os env] assms(11) ap by simp
  have "tbl db' = tbl db2"
    using assms(4,10,11) ck ap
    by (auto simp: fastkv_txn_commit_def fastkv_txn_mgr_commit_def fastkv_txn_mgr_abort_def fastkv_oracle_commit_def
        fastkv_db_apply_write_set_def committing_def writable_def Let_def split: if_splits)
  also have "\<dots> = ht_write (tbl db) ?ts (wkey e1) (wvalue e1)"
    using store_entry_tbl [OF c1 assms(2), of "env 0" e1] assms(3) by (simp add: db2 db1 envs_ok_def)
  finally have "latest (tbl db') = (latest (tbl db))(wkey e1 := slice_dup (wvalue e1))"
    using latest_write [OF wf(1) assms(2)] by simp
  then show ?thesis using r assms(6) by auto
qed

text \<open>A disk whose first two system calls succeed and whose third fails.\<close>

definition failing_os :: os where
  "failing_os = (\<lambda>n. if n < 2 then SysOk else SysErr)"

definition logged_db :: fastkv_db where
  "logged_db = sample_db\<lparr>dwal := Some sample_wal, dsk := sample_disk\<rparr>"

definition put_txn :: txn where
  "put_txn = sample_txn\<lparr>write_head := [\<lparr>wkey = [8], wvalue = Some [2]\<rparr>, \<lparr>wkey = [7], wvalue = Some [1]\<rparr>]\<rparr>"

lemma logged_db_ok: "db_ok logged_db" "db_clock logged_db < FASTKV_TS_MAX" "db_clock logged_db = 1" "tbl logged_db = tbl sample_db"
  using sample_db_ok(1,5) by (simp_all add: logged_db_def db_ok_def core_ok_def FASTKV_TS_MAX_def)

lemma first_append_ok:
  "\<exists>w d h. fastkv_wal_append failing_os tmp sample_wal sample_disk WAL_REC_PUT 1 [8] (Some [2]) = (FASTKV_OK, w, d, h)
     \<and> wbuf w = [] \<and> sync_writes w \<and> calls d = 2"
proof -
  let ?r = "rec_enc WAL_REC_PUT 1 [8] (Some [2])"
  let ?w = "sample_wal\<lparr>wbuf := wbuf sample_wal @ ?r,
      bytes_written := bytes_written sample_wal + of_nat (WAL_HEADER_SIZE + length [8::byte] + slice_len (Some [2::byte]))\<rparr>"
  have len: "length ?r = 23" by (simp add: length_rec_enc WAL_HEADER_SIZE_def)
  then have ne: "?r \<noteq> []" by auto
  obtain rc w' d' where f: "flush_buf failing_os True ?w sample_disk = (rc, w', d')" by (metis prod_cases3)
  have "rc = FASTKV_OK" "wbuf w' = []" "sync_writes w'" "calls d' = 2"
    using f ne by (auto simp: flush_buf_def sample_wal_def sample_disk_def fastkv_io_pwrite_def fastkv_offset_to_offt_def
        sys_pwrite_def fastkv_io_sync_def sys_fsync_def failing_os_def INT64_MAX_def Let_def)
  moreover have "\<exists>h. fastkv_wal_append failing_os tmp sample_wal sample_disk WAL_REC_PUT 1 [8] (Some [2]) = (rc, w', d', h)"
    using len f by (intro append_fits) (simp_all add: sample_wal_def WAL_BUF_CAP_def)
  ultimately show ?thesis by blast
qed

lemma second_append_fails:
  assumes "wbuf w = []" "sync_writes w" "calls d = 2"
  shows "\<exists>w' d' h. fastkv_wal_append failing_os tmp w d WAL_REC_PUT 1 [7] (Some [1]) = (FASTKV_ERR_IO, w', d', h)
    \<or> fastkv_wal_append failing_os tmp w d WAL_REC_PUT 1 [7] (Some [1]) = (FASTKV_ERR_INVAL, w', d', h)"
proof -
  let ?r = "rec_enc WAL_REC_PUT 1 [7] (Some [1])"
  let ?w = "w\<lparr>wbuf := wbuf w @ ?r,
      bytes_written := bytes_written w + of_nat (WAL_HEADER_SIZE + length [7::byte] + slice_len (Some [1::byte]))\<rparr>"
  have len: "length ?r = 23" by (simp add: length_rec_enc WAL_HEADER_SIZE_def)
  then have ne: "?r \<noteq> []" by auto
  obtain rc w' d' where f: "flush_buf failing_os True ?w d = (rc, w', d')" by (metis prod_cases3)
  have "rc = FASTKV_ERR_IO \<or> rc = FASTKV_ERR_INVAL"
    using f ne len assms by (auto simp: flush_buf_def fastkv_io_pwrite_def fastkv_offset_to_offt_def
        sys_pwrite_def failing_os_def Let_def split: if_splits option.splits)
  moreover have "\<exists>h. fastkv_wal_append failing_os tmp w d WAL_REC_PUT 1 [7] (Some [1]) = (rc, w', d', h)"
    using len f assms by (intro append_fits) (simp_all add: WAL_BUF_CAP_def)
  ultimately show ?thesis by blast
qed

lemma commit_error_leaves_prefix_example:
  "(case fastkv_txn_commit failing_os (o_write sample_op) logged_db put_txn of (rc, db', t) \<Rightarrow>
      rc \<noteq> FASTKV_OK \<and> latest (tbl db') [8] = Some [2] \<and> latest (tbl db') [7] = None)"
proof -
  let ?e1 = "\<lparr>wkey = [8], wvalue = Some [2]\<rparr>" and ?e2 = "\<lparr>wkey = [7], wvalue = Some [1]\<rparr>" and ?env = "o_write sample_op"
  obtain w d h where a: "fastkv_wal_append failing_os True sample_wal sample_disk WAL_REC_PUT 1 [8] (Some [2]) = (FASTKV_OK, w, d, h)"
    "wbuf w = []" "sync_writes w" "calls d = 2" using first_append_ok by blast
  define db1 where "db1 = logged_db\<lparr>dwal := Some w, dsk := d, repl_srv := repl_wal_hook (\<lambda>_. (True, True)) h (repl_srv logged_db)\<rparr>"
  have l1: "log_entry failing_os (?env 0) logged_db ?e1 (db_clock logged_db) = (FASTKV_OK, db1)"
    using a(1) by (simp add: log_entry_def logged_db_ok(3) db1_def) (simp add: logged_db_def sample_op_def)
  have st: "dwal (store_entry (?env 0) db1 ?e1 1) = Some w" "dsk (store_entry (?env 0) db1 ?e1 1) = d"
    by (simp_all add: store_entry_def db1_def Let_def)
  obtain rc db2 where l2: "log_entry failing_os (?env 1) (store_entry (?env 0) db1 ?e1 (db_clock logged_db)) ?e2 (db_clock logged_db) = (rc, db2)"
    by force
  have "rc \<noteq> FASTKV_OK"
    using l2 second_append_fails [OF a(2-4), of "w_tmp (?env 1)"] by (auto simp: log_entry_def st logged_db_ok(3))
  obtain rc' db' t where c: "fastkv_txn_commit failing_os ?env logged_db put_txn = (rc', db', t)" by (metis prod_cases3)
  have p: "committing put_txn" "write_head put_txn = [?e1, ?e2]" "db_clock logged_db \<le> txn_begin_ts put_txn"
    by (simp_all add: put_txn_def sample_txn_def committing_def writable_def logged_db_ok(3))
  have "rc' = rc \<and> latest (tbl db') (wkey ?e1) = slice_dup (wvalue ?e1) \<and> latest (tbl db') (wkey ?e2) = latest (tbl logged_db) (wkey ?e2)"
    by (rule commit_error_leaves_prefix [OF logged_db_ok(1,2) sample_env_ok(3) p(1,2) _ p(3) l1 l2 \<open>rc \<noteq> FASTKV_OK\<close> c]) simp
  with \<open>rc \<noteq> FASTKV_OK\<close> c sample_tbl_ok(3) show ?thesis by (simp add: logged_db_ok(4))
qed

definition two_versions :: ht where
  "two_versions = \<lparr>buckets = [[\<lparr>begin_ts = 5, end_ts = FASTKV_TS_MAX, vkey = [7], vvalue = Some [1]\<rparr>,
                               \<lparr>begin_ts = 2, end_ts = 5, vkey = [7], vvalue = Some [2]\<rparr>]],
                   capacity = 1, num_keys = 0, num_versions = 2\<rparr>"

text \<open>
  Property C23.  Garbage collection can hide a conflict: on a well-formed table whose chain is newest first, the check
  refuses a transaction with begin timestamp 3 because of a version of time 5; after collecting with the bound 3 that
  the transaction's own slot gives, both versions are still there but in reverse order, and the check lets it pass.
\<close>

theorem gc_hides_conflict:
  "ht_wf two_versions \<and> newest_first two_versions
   \<and> fastkv_db_check_conflicts (sample_db\<lparr>tbl := two_versions\<rparr>) [\<lparr>wkey = [7], wvalue = Some [3]\<rparr>] 3 = FASTKV_ERR_TXN_CONFLICT
   \<and> fst (fastkv_ht_gc two_versions 3) = 0
   \<and> fastkv_db_check_conflicts (sample_db\<lparr>tbl := snd (fastkv_ht_gc two_versions 3)\<rparr>) [\<lparr>wkey = [7], wvalue = Some [3]\<rparr>] 3
       = FASTKV_OK"
proof -
  have i: "bucket_idx two_versions k = 0" for k by (simp add: bucket_idx_def two_versions_def)
  have "pow2 1" unfolding pow2_def by (intro exI [of _ 0]) simp
  then have "ht_wf two_versions"
    by (simp add: ht_wf_def i) (simp add: two_versions_def apart_def)
  moreover have "newest_first two_versions" by (simp add: newest_first_def two_versions_def)
  moreover have g: "snd (fastkv_ht_gc two_versions 3) = two_versions\<lparr>buckets := [rev (buckets two_versions ! 0)]\<rparr>"
      "fst (fastkv_ht_gc two_versions 3) = 0"
    by (simp_all add: ht_gc_eq Let_def two_versions_def FASTKV_TS_MAX_def)
  ultimately show ?thesis
    by (simp add: i g) (simp add: two_versions_def)
qed
end
