(* ===== verification/Cursor.thy ===== *)
theory Cursor
  imports Commit
begin

text \<open>
  Cursors and expiry on the database: \<open>fastkv_cursor_*\<close> of \<open>api/kv_api.c\<close> and the deletion loop of
  \<open>persist/ttl.c\<close>.

  Shown here: a cursor walks the live keys in order, from either end, and a seek lands on the first key not below its
  argument.  The cursor copies the ordered tree as it is when the cursor is opened, not as of the transaction's snapshot.
\<close>

section \<open>Opening\<close>

definition cursor_entries :: "fastkv_db \<Rightarrow> (bytes \<times> bytes) list" where
  "cursor_entries db = map (\<lambda>(k, v). (k, slice_bytes v)) (bt_entries (tree db))"

lemma feed_snap: "feed (snap_collect (\<lambda>_. True)) es s = (FASTKV_OK, s @ map (\<lambda>(k, v). (k, slice_bytes v)) es)"
  by (induction es arbitrary: s) (auto simp: snap_collect_def)

lemma cursor_open_entries:
  assumes "btree_wf (tree db)" "length (leaves (root (tree db))) \<le> fuel"
  shows "fastkv_cursor_open True (\<lambda>_. True) fuel db dir =
    Some (Inr \<lparr>c_entries = cursor_entries db,
               c_pos = (if dir = FASTKV_CURSOR_FORWARD then 0 else int (length (cursor_entries db)) - 1), c_dir = dir\<rparr>)"
proof -
  have "fastkv_btree_scan fuel (tree db) None None FASTKV_CURSOR_FORWARD (snap_collect (\<lambda>_. True)) []
      = Some (FASTKV_OK, cursor_entries db)"
    by (simp add: scan_forward [OF assms] in_range_def feed_snap scan_rc_def cursor_entries_def)
  then show ?thesis by (simp add: fastkv_cursor_open_def)
qed

lemma cursor_sorted: "btree_wf (tree db) \<Longrightarrow> sorted_wrt (<) (map fst (cursor_entries db))"
  using btree_ascending [of "tree db"]
  by (simp add: cursor_entries_def ascending_def sorted_wrt_map case_prod_unfold)

lemma cursor_live:
  assumes "core_ok c db" "bs \<noteq> []"
  shows "(k, bs) \<in> set (cursor_entries db) \<longleftrightarrow> latest (tbl db) k = Some bs"
proof -
  have wf: "btree_wf (tree db)" and mir: "mirrors (tree db) (tbl db)" using assms(1) by (simp_all add: core_ok_def)
  have d: "distinct (map fst (bt_entries (tree db)))"
    using btree_ascending [OF wf] by (simp add: ascending_def strict_sorted_iff sorted_wrt_map [symmetric])
  have "(k, bs) \<in> set (cursor_entries db) \<longleftrightarrow> (k, Some bs) \<in> set (bt_entries (tree db))"
  proof
    assume "(k, bs) \<in> set (cursor_entries db)"
    then obtain v where "(k, v) \<in> set (bt_entries (tree db))" "bs = slice_bytes v" by (auto simp: cursor_entries_def)
    then show "(k, Some bs) \<in> set (bt_entries (tree db))" using assms(2) by (cases v) auto
  next
    assume "(k, Some bs) \<in> set (bt_entries (tree db))"
    then show "(k, bs) \<in> set (cursor_entries db)"
      unfolding cursor_entries_def set_map by (rule rev_image_eqI) simp
  qed
  also have "\<dots> \<longleftrightarrow> map_of (bt_entries (tree db)) k = Some (Some bs)" using d by simp
  finally show ?thesis using mir by (simp add: mirrors_def)
qed

section \<open>Moving\<close>

definition advance :: "nat \<Rightarrow> fastkv_cursor \<Rightarrow> fastkv_cursor" where
  "advance n = ((\<lambda>c. snd (fastkv_cursor_next c)) ^^ n)"

lemma advance_pos:
  "advance n c = c\<lparr>c_pos := (if c_dir c = FASTKV_CURSOR_FORWARD then c_pos c + int n else c_pos c - int n)\<rparr>"
  by (induction n) (auto simp: advance_def fastkv_cursor_next_def Let_def)

lemma seek_threshold:
  assumes "sorted_wrt (<) (map fst (c_entries c))"
  shows "bsearch (\<lambda>mid. cmp (fst (c_entries c ! mid)) key < 0) 0 (length (c_entries c))
     = length (takeWhile (\<lambda>e. fst e < key) (c_entries c))"
proof -
  have "sorted_wrt (\<lambda>x y. fst y < key \<longrightarrow> fst x < key) (c_entries c)"
    using assms by (auto simp: sorted_wrt_map elim!: sorted_wrt_mono_rel [rotated])
  from bsearch_takeWhile [OF this] show ?thesis by simp
qed

section \<open>Properties\<close>

text \<open>
  Property C13.  A cursor over a well-formed database, given memory for its copies, visits the keys in strictly ascending
  order forwards and in descending order backwards, and the pairs it visits with a non-empty value are exactly the live
  pairs of the table: the \<open>n\<close>-th position reached by \<^verbatim>\<open>fastkv_cursor_next\<close> reads the \<open>n\<close>-th pair of that list.
\<close>

theorem cursor_visits_live_keys:
  assumes "db_ok db" "length (leaves (root (tree db))) \<le> fuel" "n < length (cursor_entries db)"
  shows "(\<exists>c. fastkv_cursor_open True (\<lambda>_. True) fuel db dir = Some (Inr c)
       \<and> (let i = (if dir = FASTKV_CURSOR_FORWARD then n else length (cursor_entries db) - 1 - n)
          in fastkv_cursor_key (advance n c) = Inr (fst (cursor_entries db ! i))
            \<and> fastkv_cursor_value (advance n c) = Inr (snd (cursor_entries db ! i))))
    \<and> sorted_wrt (<) (map fst (cursor_entries db))
    \<and> (\<forall>k bs. bs \<noteq> [] \<longrightarrow> ((k, bs) \<in> set (cursor_entries db) \<longleftrightarrow> latest (tbl db) k = Some bs))"
proof -
  have core: "core_ok (db_clock db) db" "btree_wf (tree db)"
    using db_ok_core [OF assms(1)] by (auto simp: core_ok_def)
  let ?c = "\<lparr>c_entries = cursor_entries db,
      c_pos = (if dir = FASTKV_CURSOR_FORWARD then 0 else int (length (cursor_entries db)) - 1), c_dir = dir\<rparr>"
  let ?i = "if dir = FASTKV_CURSOR_FORWARD then n else length (cursor_entries db) - 1 - n"
  have pos: "c_pos (advance n ?c) = int ?i" using assms(3) by (auto simp: advance_pos)
  have "c_entries (advance n ?c) = cursor_entries db" by (simp add: advance_pos)
  moreover have "?i < length (cursor_entries db)" using assms(3) by auto
  ultimately have "fastkv_cursor_key (advance n ?c) = Inr (fst (cursor_entries db ! ?i))"
      "fastkv_cursor_value (advance n ?c) = Inr (snd (cursor_entries db ! ?i))"
    unfolding fastkv_cursor_key_def fastkv_cursor_value_def pos by simp_all
  then show ?thesis
    using cursor_open_entries [OF core(2) assms(2), of dir] cursor_sorted [OF core(2)] cursor_live [OF core(1)]
    by (auto simp: Let_def)
qed

theorem cursor_visits_live_keys_witness:
  "\<exists>c fuel. let db = snd (fastkv_put (\<lambda>_. SysOk) sample_op sample_db [7] (Some [1, 2]))
     in fastkv_cursor_open True (\<lambda>_. True) fuel db FASTKV_CURSOR_BACKWARD = Some (Inr c)
       \<and> ([7], [1, 2]) \<in> set (cursor_entries db) \<and> sorted_wrt (<) (map fst (cursor_entries db))"
proof -
  obtain rc db where p: "fastkv_put (\<lambda>_. SysOk) sample_op sample_db [7] (Some [1, 2]) = (rc, db)" by force
  have r: "db_clock sample_db < FASTKV_TS_MAX" "db_clock sample_db + 1 < FASTKV_TS_MAX" "room 2 sample_db"
    using sample_db_ok(5) room_mono [OF sample_db_ok(2), of 2] by (simp_all add: FASTKV_TS_MAX_def)
  have l: "length [7::8 word] \<le> FASTKV_MAX_KEY_LEN" "slice_len (Some [1, 2]) \<le> FASTKV_MAX_VAL_LEN"
    by (simp_all add: FASTKV_MAX_KEY_LEN_def FASTKV_MAX_VAL_LEN_def)
  have "healthy (\<lambda>_. SysOk)" by (simp add: healthy_def)
  then have "rc = FASTKV_OK"
    using single_write_healthy [OF sample_db_ok(1) r(3) sample_env_ok(1) sample_db_ok(3) l, of "\<lambda>_. SysOk" "[]"] p sample_db_ok(4)
    by (simp add: single_write_put db_log_def WAL_HEADER_SIZE_def INT64_MAX_def)
  then have d: "db_ok db" "tbl db = ht_write (tbl sample_db) (db_clock sample_db + 1) [7] (Some [1, 2])"
    using single_write_effect [OF sample_db_ok(1) r(2,1) sample_env_ok(1) sample_db_ok(3) l, of "\<lambda>_. SysOk" rc db] p
    by (simp_all add: single_write_put)
  have "latest (tbl db) [7] = Some [1, 2]"
    unfolding d(2) latest_write [OF sample_tbl_ok(1) r(2)] by simp
  then have m: "([7], [1, 2]) \<in> set (cursor_entries db)"
    using cursor_live [OF db_ok_core [OF d(1)], of "[1, 2]" "[7]"] by simp
  then have "0 < length (cursor_entries db)" by (auto intro: length_pos_if_in_set)
  from cursor_visits_live_keys [OF d(1) order_refl this, of FASTKV_CURSOR_BACKWARD] m show ?thesis
    by (auto simp: p)
qed

text \<open>
  A seek finds the first key not below its argument: it returns \<^verbatim>\<open>FASTKV_OK\<close> and stands there if there is
  one, and leaves the cursor where it was with \<^verbatim>\<open>FASTKV_ERR_CURSOR_EOF\<close> otherwise.
\<close>

lemma cursor_seek_first:
  assumes "sorted_wrt (<) (map fst (c_entries c))"
  shows "(case fastkv_cursor_seek c key of (rc, c') \<Rightarrow>
      (rc = FASTKV_OK \<longleftrightarrow> (\<exists>e \<in> set (c_entries c). key \<le> fst e))
      \<and> (rc \<noteq> FASTKV_OK \<longrightarrow> rc = FASTKV_ERR_CURSOR_EOF \<and> c' = c)
      \<and> (rc = FASTKV_OK \<longrightarrow> (\<exists>k. fastkv_cursor_key c' = Inr k \<and> key \<le> k \<and> k \<in> fst ` set (c_entries c)
            \<and> (\<forall>e \<in> set (c_entries c). key \<le> fst e \<longrightarrow> k \<le> fst e))))"
proof -
  let ?es = "c_entries c" and ?n = "length (takeWhile (\<lambda>e. fst e < key) (c_entries c))"
  have seek: "fastkv_cursor_seek c key =
      (if ?n \<ge> length ?es then (FASTKV_ERR_CURSOR_EOF, c) else (FASTKV_OK, c\<lparr>c_pos := int ?n\<rparr>))"
    unfolding fastkv_cursor_seek_def seek_threshold [OF assms] Let_def by simp
  have below: "fst (?es ! i) < key" if "i < ?n" for i using that by (metis nth_mem set_takeWhileD takeWhile_nth)
  show ?thesis
  proof (cases "?n \<ge> length ?es")
    case True
    then have "takeWhile (\<lambda>e. fst e < key) ?es = ?es" by (metis length_takeWhile_le le_antisym takeWhile_eq_take take_all)
    then have "\<forall>e \<in> set ?es. fst e < key" by (simp add: takeWhile_eq_all_conv)
    with True show ?thesis by (auto simp: seek not_le)
  next
    case False
    let ?k = "fst (?es ! ?n)"
    have k: "key \<le> ?k" using nth_length_takeWhile [of "\<lambda>e. fst e < key" ?es] False by auto
    have "?k \<le> fst e" if e: "e \<in> set ?es" "key \<le> fst e" for e
    proof -
      obtain i where i: "i < length ?es" "e = ?es ! i" using e(1) by (auto simp: in_set_conv_nth)
      then have "\<not> i < ?n" using below e(2) by (meson leD)
      then show ?thesis
        using assms i by (cases "i = ?n") (auto simp: sorted_wrt_map sorted_wrt_iff_nth_less less_imp_le)
    qed
    moreover have "?es ! ?n \<in> set ?es" using False by simp
    ultimately show ?thesis using k False by (auto simp: seek fastkv_cursor_key_def intro!: exI [of _ ?k])
  qed
qed

lemma cursor_seek_first_example:
  "\<exists>c'. fastkv_cursor_seek \<lparr>c_entries = [([1], [10]), ([3], [30]), ([5], [50])], c_pos = 0, c_dir = FASTKV_CURSOR_FORWARD\<rparr> [2]
       = (FASTKV_OK, c') \<and> fastkv_cursor_key c' = Inr [3]"
proof -
  let ?c = "\<lparr>c_entries = [([1], [10]), ([3], [30]), ([5], [50])], c_pos = 0, c_dir = FASTKV_CURSOR_FORWARD\<rparr> :: fastkv_cursor"
  have "sorted_wrt (<) (map fst (c_entries ?c))" by simp
  from cursor_seek_first [OF this, of "[2]"] show ?thesis
    by (cases "fastkv_cursor_seek ?c [2]") auto
qed

end
