(* ===== verification/Snapshot.thy ===== *)
theory Snapshot
  imports Commit
begin

text \<open>
  \<open>persist/snapshot.c\<close>: the dump of the live pairs of the table to a file, and loading the newest dump.  A snapshot is
  written through a 64 KiB buffer to a file \<^verbatim>\<open>snapshot-<id>.bin.tmp\<close>, synced, and renamed.  Paths are names inside the
  one directory (\<^verbatim>\<open>snprintf\<close> does not truncate them); \<^verbatim>\<open>readdir\<close> results are arguments.

  The two passes over the table, one for the header and one for the records, take the table as each of them finds it:
  \<^verbatim>\<open>fastkv_checkpoint\<close> does not hold the commit lock.
\<close>

section \<open>Buffered writing\<close>

definition SNAPSHOT_MAGIC :: u32 where
  "SNAPSHOT_MAGIC = 0x464B5350"

definition SNAPSHOT_VERSION :: u16 where
  "SNAPSHOT_VERSION = 1"

definition SNAP_BUF_CAP :: nat where
  "SNAP_BUF_CAP = 65536"

record snap_writer =
  sbuf :: bytes
  soffset :: u64
  serr :: fastkv_err

definition snap_flush :: "os \<Rightarrow> fname \<Rightarrow> snap_writer \<Rightarrow> disk \<Rightarrow> snap_writer \<times> disk" where
  "snap_flush os io sw d =
     (if serr sw \<noteq> FASTKV_OK \<or> length (sbuf sw) = 0 then (sw, d)
      else case fastkv_io_pwrite os io (sbuf sw) (soffset sw) d of
             (rc, d') \<Rightarrow>
               if rc = FASTKV_OK
               then (sw\<lparr>serr := rc, soffset := soffset sw + of_nat (length (sbuf sw)), sbuf := []\<rparr>, d')
               else (sw\<lparr>serr := rc\<rparr>, d'))"

text \<open>The copy loop of \<^verbatim>\<open>snap_write\<close>.\<close>

function snap_copy :: "os \<Rightarrow> fname \<Rightarrow> bytes \<Rightarrow> snap_writer \<Rightarrow> disk \<Rightarrow> snap_writer \<times> disk" where
  "snap_copy os io data sw d =
     (if data = [] then (sw, d)
      else if SNAP_BUF_CAP - length (sbuf sw) = 0
      then (case snap_flush os io sw d of
              (sw1, d1) \<Rightarrow>
                if serr sw1 \<noteq> FASTKV_OK then (sw1, d1)
                else let to_copy = min (length data) SNAP_BUF_CAP
                     in snap_copy os io (drop to_copy data) (sw1\<lparr>sbuf := sbuf sw1 @ take to_copy data\<rparr>) d1)
      else let to_copy = min (length data) (SNAP_BUF_CAP - length (sbuf sw))
           in snap_copy os io (drop to_copy data) (sw\<lparr>sbuf := sbuf sw @ take to_copy data\<rparr>) d)"
  by pat_completeness auto
termination
  by (relation "measure (\<lambda>(os, io, data, sw, d). length data)") (auto simp: SNAP_BUF_CAP_def)

declare snap_copy.simps [simp del]

definition snap_write :: "os \<Rightarrow> fname \<Rightarrow> bytes \<Rightarrow> snap_writer \<Rightarrow> disk \<Rightarrow> snap_writer \<times> disk" where
  "snap_write os io data sw d = (if serr sw \<noteq> FASTKV_OK then (sw, d) else snap_copy os io data sw d)"

definition snap_write_u16 :: "os \<Rightarrow> fname \<Rightarrow> u16 \<Rightarrow> snap_writer \<Rightarrow> disk \<Rightarrow> snap_writer \<times> disk" where
  "snap_write_u16 os io v = snap_write os io (le16 v)"

definition snap_write_u32 :: "os \<Rightarrow> fname \<Rightarrow> u32 \<Rightarrow> snap_writer \<Rightarrow> disk \<Rightarrow> snap_writer \<times> disk" where
  "snap_write_u32 os io v = snap_write os io (le32 v)"

definition snap_write_u64 :: "os \<Rightarrow> fname \<Rightarrow> u64 \<Rightarrow> snap_writer \<Rightarrow> disk \<Rightarrow> snap_writer \<times> disk" where
  "snap_write_u64 os io v = snap_write os io (le64 v)"

section \<open>What is dumped\<close>

text \<open>
  Each pass takes from every bucket the first version that is live and has a value, and then leaves the bucket.
\<close>

definition snap_live :: "version \<Rightarrow> bool" where
  "snap_live v \<longleftrightarrow> end_ts v = FASTKV_TS_MAX \<and> vvalue v \<noteq> None"

fun snap_pick :: "version list \<Rightarrow> (bytes \<times> bytes) option" where
  "snap_pick [] = None"
| "snap_pick (v # vs) = (if snap_live v then Some (vkey v, slice_bytes (vvalue v)) else snap_pick vs)"

definition snap_entries :: "ht \<Rightarrow> (bytes \<times> bytes) list" where
  "snap_entries h = List.map_filter snap_pick (buckets h)"

definition entry_crc :: "u32 \<Rightarrow> bytes \<times> bytes \<Rightarrow> u32" where
  "entry_crc crc e = (case e of (key, val) \<Rightarrow>
     let crc = fastkv_crc32c crc (le32 (of_nat (length key)));
         crc = fastkv_crc32c crc (le32 (of_nat (length val)));
         crc = fastkv_crc32c crc key
     in fastkv_crc32c crc val)"

definition entry_write :: "os \<Rightarrow> fname \<Rightarrow> snap_writer \<times> disk \<Rightarrow> bytes \<times> bytes \<Rightarrow> snap_writer \<times> disk" where
  "entry_write os io st e = (case (st, e) of ((sw, d), (key, val)) \<Rightarrow>
     let (sw, d) = snap_write_u32 os io (of_nat (length key)) sw d;
         (sw, d) = snap_write_u32 os io (of_nat (length val)) sw d;
         (sw, d) = snap_write os io key sw d
     in snap_write os io val sw d)"

definition header_write :: "os \<Rightarrow> fname \<Rightarrow> fastkv_ts \<Rightarrow> u64 \<Rightarrow> u32 \<Rightarrow> snap_writer \<Rightarrow> disk \<Rightarrow> snap_writer \<times> disk" where
  "header_write os io ts num crc sw d =
     (let (sw, d) = snap_write_u32 os io SNAPSHOT_MAGIC sw d;
          (sw, d) = snap_write_u16 os io SNAPSHOT_VERSION sw d;
          (sw, d) = snap_write_u16 os io 0 sw d;
          (sw, d) = snap_write_u64 os io ts sw d;
          (sw, d) = snap_write_u64 os io num sw d;
          (sw, d) = snap_write_u32 os io crc sw d
      in snap_write_u32 os io 0 sw d)"

section \<open>Writing a snapshot\<close>

definition SNAP_FILENAME_PFX :: bytes where
  "SNAP_FILENAME_PFX = [0x73, 0x6E, 0x61, 0x70, 0x73, 0x68, 0x6F, 0x74, 0x2D]"

definition SNAP_FILENAME_SFX :: bytes where
  "SNAP_FILENAME_SFX = [0x2E, 0x62, 0x69, 0x6E]"

definition SNAP_ID_LEN :: nat where
  "SNAP_ID_LEN = 32"

definition snap_file :: "bytes \<Rightarrow> fname" where
  "snap_file sid = SNAP_FILENAME_PFX @ sid @ SNAP_FILENAME_SFX"

definition tmp_file :: "bytes \<Rightarrow> fname" where
  "tmp_file sid = snap_file sid @ [0x2E, 0x74, 0x6D, 0x70]"

record snap_env =
  sn_now :: u64
  sn_fresh :: u64
  sn_ctx :: bool
  sn_open :: bool
  sn_rename :: bool
  sn_remove :: bool

definition snap_body :: "os \<Rightarrow> fname \<Rightarrow> fastkv_ts \<Rightarrow> (bytes \<times> bytes) list \<Rightarrow> (bytes \<times> bytes) list \<Rightarrow> disk \<Rightarrow> fastkv_err \<times> disk" where
  "snap_body os io ts es1 es2 d =
     (let (sw, d) = header_write os io ts (of_nat (length es1)) (foldl entry_crc 0 es1)
                      \<lparr>sbuf = [], soffset = 0, serr = FASTKV_OK\<rparr> d;
          (sw, d) = foldl (entry_write os io) (sw, d) es2;
          (sw, d) = snap_flush os io sw d
      in if serr sw = FASTKV_OK then fastkv_io_sync os io d else (serr sw, d))"

text \<open>
  \<^verbatim>\<open>fastkv_snapshot_write\<close>; \<open>h2\<close> is the table as its second loop finds it.  The result is the code, the identifier
  and the database.
\<close>

definition fastkv_snapshot_write ::
  "os \<Rightarrow> snap_env \<Rightarrow> fastkv_ts \<Rightarrow> fastkv_db \<Rightarrow> ht \<Rightarrow> fastkv_err \<times> bytes \<times> fastkv_db" where
  "fastkv_snapshot_write os env ts db h2 =
     (case uuid7_hex (uuid7 db) (sn_now env) (sn_fresh env) of
        (sid, ctx) \<Rightarrow>
          let db = db\<lparr>uuid7 := ctx\<rparr>; tmp = tmp_file sid
          in case fastkv_io_open (sn_ctx env) (sn_open env) tmp (dsk db) of
               (rc, d) \<Rightarrow>
                 if rc \<noteq> FASTKV_OK then (rc, sid, db\<lparr>dsk := d\<rparr>)
                 else (case snap_body os tmp ts (snap_entries (tbl db)) (snap_entries h2) d of
                         (rc, d) \<Rightarrow>
                           if rc \<noteq> FASTKV_OK then (rc, sid, db\<lparr>dsk := sys_remove (sn_remove env) tmp d\<rparr>)
                           else if \<not> sn_rename env
                           then (FASTKV_ERR_IO, sid, db\<lparr>dsk := sys_remove (sn_remove env) tmp d\<rparr>)
                           else (FASTKV_OK, sid, db\<lparr>dsk := sys_rename tmp (snap_file sid) d\<rparr>)))"

section \<open>Finding and trimming\<close>

text \<open>The tests of the directory loops; a name needs not end with the suffix.\<close>

definition snap_of_name :: "fname \<Rightarrow> bytes option" where
  "snap_of_name name =
     (if take (length SNAP_FILENAME_PFX) name \<noteq> SNAP_FILENAME_PFX then None
      else case strstr SNAP_FILENAME_SFX name of
             None \<Rightarrow> None
           | Some sfx \<Rightarrow>
               let hex = drop (length SNAP_FILENAME_PFX) name;
                   hexlen = (of_nat sfx - of_nat (length SNAP_FILENAME_PFX) :: u64)
               in if hexlen \<noteq> of_nat SNAP_ID_LEN then None else Some (take SNAP_ID_LEN hex))"

text \<open>The identifier and the name of the best candidate so far; the comparison is with the rest of the file name.\<close>

definition find_latest_snapshot :: "fname list option \<Rightarrow> fname option" where
  "find_latest_snapshot dir =
     (case dir of
        None \<Rightarrow> None
      | Some names \<Rightarrow>
          map_option snd
            (foldl (\<lambda>best name.
                case snap_of_name name of
                  None \<Rightarrow> best
                | Some sid \<Rightarrow>
                    (case best of
                       None \<Rightarrow> Some (sid, name)
                     | Some (best_id, _) \<Rightarrow>
                         if cmp (drop (length SNAP_FILENAME_PFX) name) best_id > 0 then Some (sid, name) else best))
              None names))"

definition fastkv_snapshot_trim :: "(fname \<Rightarrow> bool) \<Rightarrow> fname list option \<Rightarrow> bytes \<Rightarrow> disk \<Rightarrow> fastkv_err \<times> disk" where
  "fastkv_snapshot_trim rm dir keep_name d =
     (case dir of
        None \<Rightarrow> (FASTKV_ERR_IO, d)
      | Some names \<Rightarrow>
          (FASTKV_OK,
           foldl (\<lambda>d name.
               case snap_of_name name of
                 None \<Rightarrow> d
               | Some sid \<Rightarrow> if cmp sid keep_name \<ge> 0 then d else sys_remove (rm name) name d) d names))"

section \<open>Loading\<close>

text \<open>
  The loop over the records: \<open>n\<close> are left to read.  The first component is False when the loop leaves to the label
  \<^verbatim>\<open>bad\<close>.
\<close>

fun load_loop ::
  "(nat \<Rightarrow> ht_env) \<Rightarrow> fastkv_ts \<Rightarrow> nat \<Rightarrow> nat \<Rightarrow> bytes \<Rightarrow> u32 \<Rightarrow> ht \<Rightarrow> btree \<Rightarrow> bool \<times> u32 \<times> ht \<times> btree" where
  "load_loop env ts k 0 f crc h t = (True, crc, h, t)"
| "load_loop env ts k (Suc n) f crc h t =
     (case read_bytes 4 f of
        None \<Rightarrow> (False, crc, h, t)
      | Some (kl, f1) \<Rightarrow>
          (case read_bytes 4 f1 of
             None \<Rightarrow> (False, crc, h, t)
           | Some (vl, f2) \<Rightarrow>
               let klen = unat (le_dec kl :: u32); vlen = unat (le_dec vl :: u32)
               in if klen + vlen > length f2 then (False, crc, h, t)
                  else
                    let key = take klen f2;
                        val = take vlen (drop klen f2);
                        crc = fastkv_crc32c crc kl;
                        crc = fastkv_crc32c crc vl;
                        crc = fastkv_crc32c crc key;
                        crc = fastkv_crc32c crc val
                    in case fastkv_ht_put (env k) h ts key (Some val) of
                         (rc, h') \<Rightarrow>
                           if rc \<noteq> FASTKV_OK then (False, crc, h', t)
                           else load_loop env ts (Suc k) n (drop (klen + vlen) f2) crc h'
                                  (fastkv_btree_insert t (Some key) (Some val))))"

text \<open>The header: magic, version, timestamp, number of records, checksum, and the rest of the file.\<close>

definition read_header :: "bytes \<Rightarrow> (u32 \<times> u16 \<times> fastkv_ts \<times> u64 \<times> u32 \<times> bytes) option" where
  "read_header f0 =
     Option.bind (read_bytes 4 f0) (\<lambda>(magic, f1).
     Option.bind (read_bytes 2 f1) (\<lambda>(ver, f2).
     Option.bind (read_bytes 2 f2) (\<lambda>(pad, f3).
     Option.bind (read_bytes 8 f3) (\<lambda>(ts, f4).
     Option.bind (read_bytes 8 f4) (\<lambda>(num, f5).
     Option.bind (read_bytes 4 f5) (\<lambda>(crc, f6).
     Option.bind (read_bytes 4 f6) (\<lambda>(pad2, f7).
       Some (le_dec magic, le_dec ver, le_dec ts, le_dec num, le_dec crc, f7))))))))"

definition load_image :: "(nat \<Rightarrow> ht_env) \<Rightarrow> bytes \<Rightarrow> fastkv_db \<Rightarrow> fastkv_err \<times> fastkv_db \<times> fastkv_ts" where
  "load_image env f db =
     (case read_header f of
        None \<Rightarrow> (FASTKV_ERR_CORRUPT, db, 0)
      | Some (magic, ver, ts, num, file_crc, rest) \<Rightarrow>
          if magic \<noteq> SNAPSHOT_MAGIC then (FASTKV_ERR_CORRUPT, db, 0)
          else if ver \<noteq> SNAPSHOT_VERSION then (FASTKV_ERR_CORRUPT, db, 0)
          else (case load_loop env ts 0 (unat num) rest 0 (tbl db) (tree db) of
                  (ok, crc, h, t) \<Rightarrow>
                    let db = db\<lparr>tbl := h, tree := t\<rparr>
                    in if \<not> ok then (FASTKV_ERR_CORRUPT, db, 0)
                       else if crc \<noteq> file_crc then (FASTKV_ERR_CORRUPT, db, 0)
                       else (FASTKV_OK, db\<lparr>stat_num_keys := num\<rparr>, ts)))"

record load_env =
  ld_ctx :: bool
  ld_open :: bool
  ld_map :: bool
  ld_ht :: "nat \<Rightarrow> ht_env"

text \<open>
  \<^verbatim>\<open>fastkv_snapshot_load\<close>; the last component is \<^verbatim>\<open>*ts_out\<close>, which the caller initialises to 0.
\<close>

definition fastkv_snapshot_load ::
  "load_env \<Rightarrow> fname list option \<Rightarrow> fastkv_db \<Rightarrow> fastkv_err \<times> fastkv_db \<times> fastkv_ts" where
  "fastkv_snapshot_load env dir db =
     (case find_latest_snapshot dir of
        None \<Rightarrow> (FASTKV_OK, db, 0)
      | Some path \<Rightarrow>
          if \<not> ld_ctx env \<or> \<not> ld_open env \<or> files (dsk db) path = None then (FASTKV_ERR_IO, db, 0)
          else (case fastkv_io_size path (dsk db) of
                  Inl _ \<Rightarrow> (FASTKV_ERR_IO, db, 0)
                | Inr file_size \<Rightarrow>
                    (case fastkv_io_mmap (ld_map env) path 0 file_size (dsk db) of
                       Inl _ \<Rightarrow> (FASTKV_ERR_IO, db, 0)
                     | Inr f \<Rightarrow> load_image (ld_ht env) f db)))"

section \<open>The written file\<close>

text \<open>As long as no error has occurred: the file holds what precedes the buffer in the stream \<open>s\<close>.\<close>

definition snap_at :: "bytes \<Rightarrow> fname \<Rightarrow> snap_writer \<Rightarrow> disk \<Rightarrow> bool" where
  "snap_at s io sw d \<longleftrightarrow> (serr sw = FASTKV_OK \<longrightarrow>
     (\<exists>base. files d io = Some base \<and> unat (soffset sw) = length base \<and> s = base @ sbuf sw \<and> length (sbuf sw) \<le> SNAP_BUF_CAP))"

text \<open>No other file is touched.\<close>

definition only_file :: "fname \<Rightarrow> disk \<Rightarrow> disk \<Rightarrow> bool" where
  "only_file io d d' \<longleftrightarrow> (\<forall>n. n \<noteq> io \<longrightarrow> same_file n d d')"

lemma only_file_refl [simp]: "only_file io d d"
  by (simp add: only_file_def)

lemma only_file_trans: "only_file io d d' \<Longrightarrow> only_file io d' d'' \<Longrightarrow> only_file io d d''"
  by (auto simp: only_file_def intro: same_file_trans)

lemma pwrite_only: "fastkv_io_pwrite os io buf off d = (rc, d') \<Longrightarrow> only_file io d d'"
  by (auto simp: only_file_def same_file_def fastkv_io_pwrite_def fastkv_offset_to_offt_def sys_pwrite_def Let_def
      split: if_splits option.splits sysres.splits prod.splits)

lemma sync_only: "fastkv_io_sync os io d = (rc, d') \<Longrightarrow> only_file io d d'"
  using io_sync_cases [of os io d rc d'] by (cases "rc = FASTKV_OK") (auto simp: only_file_def same_file_def)

lemma snap_flush_at:
  assumes "snap_at s io sw d" "snap_flush os io sw d = (sw', d')"
  shows "snap_at s io sw' d' \<and> only_file io d d' \<and> (serr sw' = FASTKV_OK \<longrightarrow> sbuf sw' = [])
    \<and> (healthy os \<and> serr sw = FASTKV_OK \<and> length s \<le> INT64_MAX \<longrightarrow> serr sw' = FASTKV_OK)"
proof (cases "serr sw \<noteq> FASTKV_OK \<or> length (sbuf sw) = 0")
  case True
  with assms show ?thesis by (auto simp: snap_flush_def)
next
  case False
  then obtain base where b: "files d io = Some (base @ [])" "unat (soffset sw) = length base" "s = base @ sbuf sw"
      "length (sbuf sw) \<le> SNAP_BUF_CAP"
    using assms(1) by (auto simp: snap_at_def)
  obtain rc d1 where w: "fastkv_io_pwrite os io (sbuf sw) (soffset sw) d = (rc, d1)" by force
  have h: "healthy os \<Longrightarrow> length s \<le> INT64_MAX \<Longrightarrow> rc = FASTKV_OK"
    using io_healthy(1) [of os d io base "soffset sw" "sbuf sw"] b w by simp
  note p = io_pwrite_prefix(1) [OF b(1,2) Nil_prefix w] pwrite_only [OF w] h
  show ?thesis
  proof (cases "rc = FASTKV_OK")
    case True
    then have "unat (soffset sw) \<le> INT64_MAX"
      using w by (auto simp: fastkv_io_pwrite_def fastkv_offset_to_offt_def split: if_splits)
    then have "unat (soffset sw + of_nat (length (sbuf sw))) = length (base @ sbuf sw)"
      using unat_offset_add b(2,4) by (simp add: SNAP_BUF_CAP_def WAL_BUF_CAP_def)
    then show ?thesis using assms(2) False w True p b(3) by (auto simp: snap_flush_def snap_at_def)
  qed (use assms(2) False w p in \<open>auto simp: snap_flush_def snap_at_def\<close>)
qed

lemma snap_at_push:
  assumes "snap_at s io sw d" "length (sbuf sw) + length x \<le> SNAP_BUF_CAP"
  shows "snap_at (s @ x) io (sw\<lparr>sbuf := sbuf sw @ x\<rparr>) d"
  using assms by (auto simp: snap_at_def)

lemma snap_copy_at:
  "snap_at s io sw d \<Longrightarrow> snap_copy os io data sw d = (sw', d') \<Longrightarrow> snap_at (s @ data) io sw' d' \<and> only_file io d d'
    \<and> (healthy os \<and> serr sw = FASTKV_OK \<and> length s + length data \<le> INT64_MAX \<longrightarrow> serr sw' = FASTKV_OK)"
proof (induction os io data sw d arbitrary: s rule: snap_copy.induct)
  case (1 os io data sw d)
  note simp = snap_copy.simps [of os io data sw d]
  show ?case
  proof (cases "data = []")
    case ne: False
    show ?thesis
    proof (cases "SNAP_BUF_CAP - length (sbuf sw) = 0")
      case full: True
      let ?k = "min (length data) SNAP_BUF_CAP"
      obtain sw1 d1 where f: "snap_flush os io sw d = (sw1, d1)" by force
      note fl = snap_flush_at [OF "1.prems"(1) f]
      show ?thesis
      proof (cases "serr sw1 = FASTKV_OK")
        case True
        have "snap_at (s @ take ?k data) io (sw1\<lparr>sbuf := sbuf sw1 @ take ?k data\<rparr>) d1"
          using fl True by (intro snap_at_push) auto
        from "1.IH"(1) [OF ne full f [symmetric] _ refl this] have
          "snap_at ((s @ take ?k data) @ drop ?k data) io sw' d' \<and> only_file io d1 d'
            \<and> (healthy os \<and> length (s @ take ?k data) + length (drop ?k data) \<le> INT64_MAX \<longrightarrow> serr sw' = FASTKV_OK)"
          using "1.prems"(2) True ne full f by (simp add: simp Let_def)
        with fl only_file_trans show ?thesis by auto
      next
        case False
        then show ?thesis using "1.prems"(2) fl ne full f by (auto simp: simp snap_at_def)
      qed
    next
      case room: False
      let ?k = "min (length data) (SNAP_BUF_CAP - length (sbuf sw))"
      have "snap_at (s @ take ?k data) io (sw\<lparr>sbuf := sbuf sw @ take ?k data\<rparr>) d"
        using "1.prems"(1) room by (intro snap_at_push) auto
      from "1.IH"(2) [OF ne room refl this] show ?thesis
        using "1.prems"(2) ne room by (simp add: simp Let_def)
    qed
  qed (use "1.prems" in \<open>simp add: snap_copy.simps\<close>)
qed

text \<open>A sequence of \<^verbatim>\<open>snap_write\<close> calls.\<close>

definition snap_chunks :: "os \<Rightarrow> fname \<Rightarrow> bytes list \<Rightarrow> snap_writer \<times> disk \<Rightarrow> snap_writer \<times> disk" where
  "snap_chunks os io cs st = foldl (\<lambda>st c. snap_write os io c (fst st) (snd st)) st cs"

lemma snap_chunks_at:
  "snap_at s io sw d \<Longrightarrow> snap_chunks os io cs (sw, d) = (sw', d') \<Longrightarrow>
   snap_at (s @ concat cs) io sw' d' \<and> only_file io d d'
    \<and> (healthy os \<and> serr sw = FASTKV_OK \<and> length s + length (concat cs) \<le> INT64_MAX \<longrightarrow> serr sw' = FASTKV_OK)"
proof (induction cs arbitrary: s sw d)
  case (Cons c cs)
  obtain sw1 d1 where w: "snap_write os io c sw d = (sw1, d1)" by force
  have 1: "snap_at (s @ c) io sw1 d1 \<and> only_file io d d1
      \<and> (healthy os \<and> serr sw = FASTKV_OK \<and> length s + length c \<le> INT64_MAX \<longrightarrow> serr sw1 = FASTKV_OK)"
  proof (cases "serr sw = FASTKV_OK")
    case True
    then show ?thesis using w snap_copy_at [OF Cons.prems(1)] by (simp add: snap_write_def)
  qed (use w in \<open>auto simp: snap_write_def snap_at_def\<close>)
  moreover have "snap_chunks os io cs (sw1, d1) = (sw', d')" using Cons.prems(2) w by (simp add: snap_chunks_def)
  ultimately show ?case using Cons.IH [of "s @ c" sw1 d1] only_file_trans by auto
qed (simp add: snap_chunks_def)

definition header_chunks :: "fastkv_ts \<Rightarrow> u64 \<Rightarrow> u32 \<Rightarrow> bytes list" where
  "header_chunks ts num crc =
     [le32 SNAPSHOT_MAGIC, le16 SNAPSHOT_VERSION, le16 0, le64 ts, le64 num, le32 crc, le32 0]"

definition entry_chunks :: "bytes \<times> bytes \<Rightarrow> bytes list" where
  "entry_chunks e = (case e of (key, val) \<Rightarrow> [le32 (of_nat (length key)), le32 (of_nat (length val)), key, val])"

lemma header_write_chunks: "header_write os io ts num crc sw d = snap_chunks os io (header_chunks ts num crc) (sw, d)"
  by (simp add: header_write_def snap_chunks_def header_chunks_def snap_write_u16_def snap_write_u32_def
      snap_write_u64_def case_prod_unfold Let_def)

lemma entry_write_chunks: "entry_write os io st e = snap_chunks os io (entry_chunks e) st"
  by (simp add: entry_write_def snap_chunks_def entry_chunks_def snap_write_u32_def case_prod_unfold Let_def)

lemma entries_write_chunks: "foldl (entry_write os io) st es = snap_chunks os io (concat (map entry_chunks es)) st"
  by (induction es arbitrary: st) (simp_all add: entry_write_chunks snap_chunks_def)

definition snap_image :: "fastkv_ts \<Rightarrow> (bytes \<times> bytes) list \<Rightarrow> (bytes \<times> bytes) list \<Rightarrow> bytes" where
  "snap_image ts es1 es2 =
     concat (header_chunks ts (of_nat (length es1)) (foldl entry_crc 0 es1)) @ concat (concat (map entry_chunks es2))"

lemma snap_body_image:
  assumes "files d io = Some []" "snap_body os io ts es1 es2 d = (rc, d')"
  shows "only_file io d d' \<and> (rc = FASTKV_OK \<longrightarrow>
    files d' io = Some (snap_image ts es1 es2) \<and> durable d' io = Some (snap_image ts es1 es2)
      \<and> length (snap_image ts es1 es2) < 2 ^ 64)
    \<and> (healthy os \<and> length (snap_image ts es1 es2) \<le> INT64_MAX \<longrightarrow> rc = FASTKV_OK)"
proof -
  let ?sw = "\<lparr>sbuf = [], soffset = 0, serr = FASTKV_OK\<rparr>"
  let ?hd = "header_chunks ts (of_nat (length es1)) (foldl entry_crc 0 es1)"
  obtain sw1 d1 where 1: "snap_chunks os io ?hd (?sw, d) = (sw1, d1)" by force
  obtain sw2 d2 where 2: "snap_chunks os io (concat (map entry_chunks es2)) (sw1, d1) = (sw2, d2)" by force
  obtain sw3 d3 where 3: "snap_flush os io sw2 d2 = (sw3, d3)" by force
  have "snap_at [] io ?sw d" using assms(1) by (simp add: snap_at_def)
  note a1 = snap_chunks_at [OF this 1]
  note a2 = snap_chunks_at [OF conjunct1 [OF a1] 2]
  note a3 = snap_flush_at [OF conjunct1 [OF a2] 3]
  have only: "only_file io d d3" using a1 a2 a3 only_file_trans by blast
  have body: "snap_body os io ts es1 es2 d = (if serr sw3 = FASTKV_OK then fastkv_io_sync os io d3 else (serr sw3, d3))"
    by (simp add: snap_body_def header_write_chunks entries_write_chunks 1 2 3)
  have h: "serr sw3 = FASTKV_OK" if "healthy os" "length (snap_image ts es1 es2) \<le> INT64_MAX"
    using a1 a2 a3 that by (simp add: snap_image_def)
  show ?thesis
  proof (cases "serr sw3 = FASTKV_OK")
    case True
    then have s: "fastkv_io_sync os io d3 = (rc, d')" using assms(2) body by simp
    have "files d3 io = Some (snap_image ts es1 es2)" "length (snap_image ts es1 es2) = unat (soffset sw3)"
      using a3 True by (auto simp: snap_at_def snap_image_def)
    moreover have "healthy os \<Longrightarrow> rc = FASTKV_OK" using io_healthy(2) [of os io d3] s by simp
    ultimately show ?thesis using unsigned_less [of "soffset sw3"] io_sync_cases [OF s] sync_only [OF s] only only_file_trans by auto
  qed (use assms(2) body only h in auto)
qed

section \<open>Loading what was written\<close>

lemma read_header_image:
  "read_header (concat (header_chunks ts num crc) @ rest) = Some (SNAPSHOT_MAGIC, SNAPSHOT_VERSION, ts, num, crc, rest)"
  by (simp add: read_header_def header_chunks_def)

definition entry_fits :: "bytes \<times> bytes \<Rightarrow> bool" where
  "entry_fits e \<longleftrightarrow> length (fst e) < 2 ^ 32 \<and> length (snd e) < 2 ^ 32"

abbreviation dumped :: "(bytes \<times> bytes) list \<Rightarrow> (bytes \<times> slice) list" where
  "dumped es \<equiv> map (\<lambda>(k, v). (k, Some v)) es"

abbreviation tree_writes :: "btree \<Rightarrow> (bytes \<times> slice) list \<Rightarrow> btree" where
  "tree_writes t ws \<equiv> foldl (\<lambda>t (k, v). tree_write t k v) t ws"

lemma load_loop_entries:
  assumes "\<forall>e \<in> set es. entry_fits e" "\<forall>i. env_ok (env i)" "ht_wf h" "ht_upto h ts" "ts < FASTKV_TS_MAX"
  shows "load_loop env ts k (length es) (concat (concat (map entry_chunks es)) @ rest) crc h t =
    (True, foldl entry_crc crc es, ht_writes ts h (dumped es), tree_writes t (dumped es))"
  using assms(1,3,4)
proof (induction es arbitrary: k crc h t)
  case (Cons e es)
  obtain key val where e: "e = (key, val)" by force
  have len: "unat (of_nat (length key) :: u32) = length key" "unat (of_nat (length val) :: u32) = length val"
    using Cons.prems(1) by (simp_all add: entry_fits_def e unsigned_of_nat take_bit_nat_eq_self)
  have put: "fastkv_ht_put (env k) h ts key (Some val) = (FASTKV_OK, ht_write h ts key (Some val))"
    using insert_version_write [OF Cons.prems(2,3) assms(5)] assms(2) by (simp add: fastkv_ht_put_def)
  have "ht_wf (ht_write h ts key (Some val))" "ht_upto (ht_write h ts key (Some val)) ts"
    using hts.wf_write hts.upto_write Cons.prems(2,3) assms(5) by auto
  from Cons.IH [OF _ this] show ?case
    using Cons.prems(1) by (simp add: e entry_chunks_def len put entry_crc_def tree_write_def Let_def)
qed simp

lemma load_image_entries:
  assumes "\<forall>e \<in> set es. entry_fits e" "length es < 2 ^ 64" "\<forall>i. env_ok (env i)" "ht_wf (tbl db)" "ht_upto (tbl db) ts"
    "ts < FASTKV_TS_MAX"
  shows "load_image env (snap_image ts es es) db =
    (FASTKV_OK, db\<lparr>tbl := ht_writes ts (tbl db) (dumped es), tree := tree_writes (tree db) (dumped es),
                   stat_num_keys := of_nat (length es)\<rparr>, ts)"
proof -
  have n: "unat (of_nat (length es) :: u64) = length es"
    using assms(2) by (simp add: unsigned_of_nat take_bit_nat_eq_self)
  have "load_loop env ts 0 (length es) (concat (concat (map entry_chunks es))) 0 (tbl db) (tree db) =
      (True, foldl entry_crc 0 es, ht_writes ts (tbl db) (dumped es), tree_writes (tree db) (dumped es))"
    using load_loop_entries [OF assms(1,3-6), of 0 "[]"] by simp
  then show ?thesis by (simp add: load_image_def snap_image_def read_header_image n)
qed

section \<open>The dump and the table\<close>

text \<open>The values of a table are never empty slices, and small enough for their length fields.\<close>

definition storable :: "ht \<Rightarrow> bool" where
  "storable h \<longleftrightarrow> (\<forall>b \<in> set (buckets h). \<forall>v \<in> set b. vvalue v \<noteq> Some [] \<and> entry_fits (vkey v, slice_bytes (vvalue v)))"

text \<open>No two live keys share a bucket.\<close>

definition one_live_key :: "ht \<Rightarrow> bool" where
  "one_live_key h \<longleftrightarrow> (\<forall>b \<in> set (buckets h). \<forall>v \<in> set b. \<forall>w \<in> set b. snap_live v \<and> snap_live w \<longrightarrow> vkey v = vkey w)"

lemma snap_pick_Some: "snap_pick vs = Some (k, bs) \<Longrightarrow> \<exists>v \<in> set vs. snap_live v \<and> vkey v = k \<and> vvalue v = Some bs"
  by (induction vs) (auto simp: snap_live_def split: if_splits)

lemma snap_pick_None: "snap_pick vs = None \<longleftrightarrow> (\<forall>v \<in> set vs. \<not> snap_live v)"
  by (induction vs) auto

lemma set_snap_entries: "e \<in> set (snap_entries h) \<longleftrightarrow> (\<exists>b \<in> set (buckets h). snap_pick b = Some e)"
  by (force simp: snap_entries_def List.map_filter_def)

lemma snap_entries_fit: "storable h \<Longrightarrow> e \<in> set (snap_entries h) \<Longrightarrow> entry_fits e \<and> snd e \<noteq> []"
  by (cases e) (force simp: set_snap_entries storable_def dest: snap_pick_Some)

lemma bucket_of:
  assumes "ht_wf h" "b \<in> set (buckets h)" "v \<in> set b"
  shows "b = buckets h ! bucket_idx h (vkey v)"
proof -
  obtain i where "i < capacity h" "b = buckets h ! i" using assms(1,2) by (auto simp: in_set_conv_nth ht_wf_def)
  with assms(1,3) show ?thesis by (auto simp: ht_wf_def)
qed

lemma snap_pick_bucket:
  assumes "ht_wf h" "i < capacity h" "snap_pick (buckets h ! i) = Some (k, bs)"
  shows "bucket_idx h k = i"
  using snap_pick_Some [OF assms(3)] assms(1,2) by (auto simp: ht_wf_def)

lemma snap_entries_distinct:
  assumes "ht_wf h"
  shows "distinct (map fst (snap_entries h))"
proof -
  have "distinct (map fst (List.map_filter snap_pick (map ((!) (buckets h)) is)))"
    if "distinct is" "\<forall>i \<in> set is. i < capacity h" for "is"
    using that
  proof (induction "is")
    case (Cons i "is")
    show ?case
    proof (cases "snap_pick (buckets h ! i)")
      case (Some e)
      obtain k bs where e: "e = (k, bs)" by force
      have "k \<notin> fst ` set (List.map_filter snap_pick (map ((!) (buckets h)) is))"
      proof
        assume "k \<in> fst ` set (List.map_filter snap_pick (map ((!) (buckets h)) is))"
        then obtain j bs' where j: "j \<in> set is" "snap_pick (buckets h ! j) = Some (k, bs')"
          by (force simp: List.map_filter_def)
        then have "j = i" using snap_pick_bucket [OF assms] Some e Cons.prems by (metis list.set_intros)
        with j(1) Cons.prems(1) show False by simp
      qed
      with Cons Some e show ?thesis by (simp add: map_filter_simps)
    qed (use Cons in \<open>simp add: map_filter_simps\<close>)
  qed (simp add: map_filter_simps)
  moreover have "map ((!) (buckets h)) [0..<capacity h] = buckets h" using assms map_nth [of "buckets h"] by (simp add: ht_wf_def)
  ultimately show ?thesis unfolding snap_entries_def by (metis atLeastLessThan_iff distinct_upt set_upt)
qed

lemma latest_iff:
  assumes "ht_wf h" "ht_upto h c" "c < FASTKV_TS_MAX"
  shows "latest h k = Some bs \<longleftrightarrow>
    (\<exists>v \<in> set (buckets h ! bucket_idx h k). vkey v = k \<and> end_ts v = FASTKV_TS_MAX \<and> vvalue v = Some bs)"
proof -
  let ?b = "buckets h ! bucket_idx h k" and ?m = "FASTKV_TS_MAX - 1"
  have i: "bucket_idx h k < capacity h" "?b \<in> set (buckets h)"
    using bucket_idx_less [OF assms(1)] assms(1) by (auto simp: ht_wf_def)
  have m: "?m < FASTKV_TS_MAX" "c \<le> ?m" using assms(3) by (simp_all only: ts_max_pred order_refl)
  have vis: "visible v ?m k \<longleftrightarrow> vkey v = k \<and> end_ts v = FASTKV_TS_MAX" if "v \<in> set ?b" for v
  proof -
    have u: "begin_ts v \<le> c" "end_ts v = FASTKV_TS_MAX \<or> end_ts v \<le> c" using assms(2) i(2) that unfolding ht_upto_def by auto
    have "?m < end_ts v \<longleftrightarrow> end_ts v = FASTKV_TS_MAX" using u(2) m by (metis leD order_trans)
    then show ?thesis using u(1) m(2) unfolding visible_def by (metis order_trans)
  qed
  have s: "sorted_wrt apart ?b" using assms(1) i(1) by (simp add: ht_wf_def)
  have get: "latest h k = (case chain_get ?b ?m k of Inl _ \<Rightarrow> None | Inr bs \<Rightarrow> Some bs)"
    by (simp add: latest_def ht_view_def fastkv_ht_get_def)
  show ?thesis
  proof (cases "\<exists>v \<in> set ?b. visible v ?m k")
    case True
    then obtain v where v: "v \<in> set ?b" "visible v ?m k" by blast
    have "w = v" if "w \<in> set ?b" "visible w ?m k" for w
      using s that v apart_visible by (metis apart_sym in_set_conv_nth linorder_neqE_nat sorted_wrt_iff_nth_less)
    then have "latest h k = Some bs \<longleftrightarrow> vvalue v = Some bs"
      using chain_get_the [OF s v] get by (simp split: option.split)
    then show ?thesis using v vis \<open>\<And>w. w \<in> set ?b \<Longrightarrow> visible w ?m k \<Longrightarrow> w = v\<close> by blast
  next
    case False
    then show ?thesis using chain_get_none [of ?b ?m k] get vis by auto
  qed
qed

lemma snap_entries_latest:
  assumes "ht_wf h" "ht_upto h c" "c < FASTKV_TS_MAX" "one_live_key h"
  shows "map_of (snap_entries h) k = latest h k"
proof -
  have b: "buckets h ! bucket_idx h k \<in> set (buckets h)" using bucket_idx_less [OF assms(1)] assms(1) by (simp add: ht_wf_def)
  have "(k, bs) \<in> set (snap_entries h) \<longleftrightarrow> latest h k = Some bs" for bs
  proof
    assume "(k, bs) \<in> set (snap_entries h)"
    then obtain b where b: "b \<in> set (buckets h)" "snap_pick b = Some (k, bs)" by (auto simp: set_snap_entries)
    from snap_pick_Some [OF b(2)] obtain v where "v \<in> set b" "snap_live v" "vkey v = k" "vvalue v = Some bs" by blast
    then show "latest h k = Some bs"
      using bucket_of [OF assms(1) b(1)] latest_iff [OF assms(1-3)] by (auto simp: snap_live_def)
  next
    assume "latest h k = Some bs"
    then obtain v where v: "v \<in> set (buckets h ! bucket_idx h k)" "vkey v = k" "end_ts v = FASTKV_TS_MAX" "vvalue v = Some bs"
      using latest_iff [OF assms(1-3)] by blast
    then have "snap_live v" by (simp add: snap_live_def)
    then obtain k' bs' where p: "snap_pick (buckets h ! bucket_idx h k) = Some (k', bs')"
      using v(1) snap_pick_None by (metis option.exhaust surj_pair)
    from snap_pick_Some [OF p] obtain w where w: "w \<in> set (buckets h ! bucket_idx h k)" "snap_live w" "vkey w = k'" "vvalue w = Some bs'"
      by blast
    have k: "k' = k" using assms(4) b v w \<open>snap_live v\<close> unfolding one_live_key_def by blast
    then have "latest h k = Some bs'" using latest_iff [OF assms(1-3)] w by (auto simp: snap_live_def)
    with \<open>latest h k = Some bs\<close> p b k show "(k, bs) \<in> set (snap_entries h)" by (auto simp: set_snap_entries)
  qed
  then show ?thesis using snap_entries_distinct [OF assms(1)] by (metis map_of_eq_None_iff map_of_is_SomeI map_of_SomeD not_None_eq option.exhaust)
qed

section \<open>Names\<close>

lemma length_snap_affixes [simp]: "length SNAP_FILENAME_PFX = 9" "length SNAP_FILENAME_SFX = 4"
  by (simp_all add: SNAP_FILENAME_PFX_def SNAP_FILENAME_SFX_def)

lemma strstr_prefix: "b \<notin> set pre \<Longrightarrow> strstr (b # bs) (pre @ b # bs @ rest) = Some (length pre)"
  by (induction pre) auto

text \<open>A finished snapshot and one still being written are both taken for snapshots.\<close>

lemma snap_of_name_file:
  assumes "length sid = 32" "0x2E \<notin> set sid"
  shows "snap_of_name (snap_file sid @ rest) = Some sid"
proof -
  have "strstr SNAP_FILENAME_SFX (snap_file sid @ rest) = Some 41"
    using strstr_prefix [of "0x2E" "SNAP_FILENAME_PFX @ sid" "[0x62, 0x69, 0x6E]" rest] assms
    by (simp add: snap_file_def SNAP_FILENAME_SFX_def SNAP_FILENAME_PFX_def)
  then show ?thesis using assms(1) by (simp add: snap_of_name_def snap_file_def SNAP_ID_LEN_def)
qed

lemma find_one: "length sid = 32 \<Longrightarrow> 0x2E \<notin> set sid \<Longrightarrow> find_latest_snapshot (Some [snap_file sid]) = Some (snap_file sid)"
  using snap_of_name_file [of sid "[]"] by (simp add: find_latest_snapshot_def)

lemma tmp_ne_snap: "tmp_file sid \<noteq> snap_file sid'" if "length sid = length sid'"
  using that by (simp add: tmp_file_def snap_file_def)

section \<open>Writing and loading\<close>

definition load_ok :: "load_env \<Rightarrow> bool" where
  "load_ok env \<longleftrightarrow> ld_ctx env \<and> ld_open env \<and> ld_map env \<and> (\<forall>i. env_ok (ld_ht env i))"

lemma snapshot_write_cases:
  assumes "fastkv_snapshot_write os env ts db h2 = (rc, sid, db')" "files (dsk db) (tmp_file sid) = None"
  shows "(rc = FASTKV_OK \<longrightarrow> files (dsk db') (snap_file sid) = Some (snap_image ts (snap_entries (tbl db)) (snap_entries h2))
        \<and> durable (dsk db') (snap_file sid) = Some (snap_image ts (snap_entries (tbl db)) (snap_entries h2))
        \<and> length (snap_image ts (snap_entries (tbl db)) (snap_entries h2)) < 2 ^ 64)
    \<and> (\<forall>n. n \<noteq> tmp_file sid \<and> (rc = FASTKV_OK \<longrightarrow> n \<noteq> snap_file sid) \<longrightarrow> same_file n (dsk db) (dsk db'))
    \<and> (\<exists>ctx d. db' = db\<lparr>uuid7 := ctx, dsk := d\<rparr>)
    \<and> (healthy os \<and> sn_ctx env \<and> sn_open env \<and> sn_rename env
        \<and> length (snap_image ts (snap_entries (tbl db)) (snap_entries h2)) \<le> INT64_MAX \<longrightarrow> rc = FASTKV_OK)"
proof -
  obtain ctx where u: "uuid7_hex (uuid7 db) (sn_now env) (sn_fresh env) = (sid, ctx)"
    using assms(1) by (auto simp: fastkv_snapshot_write_def Let_def split: prod.splits if_splits)
  let ?tmp = "tmp_file sid" and ?db = "db\<lparr>uuid7 := ctx\<rparr>"
  obtain rc1 d1 where o: "fastkv_io_open (sn_ctx env) (sn_open env) ?tmp (dsk db) = (rc1, d1)" by force
  have o1: "only_file ?tmp (dsk db) d1" "rc1 = FASTKV_OK \<longrightarrow> files d1 ?tmp = Some []"
      "sn_ctx env \<and> sn_open env \<longrightarrow> rc1 = FASTKV_OK"
    using o assms(2) by (auto simp: fastkv_io_open_def only_file_def same_file_def split: if_splits)
  have ne: "?tmp \<noteq> snap_file sid" by (rule tmp_ne_snap) simp
  show ?thesis
  proof (cases "rc1 = FASTKV_OK")
    case False
    then have "rc = rc1" "db' = ?db\<lparr>dsk := d1\<rparr>" using assms(1) u o by (auto simp: fastkv_snapshot_write_def Let_def)
    then show ?thesis using o1 False by (auto simp: only_file_def)
  next
    case True
    let ?es1 = "snap_entries (tbl db)" and ?es2 = "snap_entries h2"
    obtain rc2 d2 where b: "snap_body os ?tmp ts ?es1 ?es2 d1 = (rc2, d2)" by force
    note img = snap_body_image [OF _ b]
    have o2: "only_file ?tmp (dsk db) d2" using img o1 True only_file_trans by blast
    have rm: "only_file ?tmp (dsk db) (sys_remove ok ?tmp d2)" for ok
      using o2 by (auto simp: only_file_def same_file_def sys_remove_def)
    have r: "(rc, sid, db') =
       (if rc2 \<noteq> FASTKV_OK then (rc2, sid, ?db\<lparr>dsk := sys_remove (sn_remove env) ?tmp d2\<rparr>)
        else if \<not> sn_rename env then (FASTKV_ERR_IO, sid, ?db\<lparr>dsk := sys_remove (sn_remove env) ?tmp d2\<rparr>)
        else (FASTKV_OK, sid, ?db\<lparr>dsk := sys_rename ?tmp (snap_file sid) d2\<rparr>))"
      using assms(1) u o True b by (simp add: fastkv_snapshot_write_def Let_def)
    show ?thesis
    proof (cases "rc2 = FASTKV_OK \<and> sn_rename env")
      case True
      then have "rc = FASTKV_OK" "db' = ?db\<lparr>dsk := sys_rename ?tmp (snap_file sid) d2\<rparr>" using r by auto
      then show ?thesis
        using img o1(2) \<open>rc1 = FASTKV_OK\<close> True o2 ne by (auto simp: sys_rename_def only_file_def same_file_def)
    next
      case False
      then have "rc \<noteq> FASTKV_OK" "db' = ?db\<lparr>dsk := sys_remove (sn_remove env) ?tmp d2\<rparr>" using r by (auto split: if_splits)
      moreover have "\<not> (healthy os \<and> sn_rename env \<and> length (snap_image ts ?es1 ?es2) \<le> INT64_MAX)"
        using img o1(2) \<open>rc1 = FASTKV_OK\<close> False by auto
      ultimately show ?thesis using rm by (auto simp: only_file_def)
    qed
  qed
qed

lemma snapshot_load_image:
  assumes "find_latest_snapshot dir = Some path" "files (dsk db) path = Some f" "f \<noteq> []" "length f < 2 ^ 64" "load_ok env"
  shows "fastkv_snapshot_load env dir db = load_image (ld_ht env) f db"
proof -
  have n: "unat (of_nat (length f) :: u64) = length f" using assms(4) by (simp add: unsigned_of_nat take_bit_nat_eq_self)
  then have "(of_nat (length f) :: u64) \<noteq> 0" using assms(3) by (metis length_0_conv unsigned_0)
  then show ?thesis
    using assms n by (simp add: fastkv_snapshot_load_def load_ok_def fastkv_io_size_def fastkv_io_mmap_def fastkv_offset_to_offt_def)
qed

lemma length_snap_entries: "ht_wf h \<Longrightarrow> length (snap_entries h) < 2 ^ 64"
proof -
  assume "ht_wf h"
  then obtain k where "k < 64" "length (buckets h) = 2 ^ k" by (auto simp: ht_wf_def pow2_def)
  moreover from this(1) have "(2::nat) ^ k < 2 ^ 64" by (intro power_strict_increasing) simp_all
  moreover have "length (snap_entries h) \<le> length (buckets h)" by (simp add: snap_entries_def List.map_filter_def)
  ultimately show ?thesis by simp
qed

lemma writes_latest_map:
  assumes "ht_wf h" "ht_upto h ts" "ts < FASTKV_TS_MAX" "distinct (map fst es)" "\<forall>e \<in> set es. snd e \<noteq> []"
  shows "latest (ht_writes ts h (dumped es)) k = (case map_of es k of Some v \<Rightarrow> Some v | None \<Rightarrow> latest h k)"
proof -
  have m: "FASTKV_TS_MAX - 1 < FASTKV_TS_MAX" "ts \<le> FASTKV_TS_MAX - 1" using assms(3) by (simp_all only: ts_max_pred order_refl)
  have "map_of (rev (dumped es)) k = map_option Some (map_of es k)"
  proof -
    have "map_of (rev (dumped es)) = map_of (dumped es)"
      using assms(4) by (intro map_of_rev_distinct) (simp add: comp_def case_prod_unfold)
    then show ?thesis by (simp add: map_of_map)
  qed
  moreover have "v \<noteq> []" if "map_of es k = Some v" for v using assms(5) map_of_SomeD [OF that] by auto
  ultimately show ?thesis
    using hts.view_writes [OF assms(1-3) m(1), of "dumped es" k] m(2)
    by (simp add: latest_def split: option.split)
qed

section \<open>Properties\<close>

definition empty_table :: "ht \<Rightarrow> bool" where
  "empty_table h \<longleftrightarrow> ht_wf h \<and> (\<forall>b \<in> set (buckets h). b = [])"

lemma empty_table_facts:
  assumes "empty_table h"
  shows "ht_wf h" "ht_upto h c" "latest h k = None"
proof -
  show wf: "ht_wf h" and "ht_upto h c" using assms by (auto simp: empty_table_def ht_upto_def)
  have "buckets h ! bucket_idx h k = []"
    using assms bucket_idx_less [OF wf] by (simp add: empty_table_def ht_wf_def)
  then show "latest h k = None" by (simp add: latest_def ht_view_def fastkv_ht_get_def)
qed

definition live_version :: "fastkv_ts \<Rightarrow> bytes \<Rightarrow> bytes \<Rightarrow> version" where
  "live_version ts k v = \<lparr>begin_ts = ts, end_ts = FASTKV_TS_MAX, vkey = k, vvalue = Some v\<rparr>"

definition one_bucket :: "version list \<Rightarrow> ht" where
  "one_bucket vs = \<lparr>buckets = [vs], capacity = 1, num_keys = 0, num_versions = of_nat (length vs)\<rparr>"

lemma one_bucket_wf: "sorted_wrt apart vs \<Longrightarrow> ht_wf (one_bucket vs)"
proof -
  assume "sorted_wrt apart vs"
  moreover have "pow2 1" unfolding pow2_def by (intro exI [of _ 0]) simp
  moreover have "bucket_idx (one_bucket vs) k = 0" for k by (simp add: bucket_idx_def one_bucket_def)
  ultimately show ?thesis by (simp add: ht_wf_def) (simp add: one_bucket_def)
qed

lemma one_bucket_latest:
  assumes "sorted_wrt apart vs" "\<forall>v \<in> set vs. begin_ts v \<le> c \<and> end_ts v = FASTKV_TS_MAX" "c < FASTKV_TS_MAX"
  shows "latest (one_bucket vs) k = Some bs \<longleftrightarrow> (\<exists>v \<in> set vs. vkey v = k \<and> vvalue v = Some bs)"
proof -
  have "ht_upto (one_bucket vs) c" using assms(2) by (simp add: ht_upto_def one_bucket_def)
  moreover have "buckets (one_bucket vs) ! bucket_idx (one_bucket vs) k = vs" by (simp add: bucket_idx_def one_bucket_def)
  ultimately show ?thesis using latest_iff [OF one_bucket_wf [OF assms(1)] _ assms(3)] assms(2) by auto
qed

definition sample_snap :: snap_env where
  "sample_snap = \<lparr>sn_now = 2000, sn_fresh = 2000, sn_ctx = True, sn_open = True, sn_rename = True, sn_remove = True\<rparr>"

definition sample_load :: load_env where
  "sample_load = \<lparr>ld_ctx = True, ld_open = True, ld_map = True, ld_ht = (\<lambda>_. mem_ok)\<rparr>"

lemma sample_load_ok: "load_ok sample_load"
  by (simp add: load_ok_def sample_load_def)

lemma length_snap_image:
  "length (snap_image ts es1 es2) = 32 + (\<Sum>(k, v) \<leftarrow> es2. 8 + length k + length v)"
proof -
  have "length (concat (concat (map entry_chunks es))) = (\<Sum>(k, v) \<leftarrow> es. 8 + length k + length v)" for es
    by (induction es) (auto simp: entry_chunks_def)
  then show ?thesis by (simp add: snap_image_def header_chunks_def)
qed

text \<open>On a system without failures the snapshot is written.\<close>

lemma snapshot_write_healthy:
  assumes "healthy os" "sn_ctx env" "sn_open env" "sn_rename env" "files (dsk db) = Map.empty"
    "length (snap_image ts (snap_entries (tbl db)) (snap_entries h2)) \<le> INT64_MAX"
  obtains db' where "fastkv_snapshot_write os env ts db h2
    = (FASTKV_OK, fst (uuid7_hex (uuid7 db) (sn_now env) (sn_fresh env)), db')"
proof -
  obtain rc sid db' where w: "fastkv_snapshot_write os env ts db h2 = (rc, sid, db')" by (metis prod_cases3)
  have "sid = fst (uuid7_hex (uuid7 db) (sn_now env) (sn_fresh env))"
    using w by (auto simp: fastkv_snapshot_write_def Let_def split: prod.splits if_splits)
  moreover have "rc = FASTKV_OK" using snapshot_write_cases [OF w] assms by simp
  ultimately show thesis using w that by simp
qed

lemma sample_name: "length (fst (uuid7_hex sample_ctx 2000 2000)) = 32 \<and> 0x2E \<notin> set (fst (uuid7_hex sample_ctx 2000 2000))"
  by code_simp

text \<open>
  Property C9.  Round trip of a snapshot: when a snapshot of a well-formed table was written without error, whatever
  the system did with each write, and it is the newest of the directory, loading it into an empty database of any
  capacity returns \<^verbatim>\<open>FASTKV_OK\<close>, the timestamp and the number of dumped pairs, and the pairs dumped are the live pairs
  of the loaded table.  They are all the live pairs of the original if no two live keys share a bucket.
\<close>

theorem snapshot_roundtrip:
  assumes "ht_wf (tbl db)" "storable (tbl db)" "ts < FASTKV_TS_MAX" "files (dsk db) (tmp_file sid) = None"
    and w: "fastkv_snapshot_write os env ts db (tbl db) = (FASTKV_OK, sid, db')"
    and "find_latest_snapshot dir = Some (snap_file sid)" "files (dsk db0) (snap_file sid) = files (dsk db') (snap_file sid)"
    and "empty_table (tbl db0)" "load_ok lenv"
  shows "\<exists>db1. fastkv_snapshot_load lenv dir db0 = (FASTKV_OK, db1, ts)
    \<and> latest (tbl db1) = map_of (snap_entries (tbl db)) \<and> stat_num_keys db1 = of_nat (length (snap_entries (tbl db)))
    \<and> (one_live_key (tbl db) \<and> ht_upto (tbl db) c \<and> c < FASTKV_TS_MAX \<longrightarrow> latest (tbl db1) = latest (tbl db))"
proof -
  let ?es = "snap_entries (tbl db)"
  have f: "files (dsk db0) (snap_file sid) = Some (snap_image ts ?es ?es)" "length (snap_image ts ?es ?es) < 2 ^ 64"
    using snapshot_write_cases [OF w assms(4)] assms(7) by auto
  have "snap_image ts ?es ?es \<noteq> []" by (auto simp: snap_image_def header_chunks_def le_enc_def)
  note load = snapshot_load_image [OF assms(6) f(1) this f(2) assms(9)]
  note e = empty_table_facts [OF assms(8)]
  have "fastkv_snapshot_load lenv dir db0 =
      (FASTKV_OK, db0\<lparr>tbl := ht_writes ts (tbl db0) (dumped ?es), tree := tree_writes (tree db0) (dumped ?es),
                      stat_num_keys := of_nat (length ?es)\<rparr>, ts)"
    unfolding load using assms(2,9)
    by (intro load_image_entries [OF _ length_snap_entries [OF assms(1)] _ e(1,2) assms(3)])
      (auto simp: load_ok_def snap_entries_fit)
  moreover have "latest (ht_writes ts (tbl db0) (dumped ?es)) = map_of ?es"
    using writes_latest_map [OF e(1,2) assms(3) snap_entries_distinct [OF assms(1)]] snap_entries_fit [OF assms(2)] e(3)
    by (auto simp: fun_eq_iff split: option.split)
  moreover have "map_of ?es = latest (tbl db)" if "one_live_key (tbl db)" "ht_upto (tbl db) c" "c < FASTKV_TS_MAX"
    using snap_entries_latest [OF assms(1) that(2,3,1)] by (simp add: fun_eq_iff)
  ultimately show ?thesis by simp
qed

theorem snapshot_roundtrip_witness:
  "\<exists>sid db' db1. fastkv_snapshot_write (\<lambda>_. SysOk) sample_snap 5 (sample_db\<lparr>tbl := one_bucket [live_version 3 [7] [1, 2]]\<rparr>)
       (one_bucket [live_version 3 [7] [1, 2]]) = (FASTKV_OK, sid, db')
     \<and> fastkv_snapshot_load sample_load (Some [snap_file sid]) (sample_db\<lparr>dsk := dsk db'\<rparr>) = (FASTKV_OK, db1, 5)
     \<and> latest (tbl db1) [7] = Some [1, 2] \<and> stat_num_keys db1 = 1"
proof -
  let ?h = "one_bucket [live_version 3 [7] [1, 2]]"
  let ?db = "sample_db\<lparr>tbl := ?h\<rparr>" and ?sid = "fst (uuid7_hex sample_ctx 2000 2000)"
  have es: "snap_entries ?h = [([7], [1, 2])]"
    by (simp add: snap_entries_def one_bucket_def live_version_def snap_live_def map_filter_simps)
  have "sample_db\<lparr>tbl := ?h\<rparr> = ?db" "files (dsk ?db) = Map.empty" "uuid7 ?db = sample_ctx" by (simp_all add: sample_db_def)
  then obtain db' where w: "fastkv_snapshot_write (\<lambda>_. SysOk) sample_snap 5 ?db (tbl ?db) = (FASTKV_OK, ?sid, db')"
    using snapshot_write_healthy [of "\<lambda>_. SysOk" sample_snap ?db 5 "tbl ?db"]
    by (auto simp: healthy_def sample_snap_def length_snap_image es INT64_MAX_def)
  have t: "ht_wf (tbl ?db)" "storable (tbl ?db)" "(5 :: u64) < FASTKV_TS_MAX" "files (dsk ?db) (tmp_file ?sid) = None"
    using one_bucket_wf [of "[live_version 3 [7] [1, 2]]"]
    by (simp_all add: storable_def FASTKV_TS_MAX_def sample_db_def) (simp add: one_bucket_def live_version_def entry_fits_def)
  have e: "empty_table (tbl (sample_db\<lparr>dsk := dsk db'\<rparr>))" using sample_tbl_ok(1) by (simp add: empty_table_def) (simp add: sample_db_def)
  have "find_latest_snapshot (Some [snap_file ?sid]) = Some (snap_file ?sid)" using sample_name find_one by simp
  from snapshot_roundtrip [OF t w this _ e sample_load_ok, of 3] obtain db1 where
    "fastkv_snapshot_load sample_load (Some [snap_file ?sid]) (sample_db\<lparr>dsk := dsk db'\<rparr>) = (FASTKV_OK, db1, 5)"
    "latest (tbl db1) = map_of (snap_entries ?h)" "stat_num_keys db1 = of_nat (length (snap_entries ?h))" by auto
  with w es show ?thesis by auto
qed



text \<open>
  Property C21.  Live keys that share a bucket are lost: the two loops leave a bucket after its first live version.  Of
  the two live keys of this one-bucket table only one is in the image, and after loading it the other one is gone.
\<close>

theorem snapshot_loses_colliding_key:
  "let h = one_bucket [live_version 4 [8] [2], live_version 3 [7] [1]];
       (rc, db, ts) = load_image (\<lambda>_. mem_ok) (snap_image 5 (snap_entries h) (snap_entries h)) sample_db
   in ht_wf h \<and> latest h [7] = Some [1] \<and> latest h [8] = Some [2]
      \<and> rc = FASTKV_OK \<and> latest (tbl db) [8] = Some [2] \<and> latest (tbl db) [7] = None"
proof -
  let ?vs = "[live_version 4 [8] [2], live_version 3 [7] [1]]"
  have s: "sorted_wrt apart ?vs" by (simp add: apart_def live_version_def)
  have l: "latest (one_bucket ?vs) [7] = Some [1]" "latest (one_bucket ?vs) [8] = Some [2]"
    using one_bucket_latest [OF s, of 5] by (simp_all add: live_version_def FASTKV_TS_MAX_def)
  have es: "snap_entries (one_bucket ?vs) = [([8], [2])]"
    by (simp add: snap_entries_def one_bucket_def live_version_def snap_live_def map_filter_simps)
  have m: "(5 :: u64) < FASTKV_TS_MAX" by (simp add: FASTKV_TS_MAX_def)
  have "load_image (\<lambda>_. mem_ok) (snap_image 5 [([8], [2])] [([8], [2])]) sample_db =
      (FASTKV_OK, sample_db\<lparr>tbl := ht_writes 5 (tbl sample_db) (dumped [([8], [2])]),
         tree := tree_writes (tree sample_db) (dumped [([8], [2])]), stat_num_keys := of_nat (length [([8], [2]) :: bytes \<times> bytes])\<rparr>, 5)"
    by (rule load_image_entries) (simp_all add: entry_fits_def sample_tbl_ok m)
  then show ?thesis
    using one_bucket_wf [OF s] l latest_write [OF sample_tbl_ok(1) m, of "[8]" "Some [2]"] sample_tbl_ok(3)
    by (simp add: es)
qed

text \<open>
  A crash while a snapshot is written leaves a file \<^verbatim>\<open>snapshot-<id>.bin.tmp\<close> that the directory loops take for the
  newest snapshot.  Loading it fails, and the complete older snapshot is not tried.
\<close>

lemma torn_snapshot_hides_good:
  assumes "length a = 32" "length b = 32" "0x2E \<notin> set a" "0x2E \<notin> set b" "a < b"
    and "files (dsk db) (tmp_file b) = Some torn" "torn \<noteq> []" "length torn < 32" "load_ok env"
  shows "fastkv_snapshot_load env (Some [snap_file a, tmp_file b]) db = (FASTKV_ERR_CORRUPT, db, 0)"
proof -
  have n: "snap_of_name (snap_file a) = Some a" "snap_of_name (tmp_file b) = Some b"
    using snap_of_name_file [of a "[]"] snap_of_name_file [of b "[0x2E, 0x74, 0x6D, 0x70]"] assms(1-4)
    by (simp_all add: tmp_file_def)
  have "a < b @ SNAP_FILENAME_SFX @ [0x2E, 0x74, 0x6D, 0x70]"
    using lex_less_append_same_length [of a b "[]"] assms(1,2,5) by simp
  then have f: "find_latest_snapshot (Some [snap_file a, tmp_file b]) = Some (tmp_file b)"
    using n by (simp add: find_latest_snapshot_def) (simp add: tmp_file_def snap_file_def)
  have "read_header torn = None"
    using assms(8) by (auto simp: read_header_def read_bytes_def)
  moreover have "length torn < 2 ^ 64" using assms(8) by simp
  ultimately show ?thesis using snapshot_load_image [OF f assms(6,7) _ assms(9)] by (simp add: load_image_def)
qed

end
