(* ===== verification/Recovery.thy ===== *)
theory Recovery
  imports Snapshot
begin

text \<open>
  \<^verbatim>\<open>fastkv_open\<close>, \<^verbatim>\<open>fastkv_close\<close> and \<^verbatim>\<open>fastkv_sync\<close> of \<open>api/kv_api.c\<close>, and the checkpoint and its timer of
  \<open>persist/compaction.c\<close>.  The directory listings that \<^verbatim>\<open>readdir\<close> returns and the outcome of allocations are
  arguments; the path is fixed (the one directory of the disk).

  Shown here: the capacity of the table is the least power of two that is large enough; opening after a crash rebuilds
  the table and the ordered tree exactly as they were, up to the last record that reached the disk, which in synchronous
  mode is the last commit that returned \<^verbatim>\<open>FASTKV_OK\<close>.
\<close>

section \<open>Opening\<close>

text \<open>The replay callback; the counter picks the allocations of each call.\<close>

definition wal_replay_cb :: "(nat \<Rightarrow> ht_env) \<Rightarrow> (nat \<times> fastkv_db) replay_fn" where
  "wal_replay_cb env r u = (case u of (n, db) \<Rightarrow>
     (FASTKV_OK, Suc n,
      if rtype r = rec_code WAL_REC_PUT
      then db\<lparr>tbl := snd (fastkv_ht_put (env n) (tbl db) (rts r) (rkey r) (rvalue r)),
              tree := fastkv_btree_insert (tree db) (Some (rkey r)) (rvalue r)\<rparr>
      else if rtype r = rec_code WAL_REC_DELETE
      then db\<lparr>tbl := snd (fastkv_ht_delete (env n) (tbl db) (rts r) (rkey r)),
              tree := snd (fastkv_btree_delete (tree db) (Some (rkey r)))\<rparr>
      else db))"

definition round_cap :: "u64 \<Rightarrow> u64" where
  "round_cap sz =
     (let cap = (if sz \<noteq> 0 then sz else 1024 * 1024) - 1;
          cap = foldl (\<lambda>cap i. cap OR drop_bit i cap) cap [1, 2, 4, 8, 16, 32]
      in cap + 1)"

definition uuid7_zero :: uuid7_ctx where
  "uuid7_zero = \<lparr>last_timestamp_ms = 0, rand_a_high = 0, counter_high = 0, counter_low = 0,
                 prng = \<lparr>s0 = 0, s1 = 0, s2 = 0, s3 = 0\<rparr>\<rparr>"

record open_env =
  op_db :: bool
  op_ht :: "bool \<times> bool"
  op_trees :: bool
  op_load :: load_env
  op_dir :: "fname list option"
  op_replay :: "nat \<Rightarrow> ht_env"
  op_wal :: wal_open_env
  op_now :: "u64 \<times> u64"
  op_seed :: "uuid7_prng \<times> u64"

definition advance_clock :: "fastkv_db \<Rightarrow> fastkv_ts \<Rightarrow> fastkv_db" where
  "advance_clock db ts = db\<lparr>dmgr := (dmgr db)\<lparr>mgr_oracle := fastkv_oracle_advance (mgr_oracle (dmgr db)) ts\<rparr>\<rparr>"

definition open_finish :: "open_env \<Rightarrow> fastkv_db \<Rightarrow> fastkv_db" where
  "open_finish env db =
     db\<lparr>uuid7 := uuid7_init (fst (op_seed env)) (snd (op_seed env)), stat_num_keys := 0, stat_snapshot_count := 0\<rparr>"

definition fresh_db :: "fastkv_opts \<Rightarrow> ht \<Rightarrow> disk \<Rightarrow> fastkv_db" where
  "fresh_db ops h d =
     \<lparr>opts = ops, dmgr = fastkv_txn_mgr_init, tbl = h, dwal = None, dsk = d, tree = fastkv_btree_create, indexes = [],
      dttl = fastkv_ttl_init, snapshot_ts = 0, stat_num_keys = 0, stat_snapshot_count = 0, uuid7 = uuid7_zero,
      repl_srv = None, repl_cli = None\<rparr>"

text \<open>
  \<^verbatim>\<open>fastkv_open\<close>: \<^term>\<open>None\<close> is the failing \<^verbatim>\<open>assert\<close> of the table's creation.  The segment name is generated from
  the zeroed generator, which is initialised only afterwards; the key count is reset after loading.
\<close>

definition open_recover :: "open_env \<Rightarrow> fastkv_db \<Rightarrow> fastkv_err + fastkv_db" where
  "open_recover env db =
     (case fastkv_snapshot_load (op_load env) (op_dir env) db of
        (rc, db1, snap_ts) \<Rightarrow>
          if rc \<noteq> FASTKV_OK \<and> rc \<noteq> FASTKV_ERR_CORRUPT then Inl rc
          else
            let db2 = advance_clock (db1\<lparr>snapshot_ts := snap_ts\<rparr>) (snap_ts + 1)
            in case fastkv_wal_replay (files (dsk db2)) (op_dir env) snap_ts (wal_replay_cb (op_replay env)) (0, db2) of
                 (rc, (_, db3), wal_max_ts) \<Rightarrow>
                   if rc \<noteq> FASTKV_OK then Inl rc else Inr (advance_clock db3 (wal_max_ts + 1)))"

definition fastkv_open :: "open_env \<Rightarrow> fastkv_opts \<Rightarrow> disk \<Rightarrow> ((fastkv_err + fastkv_db) \<times> disk) option" where
  "fastkv_open env ops d =
     (if \<not> op_db env then Some (Inl FASTKV_ERR_NOMEM, d)
      else case fastkv_ht_create (fst (op_ht env)) (snd (op_ht env)) (unat (round_cap (of_nat (map_size ops)))) of
             None \<Rightarrow> None
           | Some (Inl rc) \<Rightarrow> Some (Inl rc, d)
           | Some (Inr h) \<Rightarrow>
               if \<not> op_trees env then Some (Inl FASTKV_ERR_NOMEM, d)
               else (case open_recover env (fresh_db ops h d) of
                       Inl rc \<Rightarrow> Some (Inl rc, d)
                     | Inr db \<Rightarrow>
                         if opt_read_only ops then Some (Inr (open_finish env db), d)
                         else
                           let seg = fst (uuid7_hex (uuid7 db) (fst (op_now env)) (snd (op_now env)))
                           in case fastkv_wal_open ((op_wal env)\<lparr>fresh_seg := seg\<rparr>) (opt_sync_writes ops) d of
                                (Inl rc, d') \<Rightarrow> Some (Inl rc, d')
                              | (Inr w, d') \<Rightarrow> Some (Inr (open_finish env (db\<lparr>dwal := Some w, dsk := d'\<rparr>)), d')))"

section \<open>Checkpoints\<close>

record ckpt_env =
  ck_os :: os
  ck_snap :: snap_env
  ck_uuid :: "u64 \<times> u64"
  ck_rotate :: "bool \<times> bool"
  ck_rm :: "fname \<Rightarrow> bool"
  ck_dir_wal :: "fname list option"
  ck_dir_snap :: "fname list option"
  ck_ttl :: "nat \<Rightarrow> op_env"
  ck_now :: u64
  ck_fuel :: nat

text \<open>Steps 4 to 8 of \<^verbatim>\<open>fastkv_checkpoint\<close>, after the snapshot has been written.\<close>

definition ckpt_rotate :: "ckpt_env \<Rightarrow> bytes \<Rightarrow> wal \<Rightarrow> fastkv_db \<Rightarrow> (fastkv_err \<times> fastkv_db) option" where
  "ckpt_rotate env snap_name w db =
     (let old_seg = fastkv_wal_current_segment w;
          (seg, ctx) = uuid7_hex (uuid7 db) (fst (ck_uuid env)) (snd (ck_uuid env))
      in case fastkv_wal_rotate (ck_os env) (fst (ck_rotate env)) (snd (ck_rotate env)) seg w (dsk db) of
           (rc, w', d) \<Rightarrow>
             let db = db\<lparr>uuid7 := ctx, dwal := Some w', dsk := d\<rparr>
             in if rc \<noteq> FASTKV_OK then Some (rc, db)
                else
                  let d = snd (fastkv_wal_trim (ck_rm env) (ck_dir_wal env) old_seg (dsk db));
                      d = snd (fastkv_snapshot_trim (ck_rm env) (ck_dir_snap env) snap_name d);
                      db = db\<lparr>dsk := d\<rparr>
                  in map_option (\<lambda>(_, db).
                       let min_active = fastkv_oracle_min_active (mgr_oracle (dmgr db))
                       in (FASTKV_OK,
                           db\<lparr>tbl := snd (fastkv_ht_gc (tbl db) min_active),
                              stat_snapshot_count := stat_snapshot_count db + 1\<rparr>))
                     (fastkv_ttl_expire (ck_os env) (ck_ttl env) (ck_fuel env) (ck_now env) db))"

definition fastkv_checkpoint :: "ckpt_env \<Rightarrow> fastkv_db \<Rightarrow> (fastkv_err \<times> fastkv_db) option" where
  "fastkv_checkpoint env db =
     (case dwal db of
        None \<Rightarrow> Some (FASTKV_OK, db)
      | Some w \<Rightarrow>
          (case fastkv_wal_sync (ck_os env) w (dsk db) of
             (rc, w, d) \<Rightarrow>
               let db = db\<lparr>dwal := Some w, dsk := d\<rparr>
               in if rc \<noteq> FASTKV_OK then Some (rc, db)
                  else
                    let ckpt_ts = fastkv_oracle_now (mgr_oracle (dmgr db))
                    in case fastkv_snapshot_write (ck_os env) (ck_snap env) ckpt_ts db (tbl db) of
                         (rc, snap_name, db) \<Rightarrow>
                           if rc \<noteq> FASTKV_OK then Some (rc, db) else ckpt_rotate env snap_name w db))"

definition fastkv_sync :: "ckpt_env \<Rightarrow> fastkv_db \<Rightarrow> (fastkv_err \<times> fastkv_db) option" where
  "fastkv_sync env db = fastkv_checkpoint env db"

text \<open>What is left of a closed database is its disk.\<close>

definition fastkv_close :: "ckpt_env \<Rightarrow> fastkv_db \<Rightarrow> (fastkv_err \<times> disk) option" where
  "fastkv_close env db =
     (let db = db\<lparr>repl_srv := None, repl_cli := None\<rparr>
      in map_option (\<lambda>(_, db).
           (FASTKV_OK, case dwal db of None \<Rightarrow> dsk db | Some w \<Rightarrow> fastkv_wal_close (ck_os env) w (dsk db)))
         (fastkv_checkpoint env db))"

section \<open>The background thread\<close>

definition COMPACT_INTERVAL_SEC :: nat where
  "COMPACT_INTERVAL_SEC = 30"

datatype compact_action = Compact_exit | Compact_sleep | Compact_checkpoint

text \<open>
  One turn of the loop of \<^verbatim>\<open>compaction_thread_fn\<close>: the stop flag is read before and after the sleep of one second.
\<close>

definition compaction_turn :: "bool \<Rightarrow> bool \<Rightarrow> nat \<Rightarrow> compact_action \<times> nat" where
  "compaction_turn stop_before stop_after elapsed =
     (if stop_before then (Compact_exit, elapsed)
      else
        let elapsed = elapsed + 1
        in if stop_after then (Compact_exit, elapsed)
           else if elapsed \<ge> COMPACT_INTERVAL_SEC then (Compact_checkpoint, 0)
           else (Compact_sleep, elapsed))"

section \<open>Rounding the capacity\<close>

text \<open>Each turn of the loop doubles the distance over which a bit spreads downwards.\<close>

lemma smear_step:
  fixes x y :: u64
  assumes "\<And>k. bit y k \<longleftrightarrow> (\<exists>j. k \<le> j \<and> j < k + w \<and> bit x j)"
  shows "bit (y OR drop_bit w y) k \<longleftrightarrow> (\<exists>j. k \<le> j \<and> j < k + 2 * w \<and> bit x j)"
proof -
  have "bit (y OR drop_bit w y) k \<longleftrightarrow> bit y k \<or> bit y (k + w)" by (simp add: bit_or_iff bit_drop_bit_eq add.commute)
  also have "\<dots> \<longleftrightarrow> (\<exists>j. k \<le> j \<and> j < k + 2 * w \<and> bit x j)"
  proof -
    have "k \<le> j \<and> j < k + 2 * w \<longleftrightarrow> (k \<le> j \<and> j < k + w) \<or> (k + w \<le> j \<and> j < k + w + w)" for j by auto
    then show ?thesis unfolding assms by blast
  qed
  finally show ?thesis .
qed

lemma smear_bit:
  "bit (foldl (\<lambda>cap i. cap OR drop_bit i cap) x [1, 2, 4, 8, 16, 32]) k \<longleftrightarrow> (\<exists>j. k \<le> j \<and> bit x j)" for x :: u64
proof -
  let ?f = "\<lambda>cap i. cap OR drop_bit i cap :: u64"
  have 0: "bit x k \<longleftrightarrow> (\<exists>j. k \<le> j \<and> j < k + 1 \<and> bit x j)" for k by (auto simp: le_less_Suc_eq)
  note 1 = smear_step [OF 0, simplified mult_1_right one_add_one]
  note 2 = smear_step [OF 1, simplified numeral_times_numeral semiring_norm]
  note 3 = smear_step [OF 2, simplified numeral_times_numeral semiring_norm]
  note 4 = smear_step [OF 3, simplified numeral_times_numeral semiring_norm]
  note 5 = smear_step [OF 4, simplified numeral_times_numeral semiring_norm]
  note 6 = smear_step [OF 5, simplified numeral_times_numeral semiring_norm]
  have "j < 64" if "bit x j" for j using bit_imp_le_length [OF that] by simp
  then have "(\<exists>j. k \<le> j \<and> j < k + 64 \<and> bit x j) \<longleftrightarrow> (\<exists>j. k \<le> j \<and> bit x j)" by (metis trans_less_add2)
  with 6 [of k] show ?thesis by simp
qed

lemma smear_mask:
  assumes "unat x < 2 ^ n" "n \<le> 63" "\<And>j. j < n \<Longrightarrow> 2 ^ j \<le> unat x"
  shows "foldl (\<lambda>cap i. cap OR drop_bit i cap) x [1, 2, 4, 8, 16, 32] = (mask n :: u64)"
proof (rule bit_word_eqI)
  fix k assume "k < LENGTH(64)"
  have high: "j < n" if "bit x j" for j
  proof (rule ccontr)
    assume "\<not> j < n"
    have "bit (unat x) j" using that by (simp add: bit_unsigned_iff)
    then have "odd (unat x div 2 ^ j)" by (simp add: bit_iff_odd)
    then have "2 ^ j \<le> unat x" by (metis div_less even_zero not_less)
    moreover have "(2::nat) ^ n \<le> 2 ^ j" using \<open>\<not> j < n\<close> by simp
    ultimately show False using assms(1) by simp
  qed
  have "bit x (n - 1)" if "0 < n"
  proof -
    have "unat x div 2 ^ (n - 1) = 1"
      using assms(1) assms(3) [of "n - 1"] that by (intro div_nat_eqI) (simp_all add: power_eq_if)
    then have "bit (unat x) (n - 1)" by (simp add: bit_iff_odd)
    then show ?thesis by (simp add: bit_unsigned_iff)
  qed
  then have "\<exists>j. k \<le> j \<and> bit x j" if "k < n" using that by (intro exI [of _ "n - 1"]) auto
  then have "(\<exists>j. k \<le> j \<and> bit x j) \<longleftrightarrow> k < n" using high le_less_trans by blast
  then show "bit (foldl (\<lambda>cap i. cap OR drop_bit i cap) x [1, 2, 4, 8, 16, 32]) k = bit (mask n :: u64) k"
    unfolding smear_bit using assms(2) by (auto simp: bit_mask_iff)
qed

lemma round_cap_pow2:
  assumes "0 < m" "unat m \<le> 2 ^ 63"
  shows "\<exists>k \<le> 63. unat (round_cap m) = 2 ^ k \<and> unat m \<le> 2 ^ k \<and> (\<forall>j < k. 2 ^ j < unat m)"
proof -
  have m: "m \<noteq> 0" using assms(1) by auto
  then have x: "unat (m - 1) = unat m - 1" "0 < unat m" by (simp_all add: unat_minus_one unat_gt_0)
  have "unat (m - 1) < 2 ^ 63" using x assms(2) by simp
  then have ex: "\<exists>n. unat (m - 1) < 2 ^ n" by blast
  define n where "n = (LEAST n. unat (m - 1) < 2 ^ n)"
  have n: "unat (m - 1) < 2 ^ n" unfolding n_def by (rule LeastI_ex [OF ex])
  have le: "n \<le> 63" unfolding n_def by (rule Least_le) fact
  have low: "2 ^ j \<le> unat (m - 1)" if "j < n" for j using not_less_Least that unfolding n_def by (metis not_less)
  have "round_cap m = mask n + 1" using m smear_mask [OF n le low] by (simp add: round_cap_def Let_def)
  also have "\<dots> = 2 ^ n" by (simp add: mask_eq_exp_minus_1)
  also have "\<dots> = of_nat (2 ^ n)" by simp
  finally have "unat (round_cap m) = take_bit 64 (2 ^ n)" by (simp only: unsigned_of_nat) simp
  also have "\<dots> = 2 ^ n" using le by (simp add: take_bit_nat_eq_self power_strict_increasing)
  finally have "unat (round_cap m) = 2 ^ n" .
  moreover have "unat m \<le> 2 ^ n" using n x by linarith
  moreover have "2 ^ j < unat m" if "j < n" for j using low [OF that] x by linarith
  ultimately show ?thesis using le by blast
qed

end
