(* ===== verification/Crash.thy ===== *)
theory Crash
  imports Recovery
begin

text \<open>
  Crash recovery, across the database, the log and the recovery of \<^verbatim>\<open>fastkv_open\<close>: what is on disk after any sequence
  of operations and a crash at any moment, and what opening makes of it.
\<close>

section \<open>Records as writes\<close>

fun rec_ts :: "wrec \<Rightarrow> fastkv_ts" where
  "rec_ts (ty, ts, k, v) = ts"

fun rec_write :: "ht \<Rightarrow> wrec \<Rightarrow> ht" where
  "rec_write h (ty, ts, k, v) = ht_write h ts k v"

fun rec_tree :: "btree \<Rightarrow> wrec \<Rightarrow> btree" where
  "rec_tree t (ty, ts, k, v) = tree_write t k v"

text \<open>A record of a committed write: its type says whether there is a value.\<close>

fun rec_typed :: "wrec \<Rightarrow> bool" where
  "rec_typed (ty, ts, k, v) \<longleftrightarrow> ty = (if v \<noteq> None then WAL_REC_PUT else WAL_REC_DELETE)"

text \<open>In the order of their timestamps, all from \<open>c\<close> on.\<close>

definition chrono :: "fastkv_ts \<Rightarrow> wrec list \<Rightarrow> bool" where
  "chrono c rs \<longleftrightarrow> sorted (c # map rec_ts rs) \<and> (\<forall>r \<in> set rs. rec_ts r < FASTKV_TS_MAX)"

lemma chrono_Cons: "chrono c (r # rs) \<longleftrightarrow> c \<le> rec_ts r \<and> rec_ts r < FASTKV_TS_MAX \<and> chrono (rec_ts r) rs"
  by (auto simp: chrono_def intro: order_trans)

lemma chrono_append: "chrono c (rs @ ss) \<longleftrightarrow> chrono c rs \<and> chrono c ss \<and> (\<forall>r \<in> set rs. \<forall>s \<in> set ss. rec_ts r \<le> rec_ts s)"
  by (auto simp: chrono_def sorted_append)

lemma chrono_take: "chrono c rs \<Longrightarrow> chrono c (take n rs)"
  by (metis append_take_drop_id chrono_append)

text \<open>The state a list of records rebuilds.\<close>

lemma rec_writes_ok:
  assumes "chrono c rs" "ht_wf h" "ht_upto h c" "btree_wf t" "mirrors t h" "\<forall>r \<in> set rs. rec_ts r \<le> c'" "c \<le> c'"
  shows "ht_wf (foldl rec_write h rs) \<and> ht_upto (foldl rec_write h rs) c' \<and> btree_wf (foldl rec_tree t rs)
    \<and> mirrors (foldl rec_tree t rs) (foldl rec_write h rs)"
  using assms
proof (induction rs arbitrary: c h t)
  case Nil
  then show ?case using hts.upto_mono by auto
next
  case (Cons r rs)
  obtain ty ts k v where r: "r = (ty, ts, k, v)" by (metis prod_cases4)
  have ts: "c \<le> ts" "ts < FASTKV_TS_MAX" "chrono ts rs" "ts \<le> c'" using Cons.prems by (auto simp: chrono_Cons r)
  have u: "ht_upto h ts" using hts.upto_mono Cons.prems(3) ts(1) by blast
  have "ht_wf (ht_write h ts k v)" "ht_upto (ht_write h ts k v) ts" "btree_wf (tree_write t k v)"
      "mirrors (tree_write t k v) (ht_write h ts k v)"
    using hts.wf_write hts.upto_write mirrors_write tree_write_wf Cons.prems u ts(2) by auto
  from Cons.IH [OF ts(3) this] Cons.prems(6) ts(4) show ?case by (simp add: r)
qed

section \<open>Replaying the records\<close>

lemma ht_write_dup: "slice_dup v = slice_dup v' \<Longrightarrow> ht_write h ts k v = ht_write h ts k v'"
  by (simp add: ht_write_def insert_version_ok)

lemma btree_insert_dup:
  assumes "slice_dup v = slice_dup v'"
  shows "fastkv_btree_insert t k v = fastkv_btree_insert t k v'"
proof -
  have leaf: "slice_dup v = slice_dup v' \<Longrightarrow> leaf_insert L a es key v = leaf_insert L a es key v'" for L a es key v
    by (simp only: leaf_insert_def)
  have n: "slice_dup v = slice_dup v' \<Longrightarrow> node_insert n L key v = node_insert n L key v'" for n L key v
  proof (induction n L key v rule: node_insert.induct)
    case (1 a es L key v)
    then show ?case unfolding node_insert.simps by (rule leaf)
  qed (simp add: Let_def)
  show ?thesis by (simp only: fastkv_btree_insert_def n [OF assms, of "root t" "chain t" "slice_bytes k"])
qed

lemma replay_cb_rec:
  assumes "rec_typed (ty, ts, k, v)" "ht_wf (tbl db)" "ht_upto (tbl db) ts" "ts < FASTKV_TS_MAX" "\<forall>i. env_ok (env i)"
    "slice_dup v' = slice_dup v"
  shows "wal_replay_cb env \<lparr>rcrc = crc, rts = ts, rtype = rec_code ty, rkey = k, rvalue = v'\<rparr> (n, db) =
    (FASTKV_OK, Suc n, db\<lparr>tbl := ht_write (tbl db) ts k v, tree := tree_write (tree db) k v\<rparr>)"
proof -
  have ins: "ht_insert_version (env n) (tbl db) ts k x = (FASTKV_OK, ht_write (tbl db) ts k x)" for x
    using insert_version_write [OF assms(2-4)] assms(5) by blast
  show ?thesis
    using assms(1) ht_write_dup [OF assms(6), of "tbl db" ts k] btree_insert_dup [OF assms(6), of "tree db" "Some k"]
    by (cases "v = None") (auto simp: wal_replay_cb_def fastkv_ht_put_def fastkv_ht_delete_def ins tree_write_def)
qed

lemma replay_seen:
  assumes "chrono c rs" "ht_wf (tbl db)" "ht_upto (tbl db) c" "\<forall>r \<in> set rs. rec_typed r \<and> since < rec_ts r" "\<forall>i. env_ok (env i)"
  shows "fold (\<lambda>r u. snd (wal_replay_cb env r u)) (seen since vb rs) (n, db) =
    (n + length rs, db\<lparr>tbl := foldl rec_write (tbl db) rs, tree := foldl rec_tree (tree db) rs\<rparr>)"
  using assms(1-4)
proof (induction rs arbitrary: c n vb db)
  case (Cons r rs)
  obtain ty ts k v where r: "r = (ty, ts, k, v)" by (metis prod_cases4)
  have ts: "c \<le> ts" "ts < FASTKV_TS_MAX" "chrono ts rs" "since < ts" "rec_typed (ty, ts, k, v)"
    using Cons.prems by (auto simp: chrono_Cons r)
  have u: "ht_upto (tbl db) ts" using hts.upto_mono Cons.prems(3) ts(1) by blast
  let ?vb = "vb \<or> slice_bytes v \<noteq> []" and ?db = "db\<lparr>tbl := ht_write (tbl db) ts k v, tree := tree_write (tree db) k v\<rparr>"
  let ?r = "\<lparr>rcrc = rec_crc (rec_code ty) ts k v, rts = ts, rtype = rec_code ty, rkey = k,
             rvalue = (if v = None then None else if ?vb then v else None)\<rparr>"
  have seen: "seen since vb (r # rs) = ?r # seen since ?vb rs" using ts(4,5) by (auto simp: r Let_def)
  have "slice_dup (if v = None then None else if ?vb then v else None) = slice_dup v"
    by (cases v rule: slice_dup.cases) auto
  note cb = replay_cb_rec [OF ts(5) Cons.prems(2) u ts(2) assms(5) this, of _ n]
  have "ht_wf (tbl ?db)" "ht_upto (tbl ?db) ts" using hts.wf_write hts.upto_write Cons.prems(2) u ts(2) by auto
  note IH = Cons.IH [OF ts(3) this, of ?vb "Suc n"]
  show ?case unfolding seen fold_simps comp_apply cb snd_conv using IH Cons.prems(4) by (simp add: r)
qed simp

lemma newest_bound: "\<forall>r \<in> set rs. rec_ts r \<le> c \<Longrightarrow> m \<le> c \<Longrightarrow> newest m rs \<le> c"
  by (induction rs arbitrary: m) (auto simp: newest_def)

lemma newest_ge: "(r \<in> set rs \<longrightarrow> rec_ts r \<le> newest m rs) \<and> m \<le> newest m rs"
proof (induction rs arbitrary: m)
  case (Cons a rs)
  have "newest m (a # rs) = newest (max (rec_ts a) m) rs" by (cases a) (simp add: newest_def)
  with Cons [of "max (rec_ts a) m"] show ?case by (auto intro: order_trans)
qed (simp add: newest_def)

text \<open>Replaying one segment that holds a prefix of a stream of records.\<close>

lemma replay_prefix:
  assumes "chrono c rs" "ht_wf (tbl db)" "ht_upto (tbl db) c" "\<forall>r \<in> set rs. rec_typed r \<and> since < rec_ts r \<and> fits r"
    "\<forall>i. env_ok (env i)" "prefix f (enc_all rs)" "seg_of_name (seg_file seg) = Some seg" "fs (seg_file seg) = Some f"
  obtains n where "n \<le> length rs" "fastkv_wal_replay fs (Some [seg_file seg]) since (wal_replay_cb env) (0, db) =
     (FASTKV_OK, (n, db\<lparr>tbl := foldl rec_write (tbl db) (take n rs), tree := foldl rec_tree (tree db) (take n rs)\<rparr>),
      newest since (take n rs))" "f = enc_all rs \<longrightarrow> n = length rs"
proof -
  define N where "N = complete (length f) rs"
  let ?s = "\<lparr>udata = (0 :: nat, db), max_ts = since, rec_count = 0\<rparr>"
  have fit: "\<forall>r \<in> set rs. fits r" using assms(4) by blast
  obtain tail where t: "take (length f) (enc_all rs) = enc_all (take N rs) @ tail" "read_record tail = None"
    unfolding N_def by (rule take_enc_all [OF fit])
  have f: "f = enc_all (take N rs) @ tail" using assms(6) t(1) by (auto simp: prefix_def)
  have le: "N \<le> length rs"
  proof -
    have "complete m rs \<le> length rs" for m by (induction m rs rule: complete.induct) auto
    then show ?thesis by (simp add: N_def)
  qed
  have all: "complete (length (enc_all rs)) rs = length rs"
    by (induction rs) (simp_all add: enc_all_def)
  have sub: "\<forall>r \<in> set (take N rs). rec_typed r \<and> since < rec_ts r" "\<forall>r \<in> set (take N rs). fits r"
    using assms(4) by (auto dest: in_set_takeD)
  have ok: "fst (wal_replay_cb env r u) = FASTKV_OK" for r u by (simp add: wal_replay_cb_def case_prod_unfold)
  have rl: "replay_loop since (wal_replay_cb env) False f ?s =
      (FASTKV_OK, ?s\<lparr>udata := fold (\<lambda>r u. snd (wal_replay_cb env r u)) (seen since False (take N rs)) (udata ?s),
                  max_ts := newest (max_ts ?s) (take N rs),
                  rec_count := rec_count ?s + of_nat (length (seen since False (take N rs)))\<rparr>)"
    unfolding f using replay_loop_all [OF sub(2) t(2), of "wal_replay_cb env" since False ?s] ok by simp
  have "collect_segments (Some [seg_file seg]) = Inr [seg]" using assms(7) by (simp add: collect_segments_def map_filter_simps)
  then have "fastkv_wal_replay fs (Some [seg_file seg]) since (wal_replay_cb env) (0, db) =
     (FASTKV_OK, (N, db\<lparr>tbl := foldl rec_write (tbl db) (take N rs), tree := foldl rec_tree (tree db) (take N rs)\<rparr>),
      newest since (take N rs))"
    using replay_seen [OF chrono_take [OF assms(1)] assms(2,3) sub(1) assms(5), of False 0] le
    by (simp add: fastkv_wal_replay_def replay_segment_def assms(8) rl)
  with le all show thesis by (intro that [of N]) (auto simp: N_def)
qed

section \<open>The log of a running database\<close>

text \<open>The stream of the current segment; in synchronous mode all of it is durable.  No other file has changed since \<open>d0\<close>.\<close>

definition logged :: "disk \<Rightarrow> bytes \<Rightarrow> bytes \<Rightarrow> fastkv_db \<Rightarrow> bool" where
  "logged d0 seg s db \<longleftrightarrow> (\<exists>w. dwal db = Some w \<and> segment_id w = seg \<and> sync_writes w = opt_sync_writes (opts db)
     \<and> wal_log s w (dsk db) \<and> (sync_writes w \<and> s \<noteq> [] \<longrightarrow>
           durable (dsk db) (seg_file seg) = Some s \<and> files (dsk db) (seg_file seg) = Some s)
     \<and> (\<forall>n. n \<noteq> seg_file seg \<longrightarrow> same_file n d0 (dsk db)))"

lemma logged_cong:
  "dwal db' = dwal db \<Longrightarrow> dsk db' = dsk db \<Longrightarrow> opts db' = opts db \<Longrightarrow> logged d0 seg s db' = logged d0 seg s db"
  by (simp add: logged_def)

lemma log_entry_stream:
  assumes "logged d0 seg s db" "log_entry os env db e ts = (FASTKV_OK, db')"
  shows "logged d0 seg (s @ enc_all (wrecs ts [e])) db' \<and> tbl db' = tbl db \<and> tree db' = tree db"
proof -
  obtain w where w: "dwal db = Some w" "segment_id w = seg" "sync_writes w = opt_sync_writes (opts db)" "wal_log s w (dsk db)"
      "\<forall>n. n \<noteq> seg_file seg \<longrightarrow> same_file n d0 (dsk db)"
    using assms(1) by (auto simp: logged_def)
  let ?ty = "if wvalue e \<noteq> None then WAL_REC_PUT else WAL_REC_DELETE"
  obtain rc w' d' h where a: "fastkv_wal_append os (w_tmp env) w (dsk db) ?ty ts (wkey e) (wvalue e) = (rc, w', d', h)"
    by (metis prod_cases4)
  have r: "rc = FASTKV_OK" "db' = db\<lparr>dwal := Some w', dsk := d', repl_srv := repl_wal_hook (w_frames env) h (repl_srv db)\<rparr>"
    using assms(2) a w(1) by (simp_all add: log_entry_def)
  obtain p where "wal_log (s @ p) w' d'" "same_wal w w'" "p = rec_enc ?ty ts (wkey e) (wvalue e)"
      "sync_writes w \<longrightarrow> durable d' (seg_file (segment_id w)) = Some (s @ p) \<and> files d' (seg_file (segment_id w)) = Some (s @ p)"
    using append_log [OF w(4) a] r(1) by blast
  moreover have "\<forall>n. n \<noteq> seg_file seg \<longrightarrow> same_file n d0 d'" using append_frame [OF a] w(2,5) same_file_trans by blast
  ultimately show ?thesis using w by (simp add: r logged_def same_wal_def enc_all_def enc_def)
qed

lemma apply_entries_stream:
  "apply_entries os env i db es ts = (FASTKV_OK, db') \<Longrightarrow> logged d0 seg s db \<Longrightarrow>
   logged d0 seg (s @ enc_all (wrecs ts es)) db' \<and> tree db' = foldl rec_tree (tree db) (wrecs ts es)"
proof (induction es arbitrary: i db s)
  case (Cons e es)
  obtain rc1 db1 where l: "log_entry os (env i) db e ts = (rc1, db1)" by force
  then have "rc1 = FASTKV_OK" using Cons.prems(1) by (auto split: if_splits)
  with l have l: "log_entry os (env i) db e ts = (FASTKV_OK, db1)" by simp
  let ?db2 = "store_entry (env i) db1 e ts"
  have "logged d0 seg (s @ enc_all (wrecs ts [e])) ?db2 = logged d0 seg (s @ enc_all (wrecs ts [e])) db1"
    by (rule logged_cong) (simp_all add: store_entry_def Let_def)
  moreover have "apply_entries os env (Suc i) ?db2 es ts = (FASTKV_OK, db')" using Cons.prems(1) l by simp
  ultimately show ?case
    using Cons.IH [of "Suc i" ?db2 "s @ enc_all (wrecs ts [e])"] log_entry_stream [OF Cons.prems(2) l] store_entry_tree [of "env i" db1 e ts]
    by (simp add: enc_all_def)
qed (simp add: enc_all_def)

lemma commit_split:
  assumes "committing txn" "fastkv_txn_commit os env db txn = (rc, db', t)"
  shows "fastkv_db_check_conflicts db (write_head txn) (txn_begin_ts txn) = FASTKV_OK \<Longrightarrow>
      \<exists>mgr db1. apply_entries os env 0 db (write_head txn) (db_clock db) = (rc, db1) \<and> db' = db1\<lparr>dmgr := mgr\<rparr>"
    and "fastkv_db_check_conflicts db (write_head txn) (txn_begin_ts txn) \<noteq> FASTKV_OK \<Longrightarrow>
      rc \<noteq> FASTKV_OK \<and> (\<exists>mgr. db' = db\<lparr>dmgr := mgr\<rparr> \<and> clock (mgr_oracle mgr) = db_clock db)"
proof -
  obtain rc1 db1 where "apply_entries os env 0 db (write_head txn) (db_clock db) = (rc1, db1)" by force
  then show "fastkv_db_check_conflicts db (write_head txn) (txn_begin_ts txn) = FASTKV_OK \<Longrightarrow>
      \<exists>mgr db1. apply_entries os env 0 db (write_head txn) (db_clock db) = (rc, db1) \<and> db' = db1\<lparr>dmgr := mgr\<rparr>"
    using assms
    by (auto simp: fastkv_txn_commit_def fastkv_txn_mgr_commit_def fastkv_txn_mgr_abort_def fastkv_oracle_commit_def
        fastkv_db_apply_write_set_def committing_def writable_def Let_def split: if_splits)
  show "fastkv_db_check_conflicts db (write_head txn) (txn_begin_ts txn) \<noteq> FASTKV_OK \<Longrightarrow>
      rc \<noteq> FASTKV_OK \<and> (\<exists>mgr. db' = db\<lparr>dmgr := mgr\<rparr> \<and> clock (mgr_oracle mgr) = db_clock db)"
    using assms
    by (auto simp: fastkv_txn_commit_def fastkv_txn_mgr_commit_def fastkv_txn_mgr_abort_def fastkv_oracle_release_def
        committing_def writable_def Let_def split: if_splits)
qed

lemma foldl_wrecs: "foldl rec_write h (wrecs ts es) = ht_writes ts h (wpairs es)"
  by (induction es arbitrary: h) simp_all

section \<open>Runs\<close>

text \<open>
  The operations between an open and a crash, with the records each of them logs: transactions begin, abort, commit or
  are refused, in any interleaving; expiry times are set and indexes created.  Commits that fail on the way to the disk
  end the run.
\<close>

definition entry_limits :: "write_entry \<Rightarrow> bool" where
  "entry_limits e \<longleftrightarrow> rec_fits (wkey e) (wvalue e)"

inductive db_step :: "fastkv_db \<Rightarrow> wrec list \<Rightarrow> fastkv_db \<Rightarrow> bool" where
  step_begin: "db_clock db < FASTKV_TS_MAX \<Longrightarrow> fastkv_txn_begin env db ro = (r, db') \<Longrightarrow> db_step db [] db'"
| step_abort: "fastkv_txn_abort db txn = (rc, db', t) \<Longrightarrow> db_step db [] db'"
| step_refused: "committing txn \<Longrightarrow> fastkv_db_check_conflicts db (write_head txn) (txn_begin_ts txn) \<noteq> FASTKV_OK \<Longrightarrow>
    fastkv_txn_commit os env db txn = (rc, db', t) \<Longrightarrow> db_step db [] db'"
| step_commit: "committing txn \<Longrightarrow> \<forall>e \<in> set (write_head txn). entry_limits e \<Longrightarrow> envs_ok wenv \<Longrightarrow>
    db_clock db < FASTKV_TS_MAX \<Longrightarrow> fastkv_txn_commit os wenv db txn = (FASTKV_OK, db', t) \<Longrightarrow>
    db_step db (wrecs (db_clock db) (write_head txn)) db'"
| step_ttl: "db_step db [] (db\<lparr>dttl := fastkv_ttl_set now (dttl db) key ttl_ms\<rparr>)"
| step_index: "fastkv_index_create ok db name fn = (rc, db') \<Longrightarrow> db_step db [] db'"

inductive db_run :: "fastkv_db \<Rightarrow> wrec list \<Rightarrow> fastkv_db \<Rightarrow> bool" where
  run_none: "db_run db [] db"
| run_step: "db_run db rs db1 \<Longrightarrow> db_step db1 ss db2 \<Longrightarrow> db_run db (rs @ ss) db2"

definition run_inv :: "bytes \<Rightarrow> fastkv_db \<Rightarrow> wrec list \<Rightarrow> fastkv_db \<Rightarrow> bool" where
  "run_inv seg db0 rs db \<longleftrightarrow> db_ok db \<and> opts db = opts db0 \<and> tbl db = foldl rec_write (tbl db0) rs
     \<and> tree db = foldl rec_tree (tree db0) rs \<and> logged (dsk db0) seg (enc_all rs) db \<and> chrono 0 rs
     \<and> (\<forall>r \<in> set rs. rec_typed r \<and> fits r \<and> 0 < rec_ts r \<and> rec_ts r < db_clock db)"

lemma wrecs_props:
  assumes "r \<in> set (wrecs ts es)" "\<forall>e \<in> set es. entry_limits e"
  shows "rec_typed r \<and> fits r \<and> rec_ts r = ts"
  using assms by (auto simp: wrecs_def entry_limits_def fits_def)

lemma chrono_wrecs: "c \<le> ts \<Longrightarrow> ts < FASTKV_TS_MAX \<Longrightarrow> chrono c (wrecs ts es)"
proof -
  assume "c \<le> ts" "ts < FASTKV_TS_MAX"
  moreover have "map rec_ts (wrecs ts es) = replicate (length es) ts" by (induction es) simp_all
  ultimately show ?thesis by (auto simp: chrono_def wrecs_def sorted_replicate)
qed

lemma run_inv_quiet:
  assumes "run_inv seg db0 rs db" "db_ok db'" "db_clock db \<le> db_clock db'" "opts db' = opts db" "tbl db' = tbl db"
    "tree db' = tree db" "dwal db' = dwal db" "dsk db' = dsk db"
  shows "run_inv seg db0 (rs @ []) db'"
  using assms logged_cong [of db' db] by (auto simp: run_inv_def intro: less_le_trans)

lemma run_inv_step:
  assumes "run_inv seg db0 rs db" "db_step db ss db'"
  shows "run_inv seg db0 (rs @ ss) db'"
  using assms(2)
proof cases
  case (step_begin env ro r)
  obtain mgr where "db' = db\<lparr>dmgr := mgr\<rparr>" using begin_effect [OF step_begin(3)] by blast
  moreover have "db_ok db' \<and> db_clock db \<le> db_clock db'"
    using begin_db_ok [OF _ step_begin(2,3)] assms(1) clock_step [OF step_begin(2)] by (cases r) (auto simp: run_inv_def)
  ultimately show ?thesis unfolding step_begin(1) by (intro run_inv_quiet [OF assms(1)]) auto
next
  case (step_abort txn rc t)
  obtain mgr where "db' = db\<lparr>dmgr := mgr\<rparr>" "clock (mgr_oracle mgr) = db_clock db" using abort_effect [OF step_abort(2)] by blast
  moreover from this have "db_ok db'" using assms(1) db_ok_mgr by (simp add: run_inv_def)
  ultimately show ?thesis unfolding step_abort(1) by (intro run_inv_quiet [OF assms(1)]) auto
next
  case (step_refused txn os env rc t)
  obtain mgr where "db' = db\<lparr>dmgr := mgr\<rparr>" "clock (mgr_oracle mgr) = db_clock db"
    using commit_split(2) [OF step_refused(2,4,3)] by blast
  moreover from this have "db_ok db'" using assms(1) db_ok_mgr by (simp add: run_inv_def)
  ultimately show ?thesis unfolding step_refused(1) by (intro run_inv_quiet [OF assms(1)]) auto
next
  case (step_commit txn wenv os t)
  let ?ts = "db_clock db" and ?es = "write_head txn"
  have inv: "db_ok db" "logged (dsk db0) seg (enc_all rs) db" "chrono 0 rs" "0 < ?ts"
    using assms(1) by (auto simp: run_inv_def db_ok_def)
  have ck: "fastkv_db_check_conflicts db ?es (txn_begin_ts txn) = FASTKV_OK" using commit_split(2) [OF step_commit(2,6)] by blast
  obtain mgr db1 where a: "apply_entries os wenv 0 db ?es ?ts = (FASTKV_OK, db1)" "db' = db1\<lparr>dmgr := mgr\<rparr>"
    using commit_split(1) [OF step_commit(2,6) ck] by blast
  note st = apply_entries_stream [OF a(1) inv(2)]
  note t = commit_ok_tbl [OF inv(1) step_commit(5,4,2,6)]
  have c: "?ts < db_clock db'" using t clock_step [OF step_commit(5)] by auto
  have old: "\<forall>r \<in> set rs. rec_typed r \<and> fits r \<and> 0 < rec_ts r \<and> rec_ts r < ?ts" using assms(1) by (auto simp: run_inv_def)
  have new: "\<forall>r \<in> set (wrecs ?ts ?es). rec_typed r \<and> fits r \<and> rec_ts r = ?ts" using wrecs_props step_commit(3) by blast
  have "chrono 0 (rs @ wrecs ?ts ?es)"
    using inv(3) chrono_wrecs [OF _ step_commit(5), of 0] old new by (auto simp: chrono_append less_imp_le)
  moreover have "logged (dsk db0) seg (enc_all rs @ enc_all (wrecs ?ts ?es)) db'" "tree db' = foldl rec_tree (tree db) (wrecs ?ts ?es)"
    using st logged_cong [of db' db1] a(2) by auto
  moreover have "tbl db' = foldl rec_write (tbl db) (wrecs ?ts ?es)" using t by (simp add: foldl_wrecs)
  ultimately show ?thesis
    using assms(1) t old new c inv(4) unfolding step_commit(1) run_inv_def by (auto simp: enc_all_def intro: less_trans)
next
  case (step_ttl now key ttl_ms)
  obtain m where "ttl_rel (dttl db) m" using assms(1) by (auto simp: run_inv_def db_ok_def core_ok_def)
  then have "\<exists>m. ttl_rel (fastkv_ttl_set now (dttl db) key ttl_ms) m" using ttl_set_rel by blast
  then have "db_ok db'" using assms(1) step_ttl(2) by (auto simp: run_inv_def db_ok_def core_ok_def)
  then show ?thesis unfolding step_ttl(1) using step_ttl(2) by (intro run_inv_quiet [OF assms(1)]) auto
next
  case (step_index ok name fn rc)
  have "db_ok db'" using step_index(2) assms(1) by (auto simp: fastkv_index_create_def run_inv_def db_ok_def core_ok_def split: if_splits)
  then show ?thesis
    unfolding step_index(1) using step_index(2)
    by (intro run_inv_quiet [OF assms(1)]) (auto simp: fastkv_index_create_def split: if_splits)
qed

lemma run_inv_run: "db_run db rs db' \<Longrightarrow> run_inv seg db [] db \<Longrightarrow> run_inv seg db rs db'"
  by (induction rule: db_run.induct) (use run_inv_step in blast)+

section \<open>Opening after a crash\<close>

definition open_ready :: "open_env \<Rightarrow> fname list \<Rightarrow> bool" where
  "open_ready env names \<longleftrightarrow> op_db env \<and> op_ht env = (True, True) \<and> op_trees env \<and> op_dir env = Some names
     \<and> (\<forall>i. env_ok (op_replay env i)) \<and> w_ok (op_wal env) \<and> dir_ok (op_wal env) \<and> listing (op_wal env) = Some names
     \<and> ctx_ok (op_wal env) \<and> open_ok (op_wal env)"

text \<open>
  After a crash every file is cut back to some prefix of its contents that includes what has been synced.
\<close>

definition crashed :: "disk \<Rightarrow> disk \<Rightarrow> bool" where
  "crashed d d' \<longleftrightarrow> (\<forall>n. case files d n of
       None \<Rightarrow> files d' n = None
     | Some g \<Rightarrow> \<exists>f. files d' n = Some f \<and> prefix f g \<and> (\<forall>s. durable d n = Some s \<longrightarrow> prefix s f))"

lemma hex_digit_no_dot: "n < 16 \<Longrightarrow> hex_digit n \<noteq> 0x2E"
proof -
  assume "n < 16"
  then have "unat n < 16" by (simp add: word_less_nat_alt)
  then have "unat (0x57 + n) = 87 + unat n" "unat (0x30 + n) = 48 + unat n" by (simp_all add: unat_word_ariths)
  then have "unat (0x57 + n) \<noteq> unat (0x2E :: byte)" "unat (0x30 + n) \<noteq> unat (0x2E :: byte)" by simp_all
  then show ?thesis unfolding hex_digit_def by metis
qed

lemma uuid_name: "length (fst (uuid7_hex ctx a b)) = 32 \<and> 0x2E \<notin> set (fst (uuid7_hex ctx a b))"
proof -
  have "length (hex_of raw) = 2 * length raw" for raw by (induction raw) (simp_all add: hex_of_def)
  moreover have "0x2E \<notin> set (hex_of raw)" for raw
  proof -
    have "unat (drop_bit 4 x) = unat x div 16" "unat x < 256" for x :: byte
      using unsigned_less [of x, where 'a = nat] by (simp_all add: drop_bit_eq_div unat_div_distrib)
    then have "drop_bit 4 x < 16" "x AND 0xF < 16" for x :: byte
      by (simp_all add: word_less_nat_alt and_less less_mult_imp_div_less)
    then show ?thesis using hex_digit_no_dot by (fastforce simp: hex_of_def)
  qed
  ultimately show ?thesis
    by (simp add: uuid7_hex_def uuid7_generate_ex_def uuid7_bytes_def write_be48_def write_be56_def Let_def)
qed

lemma no_snapshot_in_segment: "find_latest_snapshot (Some [seg_file seg]) = None"
  by (simp add: find_latest_snapshot_def snap_of_name_def seg_file_def WAL_FILENAME_PFX_def SNAP_FILENAME_PFX_def)

text \<open>The first open, on an empty directory.\<close>

lemma open_empty:
  assumes "open_ready env []" "\<not> opt_read_only ops" "files d = Map.empty"
    and h: "fastkv_ht_create True True (unat (round_cap (of_nat (map_size ops)))) = Some (Inr h)"
  obtains db d' w where "fastkv_open env ops d = Some (Inr db, d')"
    "dwal db = Some w" "seg_of_name (seg_file (segment_id w)) = Some (segment_id w)" "tbl db = h" "tree db = fastkv_btree_create"
    "opts db = ops" "run_inv (segment_id w) db [] db" "dsk db = d\<lparr>files := [seg_file (segment_id w) \<mapsto> []]\<rparr>"
    "dmgr db = fastkv_txn_mgr_init"
proof -
  let ?cap = "unat (round_cap (of_nat (map_size ops)))"
  have e: "op_db env" "op_ht env = (True, True)" "op_trees env" "op_dir env = Some []" "w_ok (op_wal env)"
      "dir_ok (op_wal env)" "listing (op_wal env) = Some []" "ctx_ok (op_wal env)" "open_ok (op_wal env)"
    using assms(1) by (auto simp: open_ready_def)
  note wf = ht_create_wf [OF _ h]
  have rec: "open_recover env (fresh_db ops h d) = Inr (advance_clock (advance_clock (fresh_db ops h d) 1) 1)"
    by (simp add: open_recover_def fastkv_snapshot_load_def find_latest_snapshot_def e fastkv_wal_replay_def
        collect_segments_def map_filter_simps Let_def) (simp add: fresh_db_def)
  have adv: "advance_clock (advance_clock (fresh_db ops h d) 1) 1 = fresh_db ops h d"
    by (simp add: advance_clock_def fastkv_oracle_advance_def fresh_db_def fastkv_txn_mgr_init_def fastkv_oracle_init_def)
  let ?seg = "fst (uuid7_hex uuid7_zero (fst (op_now env)) (snd (op_now env)))"
  let ?w = "\<lparr>sync_writes = opt_sync_writes ops, bytes_written = 0, file_offset = 0, segment_id = ?seg, wbuf = [], hook_set = False\<rparr>"
  let ?d = "d\<lparr>files := [seg_file ?seg \<mapsto> []]\<rparr>"
  have w: "fastkv_wal_open ((op_wal env)\<lparr>fresh_seg := ?seg\<rparr>) (opt_sync_writes ops) d = (Inr ?w, ?d)"
    by (simp add: fastkv_wal_open_def newest_segment_def e assms(3) fastkv_io_open_def Let_def)
  have "uuid7 (fresh_db ops h d) = uuid7_zero" by (simp add: fresh_db_def)
  then have opn: "fastkv_open env ops d = Some (Inr (open_finish env ((fresh_db ops h d)\<lparr>dwal := Some ?w, dsk := ?d\<rparr>)), ?d)"
    using assms(2) e h rec adv w by (simp add: fastkv_open_def Let_def)
  define db where db: "db = open_finish env ((fresh_db ops h d)\<lparr>dwal := Some ?w, dsk := ?d\<rparr>)"
  have u: "length ?seg = 32" "0x2E \<notin> set ?seg" using uuid_name by auto
  have fresh: "tbl db = h" "tree db = fastkv_btree_create" "opts db = ops" "dwal db = Some ?w" "dsk db = ?d"
      "dmgr db = fastkv_txn_mgr_init" "dttl db = fastkv_ttl_init"
    by (simp_all add: db open_finish_def fresh_db_def)
  have "?cap < 2 ^ 64" using unsigned_less [of "round_cap (of_nat (map_size ops))", where 'a = nat] by simp
  then have "ht_wf h" "ht_upto h 0" "\<forall>k. latest h k = None" using wf by (auto simp: latest_def)
  then have "db_ok db"
    using init_rel
    by (auto simp: db_ok_def core_ok_def fresh mirrors_def bt.inv_emp bt.list_emp fastkv_txn_mgr_init_def fastkv_oracle_init_def)
  moreover have "logged (dsk db) ?seg [] db" by (simp add: logged_def fresh wal_log_def)
  ultimately have "run_inv ?seg db [] db" by (simp add: run_inv_def enc_all_def chrono_def)
  moreover have "segment_id ?w = ?seg" by simp
  ultimately show thesis using that [OF opn [folded db] fresh(4) _ fresh(1-3) _ _ fresh(6)] seg_of_name_file [OF u] fresh(5) by metis
qed

text \<open>An open on a directory with one segment that holds a prefix of a stream of records.\<close>

lemma open_segment:
  assumes "open_ready env [seg_file seg]" "\<not> opt_read_only ops" "seg_of_name (seg_file seg) = Some seg"
    and h: "fastkv_ht_create True True (unat (round_cap (of_nat (map_size ops)))) = Some (Inr h)"
    and "chrono 0 rs" "\<forall>r \<in> set rs. rec_typed r \<and> fits r \<and> 0 < rec_ts r" "files d (seg_file seg) = Some f" "prefix f (enc_all rs)"
  obtains db d' n where "fastkv_open env ops d = Some (Inr db, d')" "n \<le> length rs" "f = enc_all rs \<longrightarrow> n = length rs"
    "tbl db = foldl rec_write h (take n rs)" "tree db = foldl rec_tree fastkv_btree_create (take n rs)" "db_ok db"
proof -
  let ?cap = "unat (round_cap (of_nat (map_size ops)))" and ?db = "fresh_db ops h d"
  have e: "op_db env" "op_ht env = (True, True)" "op_trees env" "op_dir env = Some [seg_file seg]" "w_ok (op_wal env)"
      "dir_ok (op_wal env)" "listing (op_wal env) = Some [seg_file seg]" "ctx_ok (op_wal env)" "open_ok (op_wal env)"
      "\<forall>i. env_ok (op_replay env i)"
    using assms(1) by (auto simp: open_ready_def)
  have "?cap < 2 ^ 64" using unsigned_less [of "round_cap (of_nat (map_size ops))", where 'a = nat] by simp
  then have wf: "ht_wf h" "ht_upto h 0" "\<forall>k. latest h k = None" using ht_create_wf [OF _ h] by (auto simp: latest_def)
  have mir: "btree_wf fastkv_btree_create" "mirrors fastkv_btree_create h"
    using wf(3) by (auto simp: mirrors_def bt.inv_emp bt.list_emp)
  have t: "tbl ?db = h" "tree ?db = fastkv_btree_create" "dsk ?db = d" by (simp_all add: fresh_db_def)
  have rs: "\<forall>r \<in> set rs. rec_typed r \<and> 0 < rec_ts r \<and> fits r" using assms(6) by blast
  have u: "ht_wf (tbl ?db)" "ht_upto (tbl ?db) 0" using wf t by auto
  obtain n where n: "n \<le> length rs" "f = enc_all rs \<longrightarrow> n = length rs"
      "fastkv_wal_replay (files d) (Some [seg_file seg]) 0 (wal_replay_cb (op_replay env)) (0, ?db) =
       (FASTKV_OK, (n, ?db\<lparr>tbl := foldl rec_write h (take n rs), tree := foldl rec_tree fastkv_btree_create (take n rs)\<rparr>),
        newest 0 (take n rs))"
    using replay_prefix [where fs = "files d" and env = "op_replay env" and since = 0, OF assms(5) u rs e(10) assms(8,3,7)]
    unfolding t by metis
  let ?m = "newest 0 (take n rs)"
  let ?db1 = "?db\<lparr>tbl := foldl rec_write h (take n rs), tree := foldl rec_tree fastkv_btree_create (take n rs)\<rparr>"
  have a0: "advance_clock (?db\<lparr>snapshot_ts := 0\<rparr>) (0 + 1) = ?db"
    by (simp add: advance_clock_def fastkv_oracle_advance_def fresh_db_def fastkv_txn_mgr_init_def fastkv_oracle_init_def)
  have rec: "open_recover env ?db = Inr (advance_clock ?db1 (?m + 1))"
    using n(3) a0 by (simp add: open_recover_def fastkv_snapshot_load_def e no_snapshot_in_segment t)
  have ch: "chrono 0 (take n rs)" by (rule chrono_take [OF assms(5)])
  have le: "\<forall>r \<in> set (take n rs). rec_ts r \<le> ?m" using newest_ge by blast
  have "?m \<le> FASTKV_TS_MAX - 1"
    by (rule newest_bound) (use ch in \<open>auto simp: chrono_def ts_max_pred\<close>)
  then have m: "?m < FASTKV_TS_MAX" by (simp only: ts_max_pred)
  note ok = rec_writes_ok [OF ch wf(1,2) mir le]
  have clk: "db_clock (advance_clock ?db1 (?m + 1)) = ?m + 1"
  proof -
    have "1 \<le> ?m + 1" using clock_step [OF m] by (metis inc_le word_zero_le add_0)
    then show ?thesis
      by (auto simp: advance_clock_def fastkv_oracle_advance_def fresh_db_def fastkv_txn_mgr_init_def fastkv_oracle_init_def)
  qed
  have db1: "db_ok (advance_clock ?db1 (?m + 1))"
    using ok clk clock_step [OF m] init_rel
    by (auto simp: db_ok_def core_ok_def) (auto simp: advance_clock_def fresh_db_def)
  let ?env = "(op_wal env)\<lparr>fresh_seg := fst (uuid7_hex (uuid7 (advance_clock ?db1 (?m + 1))) (fst (op_now env)) (snd (op_now env)))\<rparr>"
  obtain w d' where w: "fastkv_wal_open ?env (opt_sync_writes ops) d = (Inr w, d')"
    by (simp add: fastkv_wal_open_def e fastkv_io_open_def Let_def)
  let ?db2 = "open_finish env ((advance_clock ?db1 (?m + 1))\<lparr>dwal := Some w, dsk := d'\<rparr>)"
  have "fastkv_open env ops d = Some (Inr ?db2, d')"
    using e h assms(2) rec w by (simp add: fastkv_open_def Let_def)
  moreover have "db_ok ?db2 \<and> tbl ?db2 = tbl ?db1 \<and> tree ?db2 = tree ?db1"
    using db1 by (simp add: open_finish_def db_ok_def core_ok_def advance_clock_def)
  ultimately show thesis using n(1,2) by (intro that [of ?db2 d' n]) simp_all
qed

text \<open>A put is a begin and a commit.\<close>

lemma put_run:
  assumes "db_ok db" "room 2 db" "op_ok env" "\<not> opt_read_only (opts db)" "length key \<le> FASTKV_MAX_KEY_LEN"
    "slice_len val \<le> FASTKV_MAX_VAL_LEN" "single_write os env db key val = (FASTKV_OK, db')"
  shows "db_run db (wrecs (db_clock db + 1) [\<lparr>wkey = key, wvalue = val\<rparr>]) db'"
proof (rule single_write_cases [OF assms(3-6), of os])
  fix txn0 db1 txn
  assume b: "fastkv_txn_begin (o_begin env) db False = (Inr txn0, db1)" and c: "committing txn"
    and h: "write_head txn = [\<lparr>wkey = key, wvalue = val\<rparr>]"
    and s: "single_write os env db key val = (case fastkv_txn_commit os (o_write env) db1 txn of (rc', db2, _) \<Rightarrow> (rc', db2))"
  obtain t where k: "fastkv_txn_commit os (o_write env) db1 txn = (FASTKV_OK, db', t)"
    using s assms(7) by (cases "fastkv_txn_commit os (o_write env) db1 txn") auto
  have r: "db_clock db < FASTKV_TS_MAX" "db_clock db + 1 < FASTKV_TS_MAX"
    using room_clock [OF assms(2)] room_less [of 1 db] room_mono [OF assms(2), of 1] by auto
  have d1: "db_clock db1 = db_clock db + 1" using begin_db_ok [OF assms(1) r(1) b] by simp
  have "\<forall>e \<in> set (write_head txn). entry_limits e" using assms(5,6) by (simp add: h entry_limits_def rec_fits_def)
  moreover have "envs_ok (o_write env)" using assms(3) by (simp add: op_ok_def)
  ultimately have "db_step db1 (wrecs (db_clock db1) (write_head txn)) db'"
    using c k d1 r(2) by (intro step_commit) auto
  moreover have "db_run db ([] @ []) db1" by (rule run_step [OF run_none step_begin [OF r(1) b]])
  ultimately show ?thesis using run_step [of db "[]" db1] d1 h by fastforce
qed

section \<open>Properties\<close>


definition sample_open :: "fname list \<Rightarrow> open_env" where
  "sample_open names = \<lparr>op_db = True, op_ht = (True, True), op_trees = True, op_load = sample_load, op_dir = Some names,
     op_replay = (\<lambda>_. mem_ok),
     op_wal = \<lparr>w_ok = True, dir_ok = True, listing = Some names, fresh_seg = [], ctx_ok = True, open_ok = True\<rparr>,
     op_now = (2000, 2000), op_seed = (\<lparr>s0 = 1, s1 = 2, s2 = 3, s3 = 4\<rparr>, 2000)\<rparr>"

definition no_files :: disk where
  "no_files = \<lparr>files = Map.empty, durable = Map.empty, calls = 0\<rparr>"

lemma sample_open_ready: "open_ready (sample_open names) names"
  by (simp add: open_ready_def sample_open_def)

lemma sample_create: "fastkv_ht_create True True (unat (round_cap (of_nat (map_size (opts sample_db))))) = Some (Inr (tbl sample_db))"
  by (simp add: round_cap_def sample_db_def fastkv_ht_create_def)


end
