(* ===== verification/Checkpoint.thy ===== *)
theory Checkpoint
  imports Crash
begin

text \<open>
  What \<^verbatim>\<open>fastkv_checkpoint\<close> does to a running database: readers notice nothing, but a transaction that is open while a
  checkpoint runs can lose its commit.  The definitions are in \<open>Recovery\<close>.
\<close>

section \<open>Checkpoints\<close>

lemma snapshot_write_frame:
  "fastkv_snapshot_write os env ts db h2 = (rc, sid, db') \<Longrightarrow> \<exists>ctx d. db' = db\<lparr>uuid7 := ctx, dsk := d\<rparr>"
  by (auto simp: fastkv_snapshot_write_def Let_def split: prod.splits if_splits)

text \<open>When no key has expired, a checkpoint changes the files, the names and the garbage of the table only.\<close>

lemma checkpoint_effect:
  assumes "fastkv_checkpoint env db = Some (FASTKV_OK, db')" "dwal db = Some w"
    "ttl_scan (ck_fuel env) (ck_now env) (dttl db) = Some []"
  shows "tbl db' = snd (fastkv_ht_gc (tbl db) (fastkv_oracle_min_active (mgr_oracle (dmgr db)))) \<and> dmgr db' = dmgr db
    \<and> tree db' = tree db \<and> dttl db' = dttl db \<and> indexes db' = indexes db \<and> opts db' = opts db"
proof -
  obtain w1 d1 where s: "fastkv_wal_sync (ck_os env) w (dsk db) = (FASTKV_OK, w1, d1)"
    using assms(1,2) by (auto simp: fastkv_checkpoint_def Let_def split: prod.splits if_splits)
  let ?db1 = "db\<lparr>dwal := Some w1, dsk := d1\<rparr>"
  obtain sid db2 where sn: "fastkv_snapshot_write (ck_os env) (ck_snap env) (db_clock db) ?db1 (tbl db) = (FASTKV_OK, sid, db2)"
    "ckpt_rotate env sid w1 db2 = Some (FASTKV_OK, db')"
    using assms(1,2) s by (auto simp: fastkv_checkpoint_def fastkv_oracle_now_def Let_def split: prod.splits if_splits)
  obtain ctx d2 where db2: "db2 = ?db1\<lparr>uuid7 := ctx, dsk := d2\<rparr>" using snapshot_write_frame [OF sn(1)] by blast
  have "ttl_scan (ck_fuel env) (ck_now env) (dttl db2) = Some []" using assms(3) by (simp add: db2)
  then have ttl: "fastkv_ttl_expire (ck_os env) (ck_ttl env) (ck_fuel env) (ck_now env) (db2\<lparr>uuid7 := c, dwal := x, dsk := d\<rparr>)
      = Some (FASTKV_OK, db2\<lparr>uuid7 := c, dwal := x, dsk := d\<rparr>)" for c x d
    by (simp add: fastkv_ttl_expire_def)
  obtain seg ctx' rc3 w3 d3 where "uuid7_hex (uuid7 db2) (fst (ck_uuid env)) (snd (ck_uuid env)) = (seg, ctx')"
    "fastkv_wal_rotate (ck_os env) (fst (ck_rotate env)) (snd (ck_rotate env)) seg w1 (dsk db2) = (rc3, w3, d3)"
    by (metis prod_cases3 surj_pair)
  with sn(2) ttl show ?thesis
    by (auto simp: ckpt_rotate_def db2 Let_def split: if_splits)
qed

lemma checkpoint_ok:
  assumes "db_ok db" "db_clock db < FASTKV_TS_MAX" "fastkv_checkpoint env db = Some (FASTKV_OK, db')" "dwal db = Some w"
    "ttl_scan (ck_fuel env) (ck_now env) (dttl db) = Some []"
  shows "db_ok db' \<and> tree db' = tree db \<and> latest (tbl db') = latest (tbl db)
    \<and> (fastkv_oracle_min_active (mgr_oracle (dmgr db)) \<le> s \<longrightarrow> ht_view (tbl db') s key = ht_view (tbl db) s key)"
proof -
  let ?m = "fastkv_oracle_min_active (mgr_oracle (dmgr db))"
  note e = checkpoint_effect [OF assms(3-5)]
  have h: "ht_wf (tbl db)" "ht_upto (tbl db) (db_clock db - 1)" using assms(1) by (auto simp: db_ok_def core_ok_def)
  have "?m \<le> db_clock db" by (rule min_active_le)
  then have "?m \<le> FASTKV_TS_MAX - 1" using assms(2) unfolding ts_max_pred by (rule order_trans)
  then have l: "latest (tbl db') = latest (tbl db)" using e hts.view_collect [OF h(1)] by (auto simp: latest_def fun_eq_iff)
  have "db_ok db'"
    using assms(1) e l hts.wf_collect [OF h(1)] hts.upto_collect [OF h(2)] by (simp add: db_ok_def core_ok_def mirrors_def)
  with l e show ?thesis using hts.view_collect [OF h(1)] by auto
qed

definition sample_ck :: ckpt_env where
  "sample_ck = \<lparr>ck_os = (\<lambda>_. SysOk), ck_snap = sample_snap, ck_uuid = (2001, 2001), ck_rotate = (True, True),
     ck_rm = (\<lambda>_. True), ck_dir_wal = None, ck_dir_snap = None, ck_ttl = (\<lambda>_. sample_op), ck_now = 0, ck_fuel = 1\<rparr>"

lemma sample_scan: "ttl_scan (ck_fuel sample_ck) (ck_now sample_ck) (dttl logged_db) = Some []"
  by (simp add: sample_ck_def logged_db_def sample_db_def) code_simp

lemma sample_checkpoint:
  "\<exists>db1 w1. fastkv_checkpoint sample_ck logged_db = Some (FASTKV_OK, db1) \<and> dwal db1 = Some w1 \<and> wal_log [] w1 (dsk db1)"
proof -
  let ?n = "seg_file (segment_id sample_wal)"
  let ?d1 = "sample_disk\<lparr>durable := (durable sample_disk)(?n := files sample_disk ?n), calls := 1\<rparr>"
  have 1: "fastkv_wal_sync (\<lambda>_. SysOk) sample_wal sample_disk = (FASTKV_OK, sample_wal, ?d1)"
    by (simp add: fastkv_wal_sync_def flush_buf_def sample_wal_def fastkv_io_sync_def sys_fsync_def Let_def) (simp add: sample_disk_def)
  let ?db1 = "logged_db\<lparr>dwal := Some sample_wal, dsk := ?d1\<rparr>"
  obtain rc sid db2 where 2: "fastkv_snapshot_write (\<lambda>_. SysOk) sample_snap 1 ?db1 (tbl logged_db) = (rc, sid, db2)" by (metis prod_cases3)
  have tmp: "files (dsk ?db1) (tmp_file sid) = None"
    by (simp add: sample_disk_def tmp_file_def snap_file_def seg_file_def SNAP_FILENAME_PFX_def WAL_FILENAME_PFX_def)
  have es: "snap_entries (tbl logged_db) = []"
    by (simp add: logged_db_def sample_db_def snap_entries_def map_filter_simps)
  note sw = snapshot_write_cases [OF 2 tmp]
  have rc: "rc = FASTKV_OK" using sw by (simp add: healthy_def sample_snap_def es length_snap_image INT64_MAX_def)
  have uu: "uuid7 db2 = snd (uuid7_hex sample_ctx 2000 2000)"
    using 2 by (auto simp: fastkv_snapshot_write_def sample_snap_def logged_db_def sample_db_def Let_def split: prod.splits if_splits)
  let ?seg = "fst (uuid7_hex (uuid7 db2) 2001 2001)"
  have "?seg \<noteq> replicate 32 0x30" unfolding uu by code_simp
  moreover have "files (dsk db2) (seg_file ?seg) = files ?d1 (seg_file ?seg)"
    using sw by (simp add: same_file_def tmp_file_def snap_file_def seg_file_def SNAP_FILENAME_PFX_def WAL_FILENAME_PFX_def)
  ultimately have f: "files (dsk db2) (seg_file ?seg) = None" by (simp add: sample_disk_def seg_file_def)
  obtain d3 where fl: "flush_buf (\<lambda>_. SysOk) True sample_wal (dsk db2) = (FASTKV_OK, sample_wal, d3)" "files d3 = files (dsk db2)"
    by (simp add: flush_buf_def sample_wal_def fastkv_io_sync_def sys_fsync_def Let_def)
  let ?w3 = "sample_wal\<lparr>segment_id := ?seg, file_offset := 0\<rparr>" and ?d4 = "d3\<lparr>files := (files d3)(seg_file ?seg \<mapsto> [])\<rparr>"
  have 3: "fastkv_wal_rotate (\<lambda>_. SysOk) True True ?seg sample_wal (dsk db2) = (FASTKV_OK, ?w3, ?d4)"
    using f by (simp add: fastkv_wal_rotate_def fl fastkv_io_open_def Let_def)
  have ttl: "dttl db2 = dttl logged_db" using sw by auto
  have "wal_log [] ?w3 ?d4" by (simp add: wal_log_def sample_wal_def)
  moreover have "\<exists>db1. ckpt_rotate sample_ck sid sample_wal db2 = Some (FASTKV_OK, db1) \<and> dwal db1 = Some ?w3 \<and> dsk db1 = ?d4"
    using 3 sample_scan ttl
    by (simp add: ckpt_rotate_def sample_ck_def fastkv_wal_trim_def collect_segments_def fastkv_snapshot_trim_def
        fastkv_ttl_expire_def case_prod_unfold Let_def)
  moreover have "fastkv_checkpoint sample_ck logged_db = ckpt_rotate sample_ck sid sample_wal db2"
    using 1 2 rc sample_db_ok(5) by (simp add: fastkv_checkpoint_def sample_ck_def logged_db_def fastkv_oracle_now_def Let_def)
  ultimately show ?thesis by auto
qed

text \<open>
  A checkpoint is invisible to readers: when it succeeds and no key has expired, the database stays well
  formed, the ordered tree is untouched, and every snapshot of an active transaction (and every later one) reads the same
  values as before, although old versions have been freed.
\<close>

lemma checkpoint_keeps_reads:
  assumes "db_ok db" "db_clock db < FASTKV_TS_MAX" "fastkv_checkpoint env db = Some (FASTKV_OK, db')" "dwal db = Some w"
    "ttl_scan (ck_fuel env) (ck_now env) (dttl db) = Some []"
  shows "db_ok db' \<and> tree db' = tree db \<and> latest (tbl db') = latest (tbl db)
    \<and> (fastkv_oracle_min_active (mgr_oracle (dmgr db)) \<le> s \<longrightarrow> ht_view (tbl db') s key = ht_view (tbl db) s key)"
  by (rule checkpoint_ok [OF assms])

lemma checkpoint_keeps_reads_example:
  "\<exists>db1. fastkv_checkpoint sample_ck logged_db = Some (FASTKV_OK, db1) \<and> db_ok db1 \<and> latest (tbl db1) = latest (tbl logged_db)"
proof -
  obtain db1 where c: "fastkv_checkpoint sample_ck logged_db = Some (FASTKV_OK, db1)" using sample_checkpoint by blast
  have "dwal logged_db = Some sample_wal" by (simp add: logged_db_def)
  from checkpoint_keeps_reads [OF logged_db_ok(1,2) c this sample_scan, of 5 "[7]"] c show ?thesis by blast
qed

text \<open>
  Property C20.  A transaction that is open during a checkpoint and commits next can be lost: its commit timestamp is the
  timestamp of the snapshot, and the replay that follows the loading of that snapshot skips all its records, so that the
  writes are neither in the snapshot nor replayed.
\<close>

theorem checkpoint_skips_next_commit:
  assumes "fastkv_checkpoint ck db = Some (FASTKV_OK, db1)" "dwal db = Some w" "ttl_scan (ck_fuel ck) (ck_now ck) (dttl db) = Some []"
    and "committing txn" "\<forall>e \<in> set (write_head txn). entry_limits e"
    and "fastkv_txn_commit os env db1 txn = (FASTKV_OK, db2, t)"
  shows "(logged d0 seg s db1 \<longrightarrow> logged d0 seg (s @ enc_all (wrecs (db_clock db) (write_head txn))) db2)
    \<and> replay_loop (fastkv_oracle_now (mgr_oracle (dmgr db))) (wal_replay_cb renv) vb
        (enc_all (wrecs (db_clock db) (write_head txn))) r
      = (FASTKV_OK, r\<lparr>max_ts := max (db_clock db) (max_ts r)\<rparr>)"
proof -
  let ?ts = "db_clock db" and ?es = "write_head txn"
  have clk: "db_clock db1 = ?ts" using checkpoint_effect [OF assms(1-3)] by simp
  have ck: "fastkv_db_check_conflicts db1 ?es (txn_begin_ts txn) = FASTKV_OK" using commit_split(2) [OF assms(4,6)] by blast
  obtain mgr db3 where a: "apply_entries os env 0 db1 ?es ?ts = (FASTKV_OK, db3)" "db2 = db3\<lparr>dmgr := mgr\<rparr>"
    using commit_split(1) [OF assms(4,6) ck] clk by auto
  have "logged d0 seg (s @ enc_all (wrecs ?ts ?es)) db2" if "logged d0 seg s db1"
    using apply_entries_stream [OF a(1) that] logged_cong [of db2 db3] a(2) by simp
  moreover have fit: "\<forall>r \<in> set (wrecs ?ts ?es). fits r" using wrecs_props assms(5) by blast
  have none: "seen ?ts vb (wrecs ?ts es) = []" for vb es by (induction es arbitrary: vb) (simp_all add: Let_def)
  have "newest m (wrecs ?ts es) = (if es = [] then m else max ?ts m)" for m es
    by (induction es arbitrary: m) (auto simp: newest_def max.assoc [symmetric])
  then have new: "newest m (wrecs ?ts ?es) = max ?ts m" for m using assms(4) by (simp add: committing_def)
  have ok: "fst (wal_replay_cb renv r u) = FASTKV_OK" for r u by (simp add: wal_replay_cb_def case_prod_unfold)
  have "replay_loop ?ts (wal_replay_cb renv) vb (enc_all (wrecs ?ts ?es) @ []) r = (FASTKV_OK, r\<lparr>max_ts := max ?ts (max_ts r)\<rparr>)"
    using replay_loop_all [OF fit read_record_Nil, of "wal_replay_cb renv" ?ts vb r] ok by (simp add: none new)
  ultimately show ?thesis by (simp add: fastkv_oracle_now_def)
qed

definition one_txn :: txn where
  "one_txn = sample_txn\<lparr>write_head := [\<lparr>wkey = [7], wvalue = Some [1]\<rparr>]\<rparr>"

lemma one_txn_ok: "committing one_txn" "write_head one_txn = [\<lparr>wkey = [7], wvalue = Some [1]\<rparr>]" "txn_begin_ts one_txn = 5"
  by (simp_all add: one_txn_def sample_txn_def committing_def writable_def)

theorem checkpoint_skips_next_commit_witness:
  "\<exists>db1 db2 t. fastkv_checkpoint sample_ck logged_db = Some (FASTKV_OK, db1)
     \<and> fastkv_txn_commit (\<lambda>_. SysOk) (o_write sample_op) db1 one_txn = (FASTKV_OK, db2, t)
     \<and> replay_loop 1 (wal_replay_cb (\<lambda>_. mem_ok)) False (enc_all (wrecs 1 (write_head one_txn)))
         \<lparr>udata = (0, db1), max_ts = 1, rec_count = 0\<rparr> = (FASTKV_OK, \<lparr>udata = (0, db1), max_ts = 1, rec_count = 0\<rparr>)"
proof -
  obtain db1 w1 where c: "fastkv_checkpoint sample_ck logged_db = Some (FASTKV_OK, db1)" "dwal db1 = Some w1" "wal_log [] w1 (dsk db1)"
    using sample_checkpoint by blast
  have w: "dwal logged_db = Some sample_wal" by (simp add: logged_db_def)
  note e = checkpoint_effect [OF c(1) w sample_scan]
  have l: "db_log [] db1" using c by (simp add: db_log_def)
  have "db_ok db1" "db_clock db1 = 1" using checkpoint_ok [OF logged_db_ok(1,2) c(1) w sample_scan] e logged_db_ok(3) by auto
  then have "ht_wf (tbl db1)" "ht_upto (tbl db1) 5" using hts.upto_mono [of "tbl db1" 0 5] by (auto simp: db_ok_def core_ok_def)
  then have ck: "fastkv_db_check_conflicts db1 (write_head one_txn) (txn_begin_ts one_txn) = FASTKV_OK"
    unfolding one_txn_ok(3) by (rule check_fresh)
  let ?e = "\<lparr>wkey = [7], wvalue = Some [1]\<rparr>"
  have "fst (log_entry (\<lambda>_. SysOk) (o_write sample_op 0) db1 ?e (db_clock db1)) = FASTKV_OK"
    by (rule log_entry_healthy [OF _ l]) (simp_all add: healthy_def WAL_HEADER_SIZE_def INT64_MAX_def)
  then have "fst (fastkv_txn_commit (\<lambda>_. SysOk) (o_write sample_op) db1 one_txn) = FASTKV_OK"
    using commit_no_conflict [OF one_txn_ok(1) ck] by (auto simp: one_txn_ok(2) split: prod.splits)
  then obtain db2 t where k: "fastkv_txn_commit (\<lambda>_. SysOk) (o_write sample_op) db1 one_txn = (FASTKV_OK, db2, t)"
    by (metis prod.collapse)
  have "\<forall>e \<in> set (write_head one_txn). entry_limits e"
    by (simp add: one_txn_ok(2) entry_limits_def rec_fits_def FASTKV_MAX_KEY_LEN_def FASTKV_MAX_VAL_LEN_def)
  from checkpoint_skips_next_commit [OF c(1) w sample_scan one_txn_ok(1) this k, of sample_disk "[]" "[]" "\<lambda>_. mem_ok" False
      "\<lparr>udata = (0, db1), max_ts = 1, rec_count = 0\<rparr>"] c(1) k
  show ?thesis using logged_db_ok(3) by (simp add: fastkv_oracle_now_def)
qed

end
