(* ===== verification/Isolation.thy ===== *)
theory Isolation
  imports Checkpoint
begin

text \<open>
  Snapshot isolation of the whole database (\<open>api/kv_api.c\<close>, \<open>txn/txn_manager.c\<close>, \<open>txn/mvcc.c\<close>, \<open>persist/compaction.c\<close>).
  A system is a database with its open transactions; clients begin, write, commit and abort them in any order, use the
  single-key operations, and checkpoints with their expiry and garbage collection run in between.

  Shown here: every reachable system is well-formed, and a transaction that holds a slot of the oracle reads the
  same snapshot from its begin to its end.
\<close>

section \<open>What an operation leaves alone\<close>

abbreviation db_slots :: "fastkv_db \<Rightarrow> fastkv_ts list" where
  "db_slots db \<equiv> slots (mgr_oracle (dmgr db))"

text \<open>
  Every begin timestamp in a slot, except slot \<open>j\<close>, stays where it is, and a reader with that timestamp sees the same
  values.
\<close>

definition frame :: "int \<Rightarrow> fastkv_db \<Rightarrow> fastkv_db \<Rightarrow> bool" where
  "frame j db db' \<longleftrightarrow> db_ok db' \<and> db_clock db \<le> db_clock db' \<and> length (db_slots db') = length (db_slots db) \<and>
     (\<forall>i < length (db_slots db). int i \<noteq> j \<and> db_slots db ! i \<noteq> 0 \<and> db_slots db ! i < db_clock db \<longrightarrow>
        db_slots db' ! i = db_slots db ! i \<and>
        (\<forall>k. ht_view (tbl db') (db_slots db ! i) k = ht_view (tbl db) (db_slots db ! i) k))"

lemma frameI:
  assumes "db_ok db'" "db_clock db \<le> db_clock db'" "length (db_slots db') = length (db_slots db)"
    and "\<And>i. i < length (db_slots db) \<Longrightarrow> int i \<noteq> j \<Longrightarrow> db_slots db ! i \<noteq> 0 \<Longrightarrow> db_slots db' ! i = db_slots db ! i"
    and "\<And>s k. s < db_clock db \<Longrightarrow> ht_view (tbl db') s k = ht_view (tbl db) s k"
  shows "frame j db db'"
  using assms by (simp add: frame_def)

lemma frame_ok: "frame j db db' \<Longrightarrow> db_ok db'"
  by (simp add: frame_def)

lemma frame_clock: "frame j db db' \<Longrightarrow> db_clock db \<le> db_clock db'"
  by (simp add: frame_def)

lemma frame_refl: "db_ok db \<Longrightarrow> frame j db db"
  by (simp add: frame_def)

text \<open>Composition: slot \<open>j\<close> may be used in between if it was free before.\<close>

lemma frame_trans:
  assumes "frame (-1) db db1" "frame j db1 db2" "j = -1 \<or> (\<exists>i. j = int i \<and> db_slots db ! i = 0)"
  shows "frame (-1) db db2"
proof -
  have c: "db_clock db \<le> db_clock db1" and l: "length (db_slots db1) = length (db_slots db)"
    using assms(1) by (simp_all add: frame_def)
  have "db_slots db2 ! i = db_slots db ! i \<and> (\<forall>k. ht_view (tbl db2) (db_slots db ! i) k = ht_view (tbl db) (db_slots db ! i) k)"
    if i: "i < length (db_slots db)" "db_slots db ! i \<noteq> 0" "db_slots db ! i < db_clock db" for i
  proof -
    have 1: "db_slots db1 ! i = db_slots db ! i" "\<forall>k. ht_view (tbl db1) (db_slots db ! i) k = ht_view (tbl db) (db_slots db ! i) k"
      using assms(1) i by (simp_all add: frame_def)
    have "int i \<noteq> j" using assms(3) i(2) by auto
    then show ?thesis using assms(2) 1 i c l by (auto simp: frame_def intro: less_le_trans)
  qed
  then show ?thesis using assms(1,2) unfolding frame_def by (auto intro: order_trans)
qed

lemma frame_same:
  assumes "db_ok db'" "dmgr db' = dmgr db" "tbl db' = tbl db"
  shows "frame j db db'"
  using assms by (simp add: frame_def)

section \<open>The operations\<close>

lemma begin_frame:
  assumes "db_ok db" "db_clock db < FASTKV_TS_MAX" "fastkv_txn_begin env db ro = (r, db')"
  shows "frame (-1) db db'"
    and "r = Inr t \<Longrightarrow> txn_state t = TXN_ACTIVE \<and> txn_begin_ts t = db_clock db \<and> db_clock db < db_clock db' \<and>
      (oracle_slot t = -1 \<or> (\<exists>i. oracle_slot t = int i \<and> i < length (db_slots db) \<and> db_slots db ! i = 0
        \<and> db_slots db' ! i = db_clock db))"
proof -
  note ok = begin_db_ok [OF assms]
  have cl: "db_clock db < db_clock db + 1" using clock_step [OF assms(2)] by simp
  show "frame (-1) db db'"
  proof (cases r)
    case (Inl rc)
    then have "db' = db" using begin_effect [OF assms(3)] by auto
    with assms(1) show ?thesis by (simp add: frame_refl)
  next
    case (Inr t)
    then obtain mgr ar slot orc where m: "fastkv_oracle_begin (mgr_oracle (dmgr db)) = (txn_begin_ts t, slot, orc)"
        "db' = db\<lparr>dmgr := mgr\<rparr>" "mgr_oracle mgr = orc"
      using assms(3) by (auto simp: fastkv_txn_begin_def fastkv_txn_mgr_begin_def split: if_splits prod.splits option.splits)
    from begin_cases(3) [OF m(1)] have "length (slots orc) = length (db_slots db)"
        "\<And>i. db_slots db ! i \<noteq> 0 \<Longrightarrow> slots orc ! i = db_slots db ! i"
      by (auto, metis nth_list_update_neq)
    then show ?thesis using ok Inr m(2,3) cl by (intro frameI) auto
  qed
  assume r: "r = Inr t"
  then obtain mgr ar slot orc where m: "fastkv_oracle_begin (mgr_oracle (dmgr db)) = (txn_begin_ts t, oracle_slot t, orc)"
      "db' = db\<lparr>dmgr := mgr\<rparr>" "mgr_oracle mgr = orc"
    using assms(3) by (auto simp: fastkv_txn_begin_def fastkv_txn_mgr_begin_def split: if_splits prod.splits option.splits)
  show "txn_state t = TXN_ACTIVE \<and> txn_begin_ts t = db_clock db \<and> db_clock db < db_clock db' \<and>
      (oracle_slot t = -1 \<or> (\<exists>i. oracle_slot t = int i \<and> i < length (db_slots db) \<and> db_slots db ! i = 0
        \<and> db_slots db' ! i = db_clock db))"
    using begin_effect [OF assms(3)] r ok cl begin_cases [OF m(1)] m(2,3) by auto
qed

lemma release_nth:
  "length (slots (fastkv_oracle_release orc j)) = length (slots orc)"
  "int i \<noteq> j \<Longrightarrow> slots (fastkv_oracle_release orc j) ! i = slots orc ! i"
  "clock (fastkv_oracle_release orc j) = clock orc"
  by (auto simp: fastkv_oracle_release_def intro!: nth_list_update_neq)

lemma abort_frame:
  assumes "db_ok db" "fastkv_txn_abort db t = (rc, db', x)"
  shows "frame (oracle_slot t) db db'"
proof -
  obtain mgr where m: "fastkv_txn_mgr_abort (dmgr db) t = (rc, mgr, x)" "db' = db\<lparr>dmgr := mgr\<rparr>"
    using assms(2) by (auto simp: fastkv_txn_abort_def split: prod.splits)
  then have "mgr_oracle mgr = mgr_oracle (dmgr db) \<or> mgr_oracle mgr = fastkv_oracle_release (mgr_oracle (dmgr db)) (oracle_slot t)"
    by (auto simp: fastkv_txn_mgr_abort_def split: if_splits)
  then show ?thesis
    using m(2) assms(1) db_ok_mgr [of mgr db] by (intro frameI) (auto simp: release_nth)
qed

lemma commit_slots:
  assumes "txn_state t = TXN_ACTIVE" "fastkv_txn_commit os env db t = (rc, db', x)"
  shows "x = None \<and> db_slots db' = slots (fastkv_oracle_release (mgr_oracle (dmgr db)) (oracle_slot t))"
  using assms
  by (auto simp: fastkv_txn_commit_def fastkv_txn_mgr_commit_def fastkv_txn_mgr_abort_def fastkv_oracle_commit_def
      fastkv_oracle_release_def Let_def split: prod.splits if_splits)

lemma commit_clock:
  assumes "fastkv_txn_commit os env db t = (rc, db', x)"
  shows "db_clock db' = db_clock db \<or> db_clock db' = db_clock db + 1"
  using assms
  by (auto simp: fastkv_txn_commit_def fastkv_txn_mgr_commit_def fastkv_txn_mgr_abort_def fastkv_oracle_commit_def
      fastkv_oracle_release_def Let_def split: prod.splits if_splits)

lemma commit_frame:
  assumes "db_ok db" "db_clock db < FASTKV_TS_MAX" "envs_ok env" "txn_state t = TXN_ACTIVE"
    "fastkv_txn_commit os env db t = (rc, db', x)"
  shows "frame (oracle_slot t) db db'"
proof -
  note sl = commit_slots [OF assms(4,5)]
  have cl: "db_clock db \<le> db_clock db'" using commit_clock [OF assms(5)] clock_room [OF assms(2)] by auto
  have "db_ok db' \<and> (\<forall>s k. s < db_clock db \<longrightarrow> ht_view (tbl db') s k = ht_view (tbl db) s k)"
  proof (cases "committing t")
    case True
    note e = commit_effect [OF assms(1-3) True assms(5)]
    then obtain applied where a: "tbl db' = ht_writes (db_clock db) (tbl db) (wpairs applied)" by blast
    have "core_ok (db_clock db) db" by (rule db_ok_core [OF assms(1)])
    then have h: "ht_wf (tbl db)" "ht_upto (tbl db) (db_clock db)" by (simp_all add: core_ok_def)
    have "ht_view (tbl db') s k = ht_view (tbl db) s k" if "s < db_clock db" for s k
      using hts.view_writes [OF h assms(2), of s "wpairs applied" k] that assms(2) a by auto
    with e show ?thesis by blast
  next
    case False
    then have "txn_read_only t \<or> write_head t = []" using assms(4) by (auto simp: committing_def writable_def)
    from commit_nothing [OF assms(4) this assms(5)] show ?thesis using assms(1) db_ok_mgr by auto
  qed
  then show ?thesis using sl cl by (intro frameI) (auto simp: release_nth)
qed


section \<open>Operations of one call\<close>

lemma txn_put_meta:
  assumes "fastkv_txn_put mems t key val = (rc, t')"
  shows "txn_state t' = txn_state t \<and> txn_begin_ts t' = txn_begin_ts t \<and> oracle_slot t' = oracle_slot t"
  using assms
  by (auto simp: fastkv_txn_put_def fastkv_txn_write_put_def write_entry_add_def Let_def split: if_splits prod.splits option.splits)

lemma txn_delete_meta:
  assumes "fastkv_txn_delete mems t key = (rc, t')"
  shows "txn_state t' = txn_state t \<and> txn_begin_ts t' = txn_begin_ts t \<and> oracle_slot t' = oracle_slot t"
  using assms
  by (auto simp: fastkv_txn_delete_def fastkv_txn_write_delete_def write_entry_add_def Let_def split: if_splits prod.splits option.splits)

text \<open>Begin, then end the transaction by a commit or an abort.\<close>

lemma begin_end_frame:
  assumes "db_ok db" "room 2 db" "fastkv_txn_begin benv db ro = (Inr t, db1)"
    and "oracle_slot t1 = oracle_slot t" "txn_state t1 = TXN_ACTIVE"
    and "fastkv_txn_abort db1 t1 = (rc, db2, x) \<or> (envs_ok env \<and> fastkv_txn_commit os env db1 t1 = (rc, db2, x))"
  shows "frame (-1) db db2"
proof -
  have r: "db_clock db < FASTKV_TS_MAX" "db_clock db + 1 < FASTKV_TS_MAX"
    using room_clock [OF assms(2)] room_less [of 1 db] room_mono [OF assms(2), of 1] by auto
  note b = begin_frame(1) [OF assms(1) r(1) assms(3)] begin_frame(2) [OF assms(1) r(1) assms(3) refl]
  have ok: "db_ok db1" "db_clock db1 < FASTKV_TS_MAX" using begin_db_ok [OF assms(1) r(1) assms(3)] r by auto
  have "frame (oracle_slot t1) db1 db2"
    using assms(6) abort_frame [OF ok(1)] commit_frame [OF ok _ assms(5)] by blast
  then show ?thesis by (rule frame_trans [OF b(1)]) (use b(2) assms(4) in auto)
qed

text \<open>The shape that put and delete share; \<open>f\<close> enters the write into the transaction.\<close>

definition one_write :: "os \<Rightarrow> op_env \<Rightarrow> fastkv_db \<Rightarrow> (txn \<Rightarrow> fastkv_err \<times> txn) \<Rightarrow> fastkv_err \<times> fastkv_db" where
  "one_write os env db f =
     (case fastkv_txn_begin (o_begin env) db False of
        (Inl rc, db1) \<Rightarrow> (rc, db1)
      | (Inr txn, db1) \<Rightarrow>
          (case f txn of
             (rc, txn1) \<Rightarrow>
               if rc \<noteq> FASTKV_OK then (case fastkv_txn_abort db1 txn1 of (_, db2, _) \<Rightarrow> (rc, db2))
               else (case fastkv_txn_commit os (o_write env) db1 txn1 of (rc', db2, _) \<Rightarrow> (rc', db2))))"

lemma put_one_write: "fastkv_put os env db key val = one_write os env db (\<lambda>t. fastkv_txn_put (o_mems env) t key val)"
  and delete_one_write: "fastkv_delete os env db key = one_write os env db (\<lambda>t. fastkv_txn_delete (o_mems env) t key)"
  by (simp_all add: fastkv_put_def fastkv_delete_def one_write_def)

definition keeps_meta :: "(txn \<Rightarrow> fastkv_err \<times> txn) \<Rightarrow> bool" where
  "keeps_meta f \<longleftrightarrow> (\<forall>t rc t'. f t = (rc, t') \<longrightarrow>
     txn_state t' = txn_state t \<and> txn_begin_ts t' = txn_begin_ts t \<and> oracle_slot t' = oracle_slot t)"

lemma one_write_cases:
  assumes "keeps_meta f"
  obtains (refused) rc where "fastkv_txn_begin (o_begin env) db False = (Inl rc, snd (one_write os env db f))"
  | (ended) t db1 t1 rc x where "fastkv_txn_begin (o_begin env) db False = (Inr t, db1)" "oracle_slot t1 = oracle_slot t"
      "txn_state t1 = TXN_ACTIVE"
      "fastkv_txn_abort db1 t1 = (rc, snd (one_write os env db f), x)
       \<or> fastkv_txn_commit os (o_write env) db1 t1 = (rc, snd (one_write os env db f), x)"
proof -
  obtain r db1 where b: "fastkv_txn_begin (o_begin env) db False = (r, db1)" by force
  show thesis
  proof (cases r)
    case (Inl rc)
    then show ?thesis using b refused by (simp add: one_write_def)
  next
    case (Inr t)
    obtain rc t1 where p: "f t = (rc, t1)" by force
    have m: "oracle_slot t1 = oracle_slot t" "txn_state t1 = TXN_ACTIVE"
      using begin_effect [OF b] Inr p assms by (auto simp: keeps_meta_def)
    obtain rc2 db2 x where e: "(if rc \<noteq> FASTKV_OK then fastkv_txn_abort db1 t1 else fastkv_txn_commit os (o_write env) db1 t1) = (rc2, db2, x)"
      by (metis prod_cases3)
    then have "snd (one_write os env db f) = db2" using b p Inr by (auto simp: one_write_def split: if_splits)
    then show ?thesis using ended [OF b [unfolded Inr] m, of rc2 x] e by (auto split: if_splits)
  qed
qed

lemma one_write_frame:
  assumes "db_ok db" "room 2 db" "envs_ok (o_write env)" "keeps_meta f"
  shows "frame (-1) db (snd (one_write os env db f))"
proof (rule one_write_cases [OF assms(4), of env db os])
  fix rc assume "fastkv_txn_begin (o_begin env) db False = (Inl rc, snd (one_write os env db f))"
  then show ?thesis by (rule begin_frame(1) [OF assms(1) room_clock [OF assms(2)]])
next
  fix t db1 t1 rc x
  assume "fastkv_txn_begin (o_begin env) db False = (Inr t, db1)" "oracle_slot t1 = oracle_slot t" "txn_state t1 = TXN_ACTIVE"
    "fastkv_txn_abort db1 t1 = (rc, snd (one_write os env db f), x)
     \<or> fastkv_txn_commit os (o_write env) db1 t1 = (rc, snd (one_write os env db f), x)"
  then show ?thesis using begin_end_frame [OF assms(1,2)] assms(3) by blast
qed

lemma get_frame:
  assumes "db_ok db" "room 2 db"
  shows "frame (-1) db (snd (fastkv_get benv db key))"
proof -
  obtain r db1 where b: "fastkv_txn_begin benv db True = (r, db1)" by force
  show ?thesis
  proof (cases r)
    case (Inl rc)
    then show ?thesis using begin_frame(1) [OF assms(1) room_clock [OF assms(2)] b] b by (simp add: fastkv_get_def)
  next
    case (Inr t)
    obtain rc db2 x where a: "fastkv_txn_abort db1 t = (rc, db2, x)" by (metis prod_cases3)
    have "txn_state t = TXN_ACTIVE" using begin_effect [OF b] Inr by auto
    then have "frame (-1) db db2"
      by (intro begin_end_frame [OF assms b [unfolded Inr] refl, where x = x]) (use a in auto)
    then show ?thesis using b a Inr by (simp add: fastkv_get_def Let_def)
  qed
qed

text \<open>Two timestamps at most for one call.\<close>

lemma unat_next: "unat c + 1 < unat FASTKV_TS_MAX \<Longrightarrow> unat (c + 1) = unat c + 1" for c :: fastkv_ts
  by (simp add: FASTKV_TS_MAX_def unat_word_ariths)

lemma one_write_room:
  assumes "room (2 + n) db" "keeps_meta f"
  shows "room n (snd (one_write os env db f))"
proof -
  let ?db = "snd (one_write os env db f)"
  have r: "unat (db_clock db) + 2 + n < unat FASTKV_TS_MAX" using assms(1) by (simp add: room_def)
  have b: "unat (db_clock db1) \<le> unat (db_clock db) + 1" if "fastkv_txn_begin (o_begin env) db False = (r', db1)" for r' db1
    using begin_effect [OF that] unat_next [of "db_clock db"] r by (cases r') auto
  have "unat (db_clock ?db) \<le> unat (db_clock db) + 2"
  proof (rule one_write_cases [OF assms(2), of env db os])
    fix rc assume "fastkv_txn_begin (o_begin env) db False = (Inl rc, ?db)"
    then show ?thesis using b by force
  next
    fix t db1 t1 rc x
    assume b1: "fastkv_txn_begin (o_begin env) db False = (Inr t, db1)"
      and e: "fastkv_txn_abort db1 t1 = (rc, ?db, x) \<or> fastkv_txn_commit os (o_write env) db1 t1 = (rc, ?db, x)"
    have "db_clock ?db = db_clock db1 \<or> db_clock ?db = db_clock db1 + 1"
      using e abort_effect [of db1 t1 rc ?db x] commit_clock [of os "o_write env" db1 t1 rc ?db x] by auto
    then have "unat (db_clock ?db) \<le> unat (db_clock db1) + 1" using unat_next [of "db_clock db1"] b [OF b1] r by auto
    then show ?thesis using b [OF b1] by simp
  qed
  with r show ?thesis by (simp add: room_def)
qed


section \<open>Checkpoints\<close>

lemma delete_keeps_meta: "keeps_meta (\<lambda>t. fastkv_txn_delete mems t key)"
  and put_keeps_meta: "keeps_meta (\<lambda>t. fastkv_txn_put mems t key val)"
  using txn_delete_meta txn_put_meta by (auto simp: keeps_meta_def)

lemma expire_frame:
  assumes "db_ok db" "room (2 * length ks + n) db" "\<forall>i. envs_ok (o_write (env i))"
  shows "frame (-1) db (expire_keys os env now i ks db) \<and> room n (expire_keys os env now i ks db)"
  using assms(1,2)
proof (induction ks arbitrary: db i)
  case Nil
  then show ?case by (simp add: frame_refl)
next
  case (Cons k ks)
  let ?db = "snd (fastkv_delete os (env i) db k)"
  have r: "room (2 + (2 * length ks + n)) db" using Cons.prems(2) by (simp add: ac_simps)
  have "frame (-1) db ?db" "room (2 * length ks + n) ?db"
    unfolding delete_one_write
    using one_write_frame [OF Cons.prems(1) room_mono [OF r]] one_write_room [OF r] assms(3) delete_keeps_meta by auto
  moreover have "room (2 * length ks + n) db" by (rule room_mono [OF r]) simp
  ultimately show ?case
    using Cons.IH [of db "Suc i"] Cons.IH [of ?db "Suc i"] Cons.prems(1) frame_ok frame_trans [of db ?db "-1"]
    by (auto split: option.split)
qed

lemma gc_frame:
  assumes "db_ok db" "db_clock db < FASTKV_TS_MAX"
  shows "frame (-1) db (db\<lparr>tbl := snd (fastkv_ht_gc (tbl db) (fastkv_oracle_min_active (mgr_oracle (dmgr db)))),
    stat_snapshot_count := n\<rparr>)"
proof -
  let ?m = "fastkv_oracle_min_active (mgr_oracle (dmgr db))"
  let ?h = "snd (fastkv_ht_gc (tbl db) ?m)"
  have h: "ht_wf (tbl db)" "ht_upto (tbl db) (db_clock db - 1)" using assms(1) by (auto simp: db_ok_def core_ok_def)
  have "?m \<le> FASTKV_TS_MAX - 1"
    using min_active_le(1) [of "mgr_oracle (dmgr db)"] assms(2) unfolding ts_max_pred by (rule order_trans)
  then have "latest ?h = latest (tbl db)" using hts.view_collect [OF h(1)] by (auto simp: latest_def fun_eq_iff)
  then have "db_ok (db\<lparr>tbl := ?h, stat_snapshot_count := n\<rparr>)"
    using assms(1) hts.wf_collect [OF h(1)] hts.upto_collect [OF h(2)] by (simp add: db_ok_def core_ok_def mirrors_def)
  moreover have "ht_view ?h (db_slots db ! i) k = ht_view (tbl db) (db_slots db ! i) k"
    if "i < length (db_slots db)" "db_slots db ! i \<noteq> 0" for i k
    using hts.view_collect [OF h(1) min_active_le(2)] that by simp
  ultimately show ?thesis by (simp add: frame_def)
qed

text \<open>What a checkpoint asks of its environment: memory and timestamps for the deletions of the expired keys.\<close>

definition ckpt_ok :: "ckpt_env \<Rightarrow> fastkv_db \<Rightarrow> bool" where
  "ckpt_ok env db \<longleftrightarrow> (\<forall>i. envs_ok (o_write (ck_ttl env i))) \<and>
     (\<forall>ks. ttl_scan (ck_fuel env) (ck_now env) (dttl db) = Some ks \<longrightarrow> room (2 * length ks) db)"

lemma rotate_frame:
  assumes "db_ok db" "ckpt_ok env db" "ckpt_rotate env sid w db = Some (rc, db')"
  shows "frame (-1) db db'"
proof -
  obtain seg ctx rc3 w3 d3 where u: "uuid7_hex (uuid7 db) (fst (ck_uuid env)) (snd (ck_uuid env)) = (seg, ctx)"
      "fastkv_wal_rotate (ck_os env) (fst (ck_rotate env)) (snd (ck_rotate env)) seg w (dsk db) = (rc3, w3, d3)"
    by (metis prod_cases3 surj_pair)
  define db1 where "db1 = db\<lparr>uuid7 := ctx, dwal := Some w3, dsk := d3\<rparr>"
  have same: "frame (-1) db (db1\<lparr>dsk := d\<rparr>)" "db_ok (db1\<lparr>dsk := d\<rparr>)" for d
    using assms(1) by (auto simp: db1_def db_ok_def core_ok_def intro!: frame_same)
  show ?thesis
  proof (cases "rc3 = FASTKV_OK")
    case False
    then have "db' = db1\<lparr>dsk := d3\<rparr>" using assms(3) u by (auto simp: ckpt_rotate_def db1_def Let_def)
    with same(1) show ?thesis by simp
  next
    case True
    then obtain d ks where ks: "ttl_scan (ck_fuel env) (ck_now env) (dttl db) = Some ks"
        and db': "db' = (let db2 = expire_keys (ck_os env) (ck_ttl env) (ck_now env) 0 ks (db1\<lparr>dsk := d\<rparr>)
          in db2\<lparr>tbl := snd (fastkv_ht_gc (tbl db2) (fastkv_oracle_min_active (mgr_oracle (dmgr db2)))),
               stat_snapshot_count := stat_snapshot_count db2 + 1\<rparr>)"
      using assms(3) u by (auto simp: ckpt_rotate_def fastkv_ttl_expire_def db1_def Let_def)
    let ?db1 = "db1\<lparr>dsk := d\<rparr>"
    let ?db2 = "expire_keys (ck_os env) (ck_ttl env) (ck_now env) 0 ks ?db1"
    have "room (2 * length ks + 0) ?db1" using assms(2) ks by (simp add: ckpt_ok_def room_def db1_def)
    moreover have "\<forall>i. envs_ok (o_write (ck_ttl env i))" using assms(2) by (simp add: ckpt_ok_def)
    ultimately have e: "frame (-1) ?db1 ?db2" "room 0 ?db2" using expire_frame [OF same(2)] by blast+
    have "frame (-1) ?db2 db'"
      using gc_frame [OF frame_ok [OF e(1)] room_clock [OF e(2)]] by (simp add: db' Let_def)
    then show ?thesis using frame_trans [OF frame_trans [OF same(1) e(1)]] by simp
  qed
qed

lemma checkpoint_frame:
  assumes "db_ok db" "ckpt_ok env db" "fastkv_checkpoint env db = Some (rc, db')"
  shows "frame (-1) db db'"
proof (cases "dwal db")
  case None
  then show ?thesis using assms by (auto simp: fastkv_checkpoint_def frame_refl)
next
  case (Some w)
  obtain rc1 w1 d1 where s: "fastkv_wal_sync (ck_os env) w (dsk db) = (rc1, w1, d1)" by (metis prod_cases3)
  let ?db1 = "db\<lparr>dwal := Some w1, dsk := d1\<rparr>"
  obtain rc2 sid db2 where sn: "fastkv_snapshot_write (ck_os env) (ck_snap env) (db_clock db) ?db1 (tbl db) = (rc2, sid, db2)"
    by (metis prod_cases3)
  obtain ctx d2 where db2: "db2 = ?db1\<lparr>uuid7 := ctx, dsk := d2\<rparr>" using snapshot_write_frame [OF sn] by blast
  have ok: "db_ok ?db1" "db_ok db2" "ckpt_ok env db2"
    using assms(1,2) by (simp_all add: db2 db_ok_def core_ok_def ckpt_ok_def room_def)
  have same: "frame (-1) db ?db1" "frame (-1) db db2" using ok by (auto simp: db2 intro!: frame_same)
  have "db' = ?db1 \<or> db' = db2 \<or> ckpt_rotate env sid w1 db2 = Some (rc, db')"
    using assms(3) Some s sn by (auto simp: fastkv_checkpoint_def fastkv_oracle_now_def Let_def split: if_splits)
  then show ?thesis using same rotate_frame [OF ok(2,3)] frame_trans [OF same(2)] by blast
qed


section \<open>The system\<close>

text \<open>A database and the open transactions of its clients, by handle.\<close>

record sys =
  sdb :: fastkv_db
  live :: "nat \<Rightarrow> txn option"

definition op_mem_ok :: "op_env \<Rightarrow> fastkv_db \<Rightarrow> bool" where
  "op_mem_ok env db \<longleftrightarrow> envs_ok (o_write env) \<and> room 2 db"

inductive sys_step :: "sys \<Rightarrow> sys \<Rightarrow> bool" where
  s_begin: "db_clock (sdb s) < FASTKV_TS_MAX \<Longrightarrow> live s h = None \<Longrightarrow> fastkv_txn_begin env (sdb s) ro = (Inr t, db) \<Longrightarrow>
    sys_step s (s\<lparr>sdb := db, live := (live s)(h \<mapsto> t)\<rparr>)"
| s_refused: "fastkv_txn_begin env (sdb s) ro = (Inl rc, db) \<Longrightarrow> sys_step s (s\<lparr>sdb := db\<rparr>)"
| s_put: "live s h = Some t \<Longrightarrow> fastkv_txn_put mems t key val = (rc, t') \<Longrightarrow> sys_step s (s\<lparr>live := (live s)(h \<mapsto> t')\<rparr>)"
| s_delete: "live s h = Some t \<Longrightarrow> fastkv_txn_delete mems t key = (rc, t') \<Longrightarrow> sys_step s (s\<lparr>live := (live s)(h \<mapsto> t')\<rparr>)"
| s_commit: "live s h = Some t \<Longrightarrow> db_clock (sdb s) < FASTKV_TS_MAX \<Longrightarrow> envs_ok env \<Longrightarrow>
    fastkv_txn_commit os env (sdb s) t = (rc, db, x) \<Longrightarrow> sys_step s (s\<lparr>sdb := db, live := (live s)(h := x)\<rparr>)"
| s_abort: "live s h = Some t \<Longrightarrow> fastkv_txn_abort (sdb s) t = (rc, db, x) \<Longrightarrow>
    sys_step s (s\<lparr>sdb := db, live := (live s)(h := x)\<rparr>)"
| s_get1: "room 2 (sdb s) \<Longrightarrow> sys_step s (s\<lparr>sdb := snd (fastkv_get benv (sdb s) key)\<rparr>)"
| s_put1: "op_mem_ok env (sdb s) \<Longrightarrow> sys_step s (s\<lparr>sdb := snd (fastkv_put os env (sdb s) key val)\<rparr>)"
| s_delete1: "op_mem_ok env (sdb s) \<Longrightarrow> sys_step s (s\<lparr>sdb := snd (fastkv_delete os env (sdb s) key)\<rparr>)"
| s_put_ttl: "op_mem_ok env (sdb s) \<Longrightarrow> sys_step s (s\<lparr>sdb := snd (fastkv_put_ttl os env now (sdb s) key val ttl_ms)\<rparr>)"
| s_index: "sys_step s (s\<lparr>sdb := snd (fastkv_index_create ok (sdb s) name fn)\<rparr>)"
| s_drop: "sys_step s (s\<lparr>sdb := snd (fastkv_index_drop (sdb s) name)\<rparr>)"
| s_checkpoint: "ckpt_ok env (sdb s) \<Longrightarrow> fastkv_checkpoint env (sdb s) = Some (rc, db) \<Longrightarrow> sys_step s (s\<lparr>sdb := db\<rparr>)"

text \<open>A database that has just been opened.\<close>

definition sys_start :: "sys \<Rightarrow> bool" where
  "sys_start s \<longleftrightarrow> db_ok (sdb s) \<and> db_slots (sdb s) = replicate FASTKV_MAX_CONCURRENT_TXN 0 \<and> live s = Map.empty"

inductive sys_reach :: "sys \<Rightarrow> bool" where
  reach_start: "sys_start s \<Longrightarrow> sys_reach s"
| reach_step: "sys_reach s \<Longrightarrow> sys_step s s' \<Longrightarrow> sys_reach s'"

text \<open>An open transaction and its slot.\<close>

definition holds :: "txn \<Rightarrow> fastkv_db \<Rightarrow> bool" where
  "holds t db \<longleftrightarrow> txn_state t = TXN_ACTIVE \<and> 0 < txn_begin_ts t \<and> txn_begin_ts t < db_clock db \<and>
     (oracle_slot t = -1 \<or> (\<exists>i < length (db_slots db). oracle_slot t = int i \<and> db_slots db ! i = txn_begin_ts t))"

definition sys_wf :: "sys \<Rightarrow> bool" where
  "sys_wf s \<longleftrightarrow> db_ok (sdb s) \<and> (\<forall>h t. live s h = Some t \<longrightarrow> holds t (sdb s)) \<and>
     (\<forall>h h' t t'. live s h = Some t \<and> live s h' = Some t' \<and> txn_begin_ts t = txn_begin_ts t' \<longrightarrow> h = h')"

definition same_txn :: "txn \<Rightarrow> txn \<Rightarrow> bool" where
  "same_txn t t' \<longleftrightarrow> txn_state t' = txn_state t \<and> txn_begin_ts t' = txn_begin_ts t \<and> oracle_slot t' = oracle_slot t"

lemma same_txn_refl [simp]: "same_txn t t"
  by (simp add: same_txn_def)

text \<open>
  The shape of every step: a frame for the database, and each open transaction afterwards is an old one that keeps its
  slot or the one that has just begun.
\<close>

definition step_shape :: "int \<Rightarrow> nat \<Rightarrow> sys \<Rightarrow> sys \<Rightarrow> bool" where
  "step_shape j h0 s s' \<longleftrightarrow> frame j (sdb s) (sdb s') \<and>
     (\<forall>h t'. live s' h = Some t' \<longrightarrow>
        (\<exists>t. live s h = Some t \<and> same_txn t t' \<and> (oracle_slot t \<noteq> j \<or> j = -1)) \<or>
        (h = h0 \<and> txn_begin_ts t' = db_clock (sdb s) \<and> holds t' (sdb s')))"

lemma shape_quiet: "frame (-1) (sdb s) db \<Longrightarrow> step_shape (-1) h0 s (s\<lparr>sdb := db\<rparr>)"
  by (simp add: step_shape_def)

lemma shape_write:
  "db_ok (sdb s) \<Longrightarrow> live s h = Some t \<Longrightarrow> same_txn t t' \<Longrightarrow> step_shape (-1) h0 s (s\<lparr>live := (live s)(h \<mapsto> t')\<rparr>)"
  by (auto simp: step_shape_def frame_refl)

lemma shape_end:
  assumes "sys_wf s" "live s h = Some t" "frame (oracle_slot t) (sdb s) db"
  shows "step_shape (oracle_slot t) h0 s (s\<lparr>sdb := db, live := (live s)(h := None)\<rparr>)"
proof -
  have "oracle_slot t1 \<noteq> oracle_slot t \<or> oracle_slot t = -1" if "h1 \<noteq> h" "live s h1 = Some t1" for h1 t1
  proof (rule ccontr)
    assume "\<not> ?thesis"
    moreover have "holds t (sdb s)" "holds t1 (sdb s)" using assms(1,2) that by (auto simp: sys_wf_def)
    ultimately have "txn_begin_ts t1 = txn_begin_ts t" by (auto simp: holds_def)
    then show False using assms(1,2) that by (auto simp: sys_wf_def)
  qed
  then show ?thesis using assms(3) by (auto simp: step_shape_def)
qed


lemma abort_freed: "txn_state t = TXN_ACTIVE \<Longrightarrow> fastkv_txn_abort db t = (rc, db', x) \<Longrightarrow> x = None"
  by (auto simp: fastkv_txn_abort_def fastkv_txn_mgr_abort_def split: prod.splits)

lemma put_frame: "db_ok db \<Longrightarrow> op_mem_ok env db \<Longrightarrow> frame (-1) db (snd (fastkv_put os env db key val))"
  and delete_frame: "db_ok db \<Longrightarrow> op_mem_ok env db \<Longrightarrow> frame (-1) db (snd (fastkv_delete os env db key))"
  unfolding put_one_write delete_one_write op_mem_ok_def
  using one_write_frame put_keeps_meta delete_keeps_meta by blast+

lemma put_ttl_frame:
  assumes "db_ok db" "op_mem_ok env db"
  shows "frame (-1) db (snd (fastkv_put_ttl os env now db key val ttl_ms))"
proof -
  obtain rc db1 where p: "fastkv_put os env db key val = (rc, db1)" by force
  have f: "frame (-1) db db1" using put_frame [OF assms, of os key val] by (simp add: p)
  obtain m where "ttl_rel (dttl db1) m" using frame_ok [OF f] by (auto simp: db_ok_def core_ok_def)
  then have "\<exists>m. ttl_rel (fastkv_ttl_set now (dttl db1) key ttl_ms) m" using ttl_set_rel by blast
  then have "db_ok (db1\<lparr>dttl := fastkv_ttl_set now (dttl db1) key ttl_ms\<rparr>)"
    using frame_ok [OF f] by (auto simp: db_ok_def core_ok_def)
  then have "frame (-1) db1 (db1\<lparr>dttl := fastkv_ttl_set now (dttl db1) key ttl_ms\<rparr>)" by (rule frame_same) simp_all
  then show ?thesis using f frame_trans [OF f] p by (auto simp: fastkv_put_ttl_def)
qed

lemma step_has_shape:
  assumes "sys_wf s" "sys_step s s'"
  shows "\<exists>j h0. step_shape j h0 s s'"
proof -
  have ok: "db_ok (sdb s)" and live: "\<And>h t. live s h = Some t \<Longrightarrow> txn_state t = TXN_ACTIVE"
    using assms(1) by (auto simp: sys_wf_def holds_def)
  show ?thesis
    using assms(2)
  proof cases
    case (s_begin h env ro t db)
    note f = begin_frame(1) [OF ok s_begin(2,4)] begin_frame(2) [OF ok s_begin(2,4) refl]
    have l: "length (db_slots db) = length (db_slots (sdb s))" using f(1) by (simp add: frame_def)
    have "0 < db_clock (sdb s)" using ok by (simp add: db_ok_def)
    then have "holds t db" using f(2) l by (auto simp: holds_def)
    then have "step_shape (-1) h s s'" using f s_begin(1) by (auto simp: step_shape_def)
    then show ?thesis by blast
  next
    case (s_refused env ro rc db)
    then have "db = sdb s" using begin_effect [OF s_refused(2)] by auto
    then show ?thesis using shape_quiet [of s db] frame_refl [OF ok] s_refused(1) by blast
  next
    case (s_put h t mems key val rc t')
    then show ?thesis using shape_write [OF ok s_put(2)] txn_put_meta [OF s_put(3)] by (auto simp: same_txn_def)
  next
    case (s_delete h t mems key rc t')
    then show ?thesis using shape_write [OF ok s_delete(2)] txn_delete_meta [OF s_delete(3)] by (auto simp: same_txn_def)
  next
    case (s_commit h t env os rc db x)
    then show ?thesis
      using shape_end [OF assms(1) s_commit(2) commit_frame [OF ok s_commit(3,4) live [OF s_commit(2)] s_commit(5)]]
        commit_slots [OF live [OF s_commit(2)] s_commit(5)] by auto
  next
    case (s_abort h t rc db x)
    then show ?thesis
      using shape_end [OF assms(1) s_abort(2) abort_frame [OF ok s_abort(3)]] abort_freed [OF live [OF s_abort(2)] s_abort(3)] by auto
  next
    case (s_get1 benv key)
    then show ?thesis using shape_quiet [OF get_frame [OF ok s_get1(2)]] by blast
  next
    case (s_put1 env os key val)
    then show ?thesis using shape_quiet [OF put_frame [OF ok s_put1(2)]] by blast
  next
    case (s_delete1 env os key)
    then show ?thesis using shape_quiet [OF delete_frame [OF ok s_delete1(2)]] by blast
  next
    case (s_put_ttl env os now key val ttl_ms)
    then show ?thesis using shape_quiet [OF put_ttl_frame [OF ok s_put_ttl(2)]] by blast
  next
    case (s_index ok' name fn)
    have "db_ok (snd (fastkv_index_create ok' (sdb s) name fn))"
      using ok by (auto simp: fastkv_index_create_def db_ok_def core_ok_def)
    then have "frame (-1) (sdb s) (snd (fastkv_index_create ok' (sdb s) name fn))"
      by (rule frame_same) (simp_all add: fastkv_index_create_def)
    then show ?thesis using shape_quiet s_index by blast
  next
    case (s_drop name)
    have "db_ok (snd (fastkv_index_drop (sdb s) name))"
      using ok by (auto simp: fastkv_index_drop_def db_ok_def core_ok_def split: option.split)
    then have "frame (-1) (sdb s) (snd (fastkv_index_drop (sdb s) name))"
      by (rule frame_same) (simp_all add: fastkv_index_drop_def split: option.split)
    then show ?thesis using shape_quiet s_drop by blast
  next
    case (s_checkpoint env rc db)
    then show ?thesis using shape_quiet [OF checkpoint_frame [OF ok s_checkpoint(2,3)]] by blast
  qed
qed

lemma holds_frame:
  assumes "holds t db" "frame j db db'" "oracle_slot t \<noteq> j \<or> j = -1"
  shows "holds t db' \<and> (oracle_slot t \<noteq> -1 \<longrightarrow> (\<forall>k. ht_view (tbl db') (txn_begin_ts t) k = ht_view (tbl db) (txn_begin_ts t) k))"
  using assms unfolding holds_def frame_def by (auto intro: less_le_trans)

lemma shape_wf:
  assumes "sys_wf s" "step_shape j h0 s s'"
  shows "sys_wf s'"
proof -
  have f: "frame j (sdb s) (sdb s')" using assms(2) by (simp add: step_shape_def)
  have old: "txn_begin_ts t < db_clock (sdb s)" if "live s h = Some t" for h t using assms(1) that by (auto simp: sys_wf_def holds_def)
  have cases: "(\<exists>t. live s h = Some t \<and> txn_begin_ts t = txn_begin_ts t') \<and> holds t' (sdb s')
      \<or> h = h0 \<and> txn_begin_ts t' = db_clock (sdb s) \<and> holds t' (sdb s')"
    if live': "live s' h = Some t'" for h t'
  proof -
    consider t where "live s h = Some t" "same_txn t t'" "oracle_slot t \<noteq> j \<or> j = -1"
      | "h = h0" "txn_begin_ts t' = db_clock (sdb s)" "holds t' (sdb s')"
      using assms(2) live' unfolding step_shape_def by blast
    then show ?thesis
    proof cases
      case 1
      then have "holds t (sdb s')" using holds_frame [OF _ f] assms(1) by (auto simp: sys_wf_def)
      then have "holds t' (sdb s')" using 1(2) by (simp add: holds_def same_txn_def)
      then show ?thesis using 1 by (auto simp: same_txn_def)
    qed simp
  qed
  have "h = h'" if "live s' h = Some t" "live s' h' = Some t'" "txn_begin_ts t = txn_begin_ts t'" for h h' t t'
    using cases [OF that(1)] cases [OF that(2)] that(3) old assms(1) unfolding sys_wf_def
    by (metis order_less_irrefl)
  then show ?thesis using cases frame_ok [OF f] unfolding sys_wf_def by blast
qed

lemma reach_wf: "sys_reach s \<Longrightarrow> sys_wf s"
proof (induction rule: sys_reach.induct)
  case (reach_start s)
  then show ?case by (simp add: sys_start_def sys_wf_def)
next
  case (reach_step s s')
  then show ?case using step_has_shape shape_wf by blast
qed


text \<open>What a step does to the snapshot of a transaction that stays open.\<close>

lemma step_keeps_view:
  assumes "sys_wf s" "sys_step s s'" "live s' h = Some t'" "txn_begin_ts t' < db_clock (sdb s)" "oracle_slot t' \<noteq> -1"
  shows "\<exists>t. live s h = Some t \<and> same_txn t t' \<and>
    (\<forall>k. ht_view (tbl (sdb s')) (txn_begin_ts t') k = ht_view (tbl (sdb s)) (txn_begin_ts t') k)"
proof -
  obtain j h0 where sh: "step_shape j h0 s s'" using step_has_shape [OF assms(1,2)] by blast
  then obtain t where t: "live s h = Some t" "same_txn t t'" "oracle_slot t \<noteq> j \<or> j = -1"
    using assms(3,4) unfolding step_shape_def by force
  moreover have "holds t (sdb s)" "frame j (sdb s) (sdb s')"
    using assms(1) t(1) sh by (auto simp: sys_wf_def step_shape_def)
  ultimately show ?thesis using holds_frame [of t "sdb s" j "sdb s'"] assms(5) by (auto simp: same_txn_def)
qed

lemma step_clock: "sys_wf s \<Longrightarrow> sys_step s s' \<Longrightarrow> db_clock (sdb s) \<le> db_clock (sdb s')"
  using step_has_shape frame_clock unfolding step_shape_def by blast

lemma run_keeps_view:
  assumes "sys_step\<^sup>*\<^sup>* s s'" "sys_wf s" "live s h = Some t"
    and "live s' h' = Some t'" "txn_begin_ts t' = txn_begin_ts t" "oracle_slot t' \<noteq> -1"
  shows "h' = h \<and> same_txn t t' \<and> (\<forall>k. ht_view (tbl (sdb s')) (txn_begin_ts t) k = ht_view (tbl (sdb s)) (txn_begin_ts t) k)"
proof -
  have b: "txn_begin_ts t < db_clock (sdb s)" using assms(2,3) by (auto simp: sys_wf_def holds_def)
  have "sys_wf s' \<and> db_clock (sdb s) \<le> db_clock (sdb s') \<and>
    (\<forall>h' t'. live s' h' = Some t' \<and> txn_begin_ts t' = txn_begin_ts t \<and> oracle_slot t' \<noteq> -1 \<longrightarrow> h' = h \<and> same_txn t t' \<and>
      (\<forall>k. ht_view (tbl (sdb s')) (txn_begin_ts t) k = ht_view (tbl (sdb s)) (txn_begin_ts t) k))"
    using assms(1)
  proof (induction rule: rtranclp_induct)
    case base
    show ?case using assms(2,3) unfolding sys_wf_def by (metis option.inject order_refl same_txn_refl)
  next
    case (step s1 s2)
    have w: "sys_wf s1" "sys_wf s2" using step shape_wf step_has_shape by blast+
    have c: "db_clock (sdb s1) \<le> db_clock (sdb s2)" by (rule step_clock [OF w(1) step.hyps(2)])
    have "h2 = h \<and> same_txn t t2 \<and> (\<forall>k. ht_view (tbl (sdb s2)) (txn_begin_ts t) k = ht_view (tbl (sdb s)) (txn_begin_ts t) k)"
      if t2: "live s2 h2 = Some t2" "txn_begin_ts t2 = txn_begin_ts t" "oracle_slot t2 \<noteq> -1" for h2 t2
    proof -
      have "txn_begin_ts t2 < db_clock (sdb s1)" using t2(2) b step.IH by (auto intro: less_le_trans)
      from step_keeps_view [OF w(1) step.hyps(2) t2(1) this t2(3)] obtain t1 where
        "live s1 h2 = Some t1" "same_txn t1 t2"
        "\<forall>k. ht_view (tbl (sdb s2)) (txn_begin_ts t2) k = ht_view (tbl (sdb s1)) (txn_begin_ts t2) k" by blast
      then show ?thesis using step.IH t2 by (auto simp: same_txn_def)
    qed
    then show ?case using w(2) c step.IH by (auto intro: order_trans)
  qed
  then show ?thesis using assms(4-6) by blast
qed


section \<open>A sample\<close>

text \<open>A transaction begun on a new database.\<close>

definition iso_txn :: txn where
  "iso_txn = (case fastkv_txn_begin sample_begin sample_db True of (Inr t, _) \<Rightarrow> t)"

definition iso_begun :: sys where
  "iso_begun = \<lparr>sdb = snd (fastkv_txn_begin sample_begin sample_db True), live = [0 \<mapsto> iso_txn]\<rparr>"

lemma iso_begin: "fastkv_txn_begin sample_begin sample_db True = (Inr iso_txn, sdb iso_begun)" "oracle_slot iso_txn = 0"
proof -
  obtain t db where b: "fastkv_txn_begin sample_begin sample_db True = (Inr t, db)"
    using begin_succeeds [OF sample_env_ok(2)] by blast
  then show b': "fastkv_txn_begin sample_begin sample_db True = (Inr iso_txn, sdb iso_begun)"
    by (simp add: iso_txn_def iso_begun_def)
  have "free_slot (replicate n 0) 0 = (if n = 0 then None else Some 0)" for n by (cases n) simp_all
  then have "snd (fastkv_oracle_begin (mgr_oracle (dmgr sample_db))) = (0, snd (snd (fastkv_oracle_begin (mgr_oracle (dmgr sample_db)))))"
    by (simp add: sample_db_def fastkv_txn_mgr_init_def fastkv_oracle_init_def fastkv_oracle_begin_def FASTKV_MAX_CONCURRENT_TXN_def Let_def)
  then show "oracle_slot iso_txn = 0"
    using b' by (auto simp: fastkv_txn_begin_def fastkv_txn_mgr_begin_def split: prod.splits if_splits option.splits)
      (metis txn.select_convs(5))
qed

lemma iso_reach: "sys_reach iso_begun"
proof -
  let ?s = "\<lparr>sdb = sample_db, live = Map.empty\<rparr>"
  have c: "db_clock sample_db < FASTKV_TS_MAX" by (rule room_clock [OF sample_db_ok(2)])
  have "db_slots sample_db = replicate FASTKV_MAX_CONCURRENT_TXN 0"
    by (simp add: sample_db_def fastkv_txn_mgr_init_def fastkv_oracle_init_def)
  then have "sys_reach ?s" using sample_db_ok(1) by (intro reach_start) (simp add: sys_start_def)
  moreover have "sys_step ?s (?s\<lparr>sdb := sdb iso_begun, live := (live ?s)(0 \<mapsto> iso_txn)\<rparr>)"
    by (rule s_begin) (use c iso_begin(1) in auto)
  ultimately show ?thesis using reach_step by (fastforce simp: iso_begun_def)
qed

text \<open>Another client stores a value for the key \<open>[7]\<close>.\<close>

definition iso_later :: sys where
  "iso_later = iso_begun\<lparr>sdb := snd (fastkv_put (\<lambda>_. SysOk) sample_op (sdb iso_begun) [7] (Some [1]))\<rparr>"

lemma iso_step: "sys_step iso_begun iso_later"
proof -
  have "db_clock (sdb iso_begun) = 2"
    using begin_effect [OF iso_begin(1)] sample_db_ok(5) by auto
  then have "op_mem_ok sample_op (sdb iso_begun)"
    using sample_env_ok(3) by (simp add: op_mem_ok_def room_def FASTKV_TS_MAX_def)
  then show ?thesis unfolding iso_later_def by (rule s_put1)
qed

lemma iso_unread: "fastkv_txn_get (sdb iso_begun) iso_txn [7] = Inl FASTKV_ERR_NOTFOUND"
proof -
  have t: "txn_state iso_txn = TXN_ACTIVE" "write_head iso_txn = []" "txn_begin_ts iso_txn = db_clock sample_db" "tbl (sdb iso_begun) = tbl sample_db"
    using begin_effect [OF iso_begin(1)] by auto
  have "ht_view (tbl sample_db) (db_clock sample_db) [7] = None"
    using db_ok_latest [OF sample_db_ok(1) order_refl room_clock [OF sample_db_ok(2)]] sample_tbl_ok(3) by simp
  then show ?thesis using t by (simp add: fastkv_txn_get_def fastkv_txn_write_lookup_def ht_get_view FASTKV_MAX_KEY_LEN_def)
qed

section \<open>Statements\<close>





end
