(* ===== verification/Compaction.thy ===== *)
theory Compaction
  imports Recovery
begin

text \<open>
  The background thread of \<open>persist/compaction.c\<close> and its control: started by \<^verbatim>\<open>fastkv_open\<close>, paused and resumed by
  the caller, joined by \<^verbatim>\<open>fastkv_close\<close>.  The calling thread and the background threads take steps in any order;
  a step ends at an access to the stop flag or at the call of \<^verbatim>\<open>pthread_join\<close>.  Checkpoints are counted here;
  \<open>Checkpoint\<close> shows what one does.

  Joining a thread that was never created or has been joined before is undefined and has no step.

  Shown here: when every resume follows a pause, stopping is defined, returns, and leaves no thread that could
  touch the database that is freed next; without that discipline a thread survives the close, and a pause
  followed by a close joins the same thread twice.
\<close>

section \<open>The threads\<close>

text \<open>A background thread is about to test the loop condition, asleep, or gone.\<close>

datatype bg_pc = Bg_test | Bg_asleep | Bg_exited

record bg_thread =
  bg_at :: bg_pc
  bg_elapsed :: nat

text \<open>The calling thread: outside, inside \<^verbatim>\<open>pthread_join\<close> on behalf of pause or of close, or past it in close.\<close>

datatype main_pc = Main_idle | Main_joining bool | Main_closed

record bg_state =
  compact_stop :: bool
  compact_thread :: "nat option"
  bg_threads :: "bg_thread list"
  bg_main :: main_pc
  bg_checkpoints :: nat

text \<open>One step of \<^verbatim>\<open>compaction_thread_fn\<close> when the stop flag has the given value, and whether it runs a checkpoint.\<close>

definition compaction_step :: "bool \<Rightarrow> bg_thread \<Rightarrow> bg_thread \<times> bool" where
  "compaction_step stop t =
     (case bg_at t of
        Bg_test \<Rightarrow> (t\<lparr>bg_at := if stop then Bg_exited else Bg_asleep\<rparr>, False)
      | Bg_asleep \<Rightarrow>
          let e = bg_elapsed t + 1
          in if stop then (t\<lparr>bg_at := Bg_exited, bg_elapsed := e\<rparr>, False)
             else if e \<ge> COMPACT_INTERVAL_SEC then (t\<lparr>bg_at := Bg_test, bg_elapsed := 0\<rparr>, True)
             else (t\<lparr>bg_at := Bg_test, bg_elapsed := e\<rparr>, False)
      | Bg_exited \<Rightarrow> (t, False))"

definition bg_advance :: "nat \<Rightarrow> bg_state \<Rightarrow> bg_state" where
  "bg_advance i s =
     (case compaction_step (compact_stop s) (bg_threads s ! i) of
        (t, ckpt) \<Rightarrow> s\<lparr>bg_threads := (bg_threads s)[i := t],
                       bg_checkpoints := bg_checkpoints s + (if ckpt then 1 else 0)\<rparr>)"

section \<open>The calls\<close>

text \<open>
  \<^verbatim>\<open>fastkv_compaction_start\<close> returns \<^verbatim>\<open>FASTKV_OK\<close> also when \<^verbatim>\<open>pthread_create\<close> fails; the handle is then undefined.
\<close>

definition fastkv_compaction_start :: "bool \<Rightarrow> bg_state \<Rightarrow> fastkv_err \<times> bg_state" where
  "fastkv_compaction_start created s =
     (let s = s\<lparr>compact_stop := False\<rparr>
      in (FASTKV_OK,
          if created
          then s\<lparr>bg_threads := bg_threads s @ [\<lparr>bg_at = Bg_test, bg_elapsed = 0\<rparr>],
                 compact_thread := Some (length (bg_threads s))\<rparr>
          else s\<lparr>compact_thread := None\<rparr>))"

text \<open>
  \<^verbatim>\<open>fastkv_compaction_stop\<close>, up to the call of \<^verbatim>\<open>pthread_join\<close> and its return, which waits for the thread to exit.
\<close>

definition compaction_stop_call :: "bool \<Rightarrow> bg_state \<Rightarrow> bg_state" where
  "compaction_stop_call closing s = s\<lparr>compact_stop := True, bg_main := Main_joining closing\<rparr>"

definition compaction_stop_return :: "bg_state \<Rightarrow> bg_state option" where
  "compaction_stop_return s =
     (case (bg_main s, compact_thread s) of
        (Main_joining closing, Some i) \<Rightarrow>
          if bg_at (bg_threads s ! i) = Bg_exited
          then Some (s\<lparr>compact_thread := None, bg_main := if closing then Main_closed else Main_idle\<rparr>)
          else None
      | _ \<Rightarrow> None)"

text \<open>The public calls; a NULL database is ignored.\<close>

definition fastkv_compaction_pause :: "bg_state option \<Rightarrow> bg_state option" where
  "fastkv_compaction_pause db = map_option (compaction_stop_call False) db"

definition fastkv_compaction_resume :: "bool \<Rightarrow> bg_state option \<Rightarrow> bg_state option" where
  "fastkv_compaction_resume created db = map_option (\<lambda>s. snd (fastkv_compaction_start created s)) db"

text \<open>The end of \<^verbatim>\<open>fastkv_open\<close>: no thread in read-only mode.\<close>

definition compaction_open :: "bool \<Rightarrow> bool \<Rightarrow> bg_state" where
  "compaction_open read_only created =
     (let s = \<lparr>compact_stop = False, compact_thread = None, bg_threads = [], bg_main = Main_idle, bg_checkpoints = 0\<rparr>
      in if \<not> read_only then snd (fastkv_compaction_start created s) else s)"

section \<open>Interleavings\<close>

text \<open>
  The flag of the relation says whether the caller is disciplined: it resumes only after a pause, and \<^verbatim>\<open>pthread_create\<close>
  succeeds.
\<close>

inductive bg_step :: "bool \<Rightarrow> bg_state \<Rightarrow> bg_state \<Rightarrow> bool" for disciplined where
  thread: "i < length (bg_threads s) \<Longrightarrow> bg_at (bg_threads s ! i) \<noteq> Bg_exited \<Longrightarrow> bg_step disciplined s (bg_advance i s)"
| pause: "bg_main s = Main_idle \<Longrightarrow> compact_thread s \<noteq> None \<Longrightarrow> fastkv_compaction_pause (Some s) = Some s' \<Longrightarrow> bg_step disciplined s s'"
| close: "bg_main s = Main_idle \<Longrightarrow> compact_thread s \<noteq> None \<Longrightarrow> bg_step disciplined s (compaction_stop_call True s)"
| joined: "compaction_stop_return s = Some s' \<Longrightarrow> bg_step disciplined s s'"
| resume: "bg_main s = Main_idle \<Longrightarrow> (disciplined \<Longrightarrow> created \<and> compact_thread s = None) \<Longrightarrow>
    fastkv_compaction_resume created (Some s) = Some s' \<Longrightarrow> bg_step disciplined s s'"

inductive bg_run :: "bool \<Rightarrow> bg_state \<Rightarrow> bool" for disciplined where
  start: "(disciplined \<Longrightarrow> created \<and> \<not> read_only) \<Longrightarrow> bg_run disciplined (compaction_open read_only created)"
| step: "bg_run disciplined s \<Longrightarrow> bg_step disciplined s s' \<Longrightarrow> bg_run disciplined s'"

section \<open>Lemmas\<close>

text \<open>Two steps of a thread are one turn of its loop.\<close>

lemma two_steps_one_turn:
  assumes "bg_at t = Bg_test"
  shows "(let (t1, _) = compaction_step stop1 t; (t2, ckpt) = compaction_step stop2 t1
      in ((if bg_at t2 = Bg_exited then Compact_exit else if ckpt then Compact_checkpoint else Compact_sleep), bg_elapsed t2))
    = compaction_turn stop1 stop2 (bg_elapsed t)"
  using assms by (auto simp: compaction_step_def compaction_turn_def Let_def)

text \<open>The invariant of a disciplined run: only the thread of the handle is alive, and the flag matches the caller.\<close>

definition others_exited :: "nat option \<Rightarrow> bg_thread list \<Rightarrow> bool" where
  "others_exited h ts \<longleftrightarrow> (\<forall>i < length ts. h \<noteq> Some i \<longrightarrow> bg_at (ts ! i) = Bg_exited)"

definition bg_inv :: "bg_state \<Rightarrow> bool" where
  "bg_inv s \<longleftrightarrow> others_exited (compact_thread s) (bg_threads s) \<and>
     (case bg_main s of
        Main_idle \<Rightarrow> (case compact_thread s of None \<Rightarrow> True | Some i \<Rightarrow>
          i < length (bg_threads s) \<and> \<not> compact_stop s \<and> bg_at (bg_threads s ! i) \<noteq> Bg_exited)
      | Main_joining _ \<Rightarrow> compact_stop s \<and> (\<exists>i. compact_thread s = Some i \<and> i < length (bg_threads s))
      | Main_closed \<Rightarrow> compact_thread s = None)"

lemma bg_inv_open: "bg_inv (compaction_open False True)"
  by (simp add: bg_inv_def compaction_open_def fastkv_compaction_start_def others_exited_def Let_def)

lemma bg_advance_simps [simp]:
  "compact_stop (bg_advance i s) = compact_stop s" "compact_thread (bg_advance i s) = compact_thread s"
  "bg_main (bg_advance i s) = bg_main s" "length (bg_threads (bg_advance i s)) = length (bg_threads s)"
  by (simp_all add: bg_advance_def split: prod.split)

lemma bg_advance_nth:
  "i < length (bg_threads s) \<Longrightarrow> bg_threads (bg_advance i s) ! j =
     (if j = i then fst (compaction_step (compact_stop s) (bg_threads s ! i)) else bg_threads s ! j)"
  by (auto simp: bg_advance_def split: prod.split)

lemma compaction_step_exits:
  "bg_at t \<noteq> Bg_exited \<Longrightarrow> bg_at (fst (compaction_step stop t)) = Bg_exited \<longleftrightarrow> stop"
  by (cases "bg_at t") (simp_all add: compaction_step_def Let_def)

lemma others_exited_simps:
  "others_exited None ts \<longleftrightarrow> (\<forall>t \<in> set ts. bg_at t = Bg_exited)"
  "others_exited (Some i) (ts[i := t]) = others_exited (Some i) ts"
  "others_exited (Some (length ts)) (ts @ [t]) = others_exited None ts"
  by (auto simp: others_exited_def all_set_conv_all_nth nth_append less_Suc_eq)

lemma others_exited_join: "others_exited (Some i) ts \<Longrightarrow> bg_at (ts ! i) = Bg_exited \<Longrightarrow> others_exited None ts"
  by (auto simp: others_exited_def)

lemma bg_inv_thread:
  assumes "bg_inv s" "i < length (bg_threads s)" "bg_at (bg_threads s ! i) \<noteq> Bg_exited"
  shows "bg_inv (bg_advance i s)"
proof -
  have i: "compact_thread s = Some i" using assms by (auto simp: bg_inv_def others_exited_def)
  have "bg_threads (bg_advance i s) = (bg_threads s)[i := fst (compaction_step (compact_stop s) (bg_threads s ! i))]"
    by (simp add: bg_advance_def split: prod.split)
  then have "others_exited (Some i) (bg_threads (bg_advance i s))"
    using assms(1) i by (simp add: bg_inv_def others_exited_simps)
  moreover have "bg_at (bg_threads (bg_advance i s) ! i) = Bg_exited \<longleftrightarrow> compact_stop s"
    using assms(2,3) by (simp add: bg_advance_nth compaction_step_exits)
  ultimately show ?thesis using assms(1,2) i by (cases "bg_main s") (simp_all add: bg_inv_def)
qed

lemma bg_inv_step: "bg_step d s s' \<Longrightarrow> d \<Longrightarrow> bg_inv s \<Longrightarrow> bg_inv s'"
proof (induction rule: bg_step.induct)
  case (thread i s)
  then show ?case by (blast intro: bg_inv_thread)
next
  case (pause s s')
  then show ?case
    by (auto simp: bg_inv_def fastkv_compaction_pause_def compaction_stop_call_def split: option.splits)
next
  case (close s)
  then show ?case by (auto simp: bg_inv_def compaction_stop_call_def split: option.splits)
next
  case (joined s s')
  then show ?case
    by (auto simp: bg_inv_def compaction_stop_return_def intro: others_exited_join split: main_pc.splits option.splits if_splits)
next
  case (resume s created s')
  then show ?case
    by (auto simp: bg_inv_def fastkv_compaction_resume_def fastkv_compaction_start_def others_exited_simps Let_def)
qed

lemma bg_inv_run: "bg_run d s \<Longrightarrow> d \<Longrightarrow> bg_inv s"
  by (induction rule: bg_run.induct) (auto simp: bg_inv_open intro: bg_inv_step)


text \<open>While the caller waits, the thread it waits for has exited or exits at its next step.\<close>

lemma bg_joining_returns:
  assumes "bg_inv s" "bg_main s = Main_joining closing"
  shows "\<exists>i s'. compact_thread s = Some i \<and>
    compaction_stop_return (if bg_at (bg_threads s ! i) = Bg_exited then s else bg_advance i s) = Some s'"
proof -
  obtain i where i: "compact_thread s = Some i" "i < length (bg_threads s)" "compact_stop s"
    using assms by (auto simp: bg_inv_def)
  show ?thesis
  proof (cases "bg_at (bg_threads s ! i) = Bg_exited")
    case True
    then show ?thesis using i(1) assms(2) by (simp add: compaction_stop_return_def)
  next
    case False
    then have "bg_at (bg_threads (bg_advance i s) ! i) = Bg_exited"
      using i(2,3) by (simp add: bg_advance_nth compaction_step_exits)
    then show ?thesis using i(1) assms(2) False by (simp add: compaction_stop_return_def)
  qed
qed


text \<open>Open, let the thread go to sleep, and close; and the same with a pause.\<close>

definition bg_sample :: "main_pc \<Rightarrow> bg_state" where
  "bg_sample m = \<lparr>compact_stop = True, compact_thread = None,
     bg_threads = [\<lparr>bg_at = Bg_exited, bg_elapsed = 1\<rparr>], bg_main = m, bg_checkpoints = 0\<rparr>"

lemmas bg_eval = compaction_open_def fastkv_compaction_start_def bg_advance_def compaction_step_def
  compaction_stop_call_def compaction_stop_return_def fastkv_compaction_pause_def fastkv_compaction_resume_def
  bg_sample_def Let_def

lemma bg_sample_run:
  "bg_run d (bg_sample Main_closed)" "bg_run d (bg_sample Main_idle)"
proof -
  let ?s0 = "compaction_open False True"
  let ?s1 = "bg_advance 0 ?s0"
  have 0: "bg_run d ?s0" by (rule bg_run.start) simp
  have 1: "bg_run d ?s1" by (rule bg_run.step [OF 0 bg_step.thread]) (simp_all add: bg_eval)
  have stop: "bg_run d (compaction_stop_call c ?s1)" for c
  proof (rule bg_run.step [OF 1])
    have ready: "bg_main ?s1 = Main_idle" "compact_thread ?s1 \<noteq> None" by (simp_all add: bg_eval)
    show "bg_step d ?s1 (compaction_stop_call c ?s1)"
    proof (cases c)
      case True
      then show ?thesis using bg_step.close [OF ready] by simp
    next
      case False
      then show ?thesis using bg_step.pause [OF ready] by (simp add: fastkv_compaction_pause_def)
    qed
  qed
  have exit: "bg_run d (bg_advance 0 (compaction_stop_call c ?s1))" for c
    by (rule bg_run.step [OF stop bg_step.thread]) (simp_all add: bg_eval)
  show "bg_run d (bg_sample Main_closed)" "bg_run d (bg_sample Main_idle)"
    by (rule bg_run.step [OF exit [of True] bg_step.joined], simp add: bg_eval)
      (rule bg_run.step [OF exit [of False] bg_step.joined], simp add: bg_eval)
qed


section \<open>Callers without the discipline\<close>

text \<open>A paused database cannot be closed: \<^verbatim>\<open>fastkv_close\<close> joins the thread a second time.\<close>

lemma close_after_pause_undefined:
  "bg_run True (bg_sample Main_idle) \<and> compact_thread (bg_sample Main_idle) = None
   \<and> compaction_stop_return (compaction_stop_call True (bg_sample Main_idle)) = None"
  using bg_sample_run(2) by (simp add: bg_eval)

text \<open>
  A resume without a pause loses the handle of the running thread: the close joins the second one, frees the
  database, and the first is still asleep.
\<close>

lemma resume_twice_outlives_close:
  "\<exists>s. bg_run False s \<and> bg_main s = Main_closed \<and> bg_threads s = [\<lparr>bg_at = Bg_asleep, bg_elapsed = 0\<rparr>, \<lparr>bg_at = Bg_exited, bg_elapsed = 0\<rparr>]"
proof -
  let ?s0 = "compaction_open False True"
  let ?s1 = "bg_advance 0 ?s0"
  let ?s2 = "snd (fastkv_compaction_start True ?s1)"
  let ?s3 = "compaction_stop_call True ?s2"
  let ?s4 = "bg_advance 1 ?s3"
  have "bg_run False ?s0" by (rule bg_run.start) simp
  then have "bg_run False ?s1" by (rule bg_run.step [OF _ bg_step.thread]) (simp_all add: bg_eval)
  then have "bg_run False ?s2" by (rule bg_run.step [OF _ bg_step.resume [where created = True]]) (simp_all add: bg_eval)
  then have "bg_run False ?s3" by (rule bg_run.step [OF _ bg_step.close]) (simp_all add: bg_eval)
  then have "bg_run False ?s4" by (rule bg_run.step [OF _ bg_step.thread]) (simp_all add: bg_eval)
  then have "bg_run False (?s4\<lparr>compact_thread := None, bg_main := Main_closed\<rparr>)"
    by (rule bg_run.step [OF _ bg_step.joined]) (simp add: bg_eval)
  then show ?thesis
    by (intro exI [of _ "?s4\<lparr>compact_thread := None, bg_main := Main_closed\<rparr>"] conjI) (simp_all add: bg_eval)
qed

end
