(* ===== verification/Oracle_Steps.thy ===== *)
theory Oracle_Steps
  imports Mvcc Hashtable
begin

text \<open>
  The timestamp oracle (\<open>txn/mvcc.c\<close>) at the grain of its atomic accesses.  \<open>Mvcc\<close> takes each function as one step; here
  every \<^verbatim>\<open>atomic_\<close> operation is a step and any number of threads interleave: a begin increments the clock and then
  tries the slots one by one, the scan for the oldest transaction reads the clock and then the slots, \<^verbatim>\<open>advance\<close>
  retries its compare-and-swap.  The interleavings are sequentially consistent.

  Shown here: timestamps and slots are exclusive in every interleaving, and the bound the scan computes protects
  every transaction that had its slot when the scan began or began after it; a transaction that has its timestamp
  but not yet its slot is not protected, and can lose its snapshot.
\<close>

section \<open>Steps\<close>

text \<open>
  Where a thread is.  A scan remembers, for the statements only, the clock it read first and the transactions that had
  slots then.
\<close>

datatype opc =
    O_idle
  | O_claim fastkv_ts nat
  | O_active fastkv_ts "nat option"
  | O_scan fastkv_ts nat fastkv_ts "(nat \<times> fastkv_ts) set"
  | O_min fastkv_ts fastkv_ts "(nat \<times> fastkv_ts) set"
  | O_advance fastkv_ts
  | O_advance_cas fastkv_ts fastkv_ts

record ostate =
  o_oracle :: ts_oracle
  o_pc :: "nat \<Rightarrow> opc"

definition registered :: "ostate \<Rightarrow> (nat \<times> fastkv_ts) set" where
  "registered s = {(p, ts). \<exists>i. o_pc s p = O_active ts (Some i)}"

text \<open>One attempt of the loop of \<^verbatim>\<open>fastkv_oracle_begin\<close>.\<close>

definition claim_slot :: "ts_oracle \<Rightarrow> fastkv_ts \<Rightarrow> nat \<Rightarrow> ts_oracle \<times> opc" where
  "claim_slot orc ts i =
     (if i < FASTKV_MAX_CONCURRENT_TXN
      then if slots orc ! i = 0 then (orc\<lparr>slots := (slots orc)[i := ts]\<rparr>, O_active ts (Some i)) else (orc, O_claim ts (i + 1))
      else (orc, O_active ts None))"

text \<open>One turn of the loop of \<^verbatim>\<open>fastkv_oracle_min_active\<close>.\<close>

definition scan_slot :: "ts_oracle \<Rightarrow> fastkv_ts \<Rightarrow> nat \<Rightarrow> fastkv_ts" where
  "scan_slot orc min_ts i = (let ts = slots orc ! i in if ts \<noteq> 0 \<and> ts < min_ts then ts else min_ts)"

text \<open>The compare-and-swap of \<^verbatim>\<open>fastkv_oracle_advance\<close>, which may fail without a reason.\<close>

definition advance_cas :: "bool \<Rightarrow> ts_oracle \<Rightarrow> fastkv_ts \<Rightarrow> fastkv_ts \<Rightarrow> ts_oracle \<times> opc" where
  "advance_cas spurious orc cur at_least =
     (if clock orc = cur \<and> \<not> spurious then (orc\<lparr>clock := at_least\<rparr>, O_idle) else (orc, O_advance at_least))"

definition tick :: "ts_oracle \<Rightarrow> ts_oracle" where
  "tick orc = orc\<lparr>clock := clock orc + 1\<rparr>"

inductive ostep :: "ostate \<Rightarrow> nat \<Rightarrow> ts_oracle \<Rightarrow> opc \<Rightarrow> bool" where
  begin_clock: "o_pc s p = O_idle \<Longrightarrow> clock (o_oracle s) < FASTKV_TS_MAX \<Longrightarrow>
    ostep s p (tick (o_oracle s)) (O_claim (clock (o_oracle s)) 0)"
| begin_slot: "o_pc s p = O_claim ts i \<Longrightarrow> claim_slot (o_oracle s) ts i = (orc, pc) \<Longrightarrow> ostep s p orc pc"
| commit_ts: "o_pc s p = O_active ts sl \<Longrightarrow> clock (o_oracle s) < FASTKV_TS_MAX \<Longrightarrow> ostep s p (tick (o_oracle s)) (O_active ts sl)"
| release: "o_pc s p = O_active ts sl \<Longrightarrow>
    ostep s p (fastkv_oracle_release (o_oracle s) (case sl of None \<Rightarrow> -1 | Some i \<Rightarrow> int i)) O_idle"
| scan_clock: "o_pc s p = O_idle \<Longrightarrow>
    ostep s p (o_oracle s) (O_scan (clock (o_oracle s)) 0 (clock (o_oracle s)) (registered s))"
| scan_next: "o_pc s p = O_scan m i c old \<Longrightarrow> i < FASTKV_MAX_CONCURRENT_TXN \<Longrightarrow>
    ostep s p (o_oracle s) (O_scan (scan_slot (o_oracle s) m i) (i + 1) c old)"
| scan_end: "o_pc s p = O_scan m FASTKV_MAX_CONCURRENT_TXN c old \<Longrightarrow> ostep s p (o_oracle s) (O_min m c old)"
| collected: "o_pc s p = O_min m c old \<Longrightarrow> ostep s p (o_oracle s) O_idle"
| advance_call: "o_pc s p = O_idle \<Longrightarrow> at_least \<le> FASTKV_TS_MAX \<Longrightarrow> ostep s p (o_oracle s) (O_advance at_least)"
| advance_load: "o_pc s p = O_advance a \<Longrightarrow>
    ostep s p (o_oracle s) (if clock (o_oracle s) \<ge> a then O_idle else O_advance_cas (clock (o_oracle s)) a)"
| advance_store: "o_pc s p = O_advance_cas cur a \<Longrightarrow> advance_cas spurious (o_oracle s) cur a = (orc, pc) \<Longrightarrow> ostep s p orc pc"

inductive orun :: "ostate \<Rightarrow> bool" where
  start: "orun \<lparr>o_oracle = fastkv_oracle_init, o_pc = (\<lambda>_. O_idle)\<rparr>"
| step: "orun s \<Longrightarrow> ostep s p orc pc \<Longrightarrow> orun \<lparr>o_oracle = orc, o_pc = (o_pc s)(p := pc)\<rparr>"

section \<open>Invariant\<close>

fun pc_ts :: "opc \<Rightarrow> fastkv_ts option" where
  "pc_ts (O_claim ts i) = Some ts"
| "pc_ts (O_active ts sl) = Some ts"
| "pc_ts _ = None"

definition own_slot :: "fastkv_ts list \<Rightarrow> opc \<Rightarrow> bool" where
  "own_slot ss pc \<longleftrightarrow> (\<forall>ts i. pc = O_active ts (Some i) \<longrightarrow> i < length ss \<and> ss ! i = ts)"

text \<open>What a scan knows: its result is at most the clock it read, and covers the old transactions in the slots it has passed.\<close>

definition covers :: "(nat \<Rightarrow> opc) \<Rightarrow> nat \<Rightarrow> fastkv_ts \<Rightarrow> (nat \<times> fastkv_ts) set \<Rightarrow> bool" where
  "covers pcs n m old \<longleftrightarrow> (\<forall>(p, ts) \<in> old. (\<forall>i. pcs p \<noteq> O_claim ts i) \<and> (\<forall>i < n. pcs p = O_active ts (Some i) \<longrightarrow> m \<le> ts))"

fun scan_ok :: "fastkv_ts \<Rightarrow> (nat \<Rightarrow> opc) \<Rightarrow> opc \<Rightarrow> bool" where
  "scan_ok now pcs (O_scan m i c old) = (m \<le> c \<and> c \<le> now \<and> (\<forall>(p, ts) \<in> old. ts < c) \<and> covers pcs i m old)"
| "scan_ok now pcs (O_min m c old) = (m \<le> c \<and> c \<le> now \<and> (\<forall>(p, ts) \<in> old. ts < c) \<and> covers pcs FASTKV_MAX_CONCURRENT_TXN m old)"
| "scan_ok now pcs (O_advance_cas cur a) = (cur < a)"
| "scan_ok now pcs _ = True"

definition oinv :: "ostate \<Rightarrow> bool" where
  "oinv s \<longleftrightarrow> length (slots (o_oracle s)) = FASTKV_MAX_CONCURRENT_TXN \<and> 0 < clock (o_oracle s) \<and>
     (\<forall>p ts. pc_ts (o_pc s p) = Some ts \<longrightarrow> 0 < ts \<and> ts < clock (o_oracle s)) \<and>
     (\<forall>p q ts. pc_ts (o_pc s p) = Some ts \<and> pc_ts (o_pc s q) = Some ts \<longrightarrow> p = q) \<and>
     (\<forall>p. own_slot (slots (o_oracle s)) (o_pc s p)) \<and>
     (\<forall>p. scan_ok (clock (o_oracle s)) (o_pc s) (o_pc s p))"


text \<open>What a thread may do next as seen by a scan: it registers only a timestamp it was about to register.\<close>

definition moves :: "fastkv_ts \<Rightarrow> opc \<Rightarrow> opc \<Rightarrow> bool" where
  "moves now pc pc' \<longleftrightarrow>
     (\<forall>ts i. pc' = O_active ts (Some i) \<longrightarrow> pc = O_active ts (Some i) \<or> (\<exists>k. pc = O_claim ts k)) \<and>
     (\<forall>ts k. pc' = O_claim ts k \<longrightarrow> (\<exists>k'. pc = O_claim ts k') \<or> ts = now)"

lemma covers_upd:
  assumes "covers pcs n m old" "moves now (pcs p) pc" "\<forall>(q, ts) \<in> old. ts < now"
  shows "covers (pcs(p := pc)) n m old"
proof -
  have "(\<forall>i. (pcs(p := pc)) q \<noteq> O_claim ts i) \<and> (\<forall>i < n. (pcs(p := pc)) q = O_active ts (Some i) \<longrightarrow> m \<le> ts)"
    if "(q, ts) \<in> old" for q ts
  proof -
    have c: "\<forall>i. pcs q \<noteq> O_claim ts i" "\<forall>i < n. pcs q = O_active ts (Some i) \<longrightarrow> m \<le> ts" and l: "ts < now"
      using assms(1,3) that by (auto simp: covers_def)
    then show ?thesis using assms(2) by (cases "q = p") (auto simp: moves_def)
  qed
  then show ?thesis by (auto simp: covers_def)
qed

lemma scan_ok_upd:
  assumes "scan_ok now pcs sc" "moves now (pcs p) pc" "now \<le> now'"
  shows "scan_ok now' (pcs(p := pc)) sc"
proof (cases sc)
  case (O_scan m i c old)
  then have "\<forall>(q, ts) \<in> old. ts < now" using assms(1) by (auto intro: less_le_trans)
  then show ?thesis using assms O_scan covers_upd [of pcs i m old now p pc] by auto
next
  case (O_min m c old)
  then have "\<forall>(q, ts) \<in> old. ts < now" using assms(1) by (auto intro: less_le_trans)
  then show ?thesis using assms O_min covers_upd [of pcs FASTKV_MAX_CONCURRENT_TXN m old now p pc] by auto
qed (use assms(1) in simp_all)

text \<open>The effect of one step on the thread that takes it and on the slots of the others.\<close>

definition step_effect :: "ostate \<Rightarrow> nat \<Rightarrow> ts_oracle \<Rightarrow> opc \<Rightarrow> bool" where
  "step_effect s p orc pc \<longleftrightarrow> moves (clock (o_oracle s)) (o_pc s p) pc \<and> clock (o_oracle s) \<le> clock orc \<and>
     length (slots orc) = length (slots (o_oracle s)) \<and>
     (\<forall>ts. pc_ts pc = Some ts \<longrightarrow> pc_ts (o_pc s p) = Some ts \<or> (ts = clock (o_oracle s) \<and> ts < clock orc)) \<and>
     own_slot (slots orc) pc \<and> (\<forall>q. q \<noteq> p \<longrightarrow> own_slot (slots orc) (o_pc s q)) \<and>
     scan_ok (clock orc) ((o_pc s)(p := pc)) pc"

lemma effect_inv:
  assumes "oinv s" "step_effect s p orc pc"
  shows "oinv \<lparr>o_oracle = orc, o_pc = (o_pc s)(p := pc)\<rparr>"
proof -
  let ?pcs = "(o_pc s)(p := pc)" and ?c = "clock (o_oracle s)"
  have e: "moves ?c (o_pc s p) pc" "?c \<le> clock orc" "length (slots orc) = length (slots (o_oracle s))"
      "\<And>ts. pc_ts pc = Some ts \<Longrightarrow> pc_ts (o_pc s p) = Some ts \<or> (ts = ?c \<and> ts < clock orc)"
      "own_slot (slots orc) pc" "\<And>q. q \<noteq> p \<Longrightarrow> own_slot (slots orc) (o_pc s q)" "scan_ok (clock orc) ?pcs pc"
    using assms(2) by (simp_all add: step_effect_def)
  have i: "0 < ?c" "\<And>q ts. pc_ts (o_pc s q) = Some ts \<Longrightarrow> 0 < ts \<and> ts < ?c"
      "\<And>q r ts. pc_ts (o_pc s q) = Some ts \<Longrightarrow> pc_ts (o_pc s r) = Some ts \<Longrightarrow> q = r"
      "\<And>q. scan_ok ?c (o_pc s) (o_pc s q)"
    using assms(1) unfolding oinv_def by blast+
  have ts: "0 < ts \<and> ts < clock orc" if "pc_ts (?pcs q) = Some ts" for q ts
    using that i(1,2) e(2,4) by (cases "q = p") (auto intro: less_le_trans)
  have old: "pc_ts pc = Some ts \<Longrightarrow> q \<noteq> p \<Longrightarrow> pc_ts (o_pc s q) \<noteq> Some ts" for q ts
    using e(4) i(2,3) by (metis order_less_irrefl)
  have uniq: "q = r" if "pc_ts (?pcs q) = Some ts" "pc_ts (?pcs r) = Some ts" for q r ts
    using that old i(3) by (cases "q = p"; cases "r = p") auto
  have "scan_ok (clock orc) ?pcs (?pcs q)" for q
    using e(7) scan_ok_upd [OF i(4) e(1,2)] by simp
  moreover have "own_slot (slots orc) (?pcs q)" for q using e(5,6) by simp
  moreover have "length (slots orc) = FASTKV_MAX_CONCURRENT_TXN" "0 < clock orc"
    using assms(1) e(2,3) i(1) by (auto simp: oinv_def intro: less_le_trans)
  ultimately show ?thesis using ts uniq unfolding oinv_def ostate.simps by blast
qed


lemma own_slot_nth: "own_slot ss (O_active ts (Some i)) \<longleftrightarrow> i < length ss \<and> ss ! i = ts"
  by (simp add: own_slot_def)

lemma own_slot_update:
  "own_slot ss pc \<Longrightarrow> (\<And>ts. pc \<noteq> O_active ts (Some i)) \<Longrightarrow> own_slot (ss[i := t]) pc"
  unfolding own_slot_def by (metis length_list_update nth_list_update_neq)

lemma scan_slot_le: "scan_slot orc m i \<le> m" "slots orc ! i \<noteq> 0 \<Longrightarrow> scan_slot orc m i \<le> slots orc ! i"
  by (auto simp: scan_slot_def Let_def not_less order.strict_implies_order)

text \<open>A step that leaves the slots alone.\<close>

lemma quiet_effect:
  assumes "oinv s" "slots orc = slots (o_oracle s)" "clock (o_oracle s) \<le> clock orc"
    and "pc_ts pc = None \<or> pc = o_pc s p \<or> (\<exists>i. o_pc s p = O_idle \<and> pc = O_claim (clock (o_oracle s)) i \<and> clock (o_oracle s) < clock orc)"
    and "scan_ok (clock orc) ((o_pc s)(p := pc)) pc"
  shows "step_effect s p orc pc"
proof -
  have o: "own_slot (slots (o_oracle s)) (o_pc s q)" for q using assms(1) by (simp add: oinv_def)
  have "moves (clock (o_oracle s)) (o_pc s p) pc" using assms(4) by (auto simp: moves_def)
  moreover have "own_slot (slots (o_oracle s)) pc"
    using assms(4) o [of p] by (cases pc) (auto simp: own_slot_def)
  ultimately show ?thesis using assms(2-5) o by (auto simp: step_effect_def)
qed

lemma claim_effect:
  assumes "oinv s" "o_pc s p = O_claim ts i" "claim_slot (o_oracle s) ts i = (orc, pc)"
  shows "step_effect s p orc pc"
proof -
  let ?ss = "slots (o_oracle s)"
  have inv: "length ?ss = FASTKV_MAX_CONCURRENT_TXN" "own_slot ?ss (o_pc s q)" "pc_ts (o_pc s q) = Some u \<Longrightarrow> 0 < u" for q u
    using assms(1) unfolding oinv_def by blast+
  show ?thesis
  proof (cases "i < FASTKV_MAX_CONCURRENT_TXN \<and> ?ss ! i = 0")
    case True
    then have r: "orc = (o_oracle s)\<lparr>slots := ?ss[i := ts]\<rparr>" "pc = O_active ts (Some i)"
      using assms(3) by (auto simp: claim_slot_def)
    have "o_pc s q \<noteq> O_active u (Some i)" for q u
      using inv(2) [of q] inv(3) [of q u] True by (auto simp: own_slot_nth)
    then have "own_slot (?ss[i := ts]) (o_pc s q)" for q using own_slot_update [OF inv(2)] by blast
    then show ?thesis using r assms(2) True inv(1) by (simp add: step_effect_def moves_def own_slot_nth)
  next
    case False
    then have "orc = o_oracle s" "pc = O_claim ts (i + 1) \<or> pc = O_active ts None"
      using assms(3) by (auto simp: claim_slot_def split: if_splits)
    then show ?thesis using assms(2) inv(2) by (auto simp: step_effect_def moves_def own_slot_def)
  qed
qed

lemma release_effect:
  assumes "oinv s" "o_pc s p = O_active ts sl"
  shows "step_effect s p (fastkv_oracle_release (o_oracle s) (case sl of None \<Rightarrow> -1 | Some i \<Rightarrow> int i)) O_idle"
proof (cases sl)
  case None
  then show ?thesis using assms(1) by (intro quiet_effect) (simp_all add: fastkv_oracle_release_def)
next
  case (Some i)
  let ?ss = "slots (o_oracle s)"
  have inv: "length ?ss = FASTKV_MAX_CONCURRENT_TXN" "own_slot ?ss (o_pc s q)"
      "pc_ts (o_pc s q) = Some u \<Longrightarrow> pc_ts (o_pc s r) = Some u \<Longrightarrow> q = r" for q r u
    using assms(1) unfolding oinv_def by blast+
  have i: "i < FASTKV_MAX_CONCURRENT_TXN" "?ss ! i = ts" using inv(1) inv(2) [of p] assms(2) Some by (auto simp: own_slot_nth)
  have "o_pc s q \<noteq> O_active u (Some i)" if "q \<noteq> p" for q u
    using inv(2) [of q] inv(3) [of q u p] i(2) assms(2) that by (auto simp: own_slot_nth)
  then have "own_slot (?ss[i := 0]) (o_pc s q)" if "q \<noteq> p" for q using own_slot_update [OF inv(2)] that by blast
  then show ?thesis using i Some by (simp add: step_effect_def moves_def own_slot_def fastkv_oracle_release_def)
qed

text \<open>The scan itself.\<close>

lemma scan_start_ok:
  assumes "oinv s" "o_pc s p = O_idle"
  shows "scan_ok (clock (o_oracle s)) ((o_pc s)(p := pc)) (O_scan (clock (o_oracle s)) 0 (clock (o_oracle s)) (registered s))"
proof -
  have "ts < clock (o_oracle s) \<and> (\<forall>i. ((o_pc s)(p := pc)) q \<noteq> O_claim ts i)" if r: "(q, ts) \<in> registered s" for q ts
  proof -
    obtain i where a: "o_pc s q = O_active ts (Some i)" using r by (auto simp: registered_def)
    then have "q \<noteq> p" using assms(2) by auto
    moreover have "ts < clock (o_oracle s)" using assms(1) a unfolding oinv_def by (metis pc_ts.simps(2))
    ultimately show ?thesis using a by simp
  qed
  then show ?thesis by (auto simp: covers_def)
qed

lemma scan_next_ok:
  assumes "oinv s" "o_pc s p = O_scan m i c old" "i < FASTKV_MAX_CONCURRENT_TXN"
  shows "scan_ok (clock (o_oracle s)) ((o_pc s)(p := O_scan (scan_slot (o_oracle s) m i) (i + 1) c old))
    (O_scan (scan_slot (o_oracle s) m i) (i + 1) c old)"
proof -
  have inv: "own_slot (slots (o_oracle s)) (o_pc s q)" "pc_ts (o_pc s q) = Some u \<Longrightarrow> 0 < u"
      "scan_ok (clock (o_oracle s)) (o_pc s) (o_pc s p)" for q u
    using assms(1) unfolding oinv_def by blast+
  have ok: "m \<le> c" "c \<le> clock (o_oracle s)" "\<forall>(q, ts) \<in> old. ts < c" "covers (o_pc s) i m old"
    using inv(3) assms(2) by simp_all
  let ?m = "scan_slot (o_oracle s) m i"
  have "(\<forall>j. ((o_pc s)(p := O_scan ?m (i + 1) c old)) q \<noteq> O_claim ts j) \<and>
      (\<forall>j < i + 1. ((o_pc s)(p := O_scan ?m (i + 1) c old)) q = O_active ts (Some j) \<longrightarrow> ?m \<le> ts)"
    if "(q, ts) \<in> old" for q ts
  proof (cases "q = p")
    case False
    have c: "\<forall>j. o_pc s q \<noteq> O_claim ts j" "\<forall>j < i. o_pc s q = O_active ts (Some j) \<longrightarrow> m \<le> ts"
      using ok(4) that by (auto simp: covers_def)
    have "?m \<le> ts" if a: "o_pc s q = O_active ts (Some i)"
      using inv(1) [of q] inv(2) [of q ts] scan_slot_le(2) [of "o_oracle s" i m] by (auto simp: a own_slot_nth)
    with c show ?thesis using False scan_slot_le(1) [of "o_oracle s" m i] by (auto simp: less_Suc_eq intro: order_trans)
  qed simp
  then have "covers ((o_pc s)(p := O_scan ?m (i + 1) c old)) (i + 1) ?m old" by (auto simp: covers_def)
  then show ?thesis using ok scan_slot_le(1) [of "o_oracle s" m i] by (auto intro: order_trans)
qed

lemma ostep_effect: "ostep s p orc pc \<Longrightarrow> oinv s \<Longrightarrow> step_effect s p orc pc"
proof (induction rule: ostep.induct)
  case (begin_clock s p)
  then show ?case using clock_step [of "clock (o_oracle s)"]
    by (intro quiet_effect) (auto simp: tick_def)
next
  case (commit_ts s p ts sl)
  then show ?case using clock_step [of "clock (o_oracle s)"] by (intro quiet_effect) (auto simp: tick_def)
next
  case (scan_clock s p)
  then show ?case using scan_start_ok by (intro quiet_effect) auto
next
  case (scan_next s p m i c old)
  then show ?case using scan_next_ok by (intro quiet_effect) auto
next
  case (scan_end s p m c old)
  then have "scan_ok (clock (o_oracle s)) (o_pc s) (O_scan m FASTKV_MAX_CONCURRENT_TXN c old)" unfolding oinv_def by metis
  from scan_ok_upd [OF this, of p "O_min m c old"] show ?case
    using scan_end by (intro quiet_effect) (auto simp: moves_def)
next
  case (advance_store s p cur a spurious orc pc)
  moreover have "cur < a" using advance_store unfolding oinv_def by (metis scan_ok.simps(3))
  ultimately show ?case
    by (intro quiet_effect) (auto simp: advance_cas_def split: if_splits)
next
  case (begin_slot s p ts i orc pc)
  then show ?case by (intro claim_effect)
next
  case (release s p ts sl)
  then show ?case by (intro release_effect)
qed (intro quiet_effect; simp add: not_le)+


lemma orun_inv: "orun s \<Longrightarrow> oinv s"
proof (induction rule: orun.induct)
  case start
  then show ?case by (simp add: oinv_def fastkv_oracle_init_def own_slot_def)
next
  case (step s p orc pc)
  then show ?case using effect_inv ostep_effect by blast
qed

text \<open>Two open transactions, or transactions about to open, have different timestamps and different slots.\<close>

lemma oracle_exclusive:
  assumes "orun s" "p \<noteq> q" "pc_ts (o_pc s p) = Some a" "pc_ts (o_pc s q) = Some b"
  shows "a \<noteq> b \<and> (o_pc s p = O_active a (Some i) \<longrightarrow> o_pc s q \<noteq> O_active b (Some i))"
proof -
  have inv: "oinv s" by (rule orun_inv [OF assms(1)])
  then have "a \<noteq> b" using assms(2-4) unfolding oinv_def by blast
  moreover have "slots (o_oracle s) ! i = u" if "o_pc s r = O_active u (Some i)" for r u
    using inv that unfolding oinv_def by (metis own_slot_nth)
  ultimately show ?thesis by metis
qed

section \<open>Undisturbed calls\<close>

text \<open>
  A thread that runs a whole call without interruption has the effect of the function of \<open>Mvcc\<close>, so that the two
  models describe the same code.
\<close>

definition omove :: "ostate \<Rightarrow> ostate \<Rightarrow> bool" where
  "omove s s' \<longleftrightarrow> (\<exists>p orc pc. ostep s p orc pc \<and> s' = \<lparr>o_oracle = orc, o_pc = (o_pc s)(p := pc)\<rparr>)"

lemma omoveI:
  "ostep s p orc pc \<Longrightarrow> omove\<^sup>*\<^sup>* \<lparr>o_oracle = orc, o_pc = (o_pc s)(p := pc)\<rparr> s' \<Longrightarrow> omove\<^sup>*\<^sup>* s s'"
  by (rule converse_rtranclp_into_rtranclp [of omove]) (auto simp: omove_def)

definition at_pc :: "ts_oracle \<Rightarrow> (nat \<Rightarrow> opc) \<Rightarrow> nat \<Rightarrow> opc \<Rightarrow> ostate" where
  "at_pc orc pcs p pc = \<lparr>o_oracle = orc, o_pc = pcs(p := pc)\<rparr>"

lemma at_pc_move:
  "ostep (at_pc orc pcs p pc) p orc' pc' \<Longrightarrow> omove\<^sup>*\<^sup>* (at_pc orc' pcs p pc') s' \<Longrightarrow> omove\<^sup>*\<^sup>* (at_pc orc pcs p pc) s'"
  using omoveI [of "at_pc orc pcs p pc" p orc' pc' s'] by (simp add: at_pc_def fun_upd_upd)

lemma at_pc_simps [simp]: "o_oracle (at_pc orc pcs p pc) = orc" "o_pc (at_pc orc pcs p pc) p = pc"
  by (simp_all add: at_pc_def)

text \<open>The loop of a begin from slot \<open>i\<close> on, and the loop of the scan.\<close>

lemma claim_alone:
  assumes "length (slots orc) = FASTKV_MAX_CONCURRENT_TXN" "i \<le> FASTKV_MAX_CONCURRENT_TXN"
  shows "omove\<^sup>*\<^sup>* (at_pc orc pcs p (O_claim ts i))
    (case free_slot (drop i (slots orc)) i of
       Some k \<Rightarrow> at_pc (orc\<lparr>slots := (slots orc)[k := ts]\<rparr>) pcs p (O_active ts (Some k))
     | None \<Rightarrow> at_pc orc pcs p (O_active ts None))"
  using assms(2)
proof (induction "FASTKV_MAX_CONCURRENT_TXN - i" arbitrary: i)
  case 0
  then have i: "i = FASTKV_MAX_CONCURRENT_TXN" by simp
  have "ostep (at_pc orc pcs p (O_claim ts i)) p orc (O_active ts None)"
    by (rule begin_slot [where ts = ts and i = i]) (simp_all add: claim_slot_def i)
  from at_pc_move [OF this] show ?case using assms(1) i by simp
next
  case (Suc n)
  have i: "i < FASTKV_MAX_CONCURRENT_TXN" using Suc.hyps(2) by linarith
  then have d: "drop i (slots orc) = slots orc ! i # drop (i + 1) (slots orc)" using assms(1) by (simp add: Cons_nth_drop_Suc)
  obtain orc' pc where c: "claim_slot orc ts i = (orc', pc)" by force
  have "ostep (at_pc orc pcs p (O_claim ts i)) p orc' pc" by (rule begin_slot [where ts = ts and i = i]) (use c in simp_all)
  note move = at_pc_move [OF this]
  show ?case
  proof (cases "slots orc ! i = 0")
    case True
    then show ?thesis using move c i d by (auto simp: claim_slot_def)
  next
    case False
    have "n = FASTKV_MAX_CONCURRENT_TXN - (i + 1)" using Suc.hyps(2) by simp
    from Suc.hyps(1) [OF this] False move c i d show ?thesis by (auto simp: claim_slot_def)
  qed
qed

lemma scan_alone:
  assumes "length (slots orc) = FASTKV_MAX_CONCURRENT_TXN" "i \<le> FASTKV_MAX_CONCURRENT_TXN"
  shows "omove\<^sup>*\<^sup>* (at_pc orc pcs p (O_scan m i c old))
    (at_pc orc pcs p (O_min (foldl (\<lambda>m t. if t \<noteq> 0 \<and> t < m then t else m) m (drop i (slots orc))) c old))"
  using assms(2)
proof (induction "FASTKV_MAX_CONCURRENT_TXN - i" arbitrary: i m)
  case 0
  then have i: "i = FASTKV_MAX_CONCURRENT_TXN" by simp
  have "ostep (at_pc orc pcs p (O_scan m i c old)) p (o_oracle (at_pc orc pcs p (O_scan m i c old))) (O_min m c old)"
    by (rule scan_end) (simp add: i)
  from at_pc_move [OF this [unfolded at_pc_simps]] show ?case using assms(1) i by simp
next
  case (Suc n)
  let ?s = "at_pc orc pcs p (O_scan m i c old)"
  have i: "i < FASTKV_MAX_CONCURRENT_TXN" using Suc.hyps(2) by linarith
  then have d: "drop i (slots orc) = slots orc ! i # drop (i + 1) (slots orc)" using assms(1) by (simp add: Cons_nth_drop_Suc)
  have "ostep ?s p (o_oracle ?s) (O_scan (scan_slot (o_oracle ?s) m i) (i + 1) c old)" by (rule scan_next) (use i in simp_all)
  note move = at_pc_move [OF this [unfolded at_pc_simps]]
  have "n = FASTKV_MAX_CONCURRENT_TXN - (i + 1)" using Suc.hyps(2) by simp
  from Suc.hyps(1) [OF this, of "scan_slot orc m i"] i d move show ?case by (simp add: scan_slot_def Let_def)
qed

lemma begin_alone:
  assumes "length (slots (o_oracle s)) = FASTKV_MAX_CONCURRENT_TXN" "o_pc s p = O_idle" "clock (o_oracle s) < FASTKV_TS_MAX"
    and "fastkv_oracle_begin (o_oracle s) = (ts, slot, orc)"
  shows "omove\<^sup>*\<^sup>* s (at_pc orc (o_pc s) p (O_active ts (if slot = -1 then None else Some (nat slot))))"
proof (rule omoveI [OF begin_clock [OF assms(2,3)], folded at_pc_def])
  have "length (slots (tick (o_oracle s))) = FASTKV_MAX_CONCURRENT_TXN" using assms(1) by (simp add: tick_def)
  from claim_alone [OF this, of 0 "o_pc s" p "clock (o_oracle s)"] assms(4)
  show "omove\<^sup>*\<^sup>* (at_pc (tick (o_oracle s)) (o_pc s) p (O_claim (clock (o_oracle s)) 0))
      (at_pc orc (o_pc s) p (O_active ts (if slot = -1 then None else Some (nat slot))))"
    by (auto simp: fastkv_oracle_begin_def tick_def Let_def split: option.splits)
qed

lemma min_active_alone:
  assumes "length (slots (o_oracle s)) = FASTKV_MAX_CONCURRENT_TXN" "o_pc s p = O_idle"
  shows "omove\<^sup>*\<^sup>* s (at_pc (o_oracle s) (o_pc s) p
    (O_min (fastkv_oracle_min_active (o_oracle s)) (clock (o_oracle s)) (registered s)))"
  using omoveI [OF scan_clock [OF assms(2)], folded at_pc_def] scan_alone [OF assms(1), of 0 "o_pc s" p]
  unfolding fastkv_oracle_min_active_def by simp

section \<open>Building runs\<close>

lemma orun_step:
  "orun s \<Longrightarrow> ostep s p orc pc \<Longrightarrow> s' = \<lparr>o_oracle = orc, o_pc = (o_pc s)(p := pc)\<rparr> \<Longrightarrow> orun s'"
  by (simp add: orun.step)

abbreviation no_slots :: "fastkv_ts list" where
  "no_slots \<equiv> replicate FASTKV_MAX_CONCURRENT_TXN 0"

lemma no_slots_nth [simp]: "i < FASTKV_MAX_CONCURRENT_TXN \<Longrightarrow> no_slots ! i = 0" "0 < FASTKV_MAX_CONCURRENT_TXN"
  by (simp_all add: FASTKV_MAX_CONCURRENT_TXN_def)

text \<open>A whole transaction of thread \<open>p\<close> that begins at \<open>c\<close> and commits at \<open>c + 1\<close>.\<close>

lemma orun_txn:
  assumes "orun \<lparr>o_oracle = \<lparr>clock = c, slots = no_slots\<rparr>, o_pc = pcs\<rparr>" "pcs p = O_idle" "c < FASTKV_TS_MAX" "c + 1 < FASTKV_TS_MAX"
  shows "orun \<lparr>o_oracle = \<lparr>clock = c + 1 + 1, slots = no_slots\<rparr>, o_pc = pcs\<rparr>"
proof -
  let ?s = "\<lambda>c ss pc. \<lparr>o_oracle = \<lparr>clock = c, slots = ss\<rparr>, o_pc = pcs(p := pc)\<rparr>"
  have 0: "orun (?s c no_slots O_idle)" using assms(1,2) by (metis fun_upd_triv)
  have 1: "orun (?s (c + 1) no_slots (O_claim c 0))"
    by (rule orun_step [OF 0 begin_clock [where p = p]]) (use assms(3) in \<open>simp_all add: tick_def\<close>)
  have 2: "orun (?s (c + 1) (no_slots[0 := c]) (O_active c (Some 0)))"
    by (rule orun_step [OF 1 begin_slot [where p = p and ts = c and i = 0]]) (simp_all add: claim_slot_def)
  have 3: "orun (?s (c + 1 + 1) (no_slots[0 := c]) (O_active c (Some 0)))"
    by (rule orun_step [OF 2 commit_ts [where p = p and ts = c and sl = "Some 0"]]) (use assms(4) in \<open>simp_all add: tick_def\<close>)
  have "orun (?s (c + 1 + 1) (no_slots[0 := c, 0 := 0]) O_idle)"
    by (rule orun_step [OF 3 release [where p = p and ts = c and sl = "Some 0"]]) (simp_all add: fastkv_oracle_release_def)
  moreover have "no_slots[0 := c, 0 := 0] = no_slots" by (metis list_update_id list_update_overwrite no_slots_nth)
  ultimately show ?thesis using assms(2) by (metis fun_upd_triv)
qed

text \<open>A whole scan of empty slots.\<close>

lemma orun_scan:
  assumes "orun \<lparr>o_oracle = \<lparr>clock = c, slots = no_slots\<rparr>, o_pc = pcs\<rparr>" "pcs g = O_idle"
  shows "\<exists>old. orun \<lparr>o_oracle = \<lparr>clock = c, slots = no_slots\<rparr>, o_pc = pcs(g := O_min c c old)\<rparr>"
proof -
  let ?s = "\<lambda>pc. \<lparr>o_oracle = \<lparr>clock = c, slots = no_slots\<rparr>, o_pc = pcs(g := pc)\<rparr>"
  have s0: "orun (?s O_idle)" using assms by (metis fun_upd_triv)
  define old where "old = registered (?s O_idle)"
  have "orun (?s (O_scan c 0 c old))"
    by (rule orun_step [OF s0 scan_clock [where p = g]]) (simp_all add: old_def)
  then have "n \<le> FASTKV_MAX_CONCURRENT_TXN \<Longrightarrow> orun (?s (O_scan c n c old))" for n
  proof (induction n)
    case (Suc n)
    have "orun (?s (O_scan c n c old))" by (rule Suc.IH) (use Suc.prems in simp_all)
    then show ?case by (rule orun_step [OF _ scan_next [where p = g and m = c and i = n and c = c and old = old]]) (use Suc.prems in \<open>auto simp: scan_slot_def fun_eq_iff\<close>)
  qed simp
  then have "orun (?s (O_scan c FASTKV_MAX_CONCURRENT_TXN c old))" by simp
  then have "orun (?s (O_min c c old))" by (rule orun_step [OF _ scan_end [where p = g and m = c and c = c and old = old]]) simp_all
  then show ?thesis by blast
qed

section \<open>Statements\<close>

text \<open>
  Property C25: in every interleaving of the threads, the bound that \<^verbatim>\<open>fastkv_oracle_min_active\<close> returns to the garbage
  collector is at most the begin timestamp of every transaction that had its slot when the scan read the clock and
  still has it, and of every transaction that took its timestamp after that.
\<close>

theorem oracle_bound_covers_registered:
  assumes "orun s" "o_pc s g = O_min m c old" "o_pc s p = O_active ts (Some i)" "(p, ts) \<in> old \<or> c \<le> ts"
  shows "m \<le> ts"
proof -
  have "oinv s" by (rule orun_inv [OF assms(1)])
  then have "scan_ok (clock (o_oracle s)) (o_pc s) (O_min m c old)" "i < FASTKV_MAX_CONCURRENT_TXN"
    using assms(2,3) unfolding oinv_def by (metis, metis own_slot_nth)
  then show ?thesis using assms(3,4) by (auto simp: covers_def)
qed


text \<open>A transaction that registers before a scan of the first slot, in one run.\<close>

definition late_pcs :: "nat \<Rightarrow> opc" where
  "late_pcs = (\<lambda>_. O_idle)(0 := O_claim 3 0)"

lemma late_run: "orun \<lparr>o_oracle = \<lparr>clock = 6, slots = no_slots\<rparr>, o_pc = late_pcs\<rparr>"
proof -
  let ?s = "\<lambda>c pcs. \<lparr>o_oracle = \<lparr>clock = c, slots = no_slots\<rparr>, o_pc = pcs\<rparr>"
  have "orun (?s 1 (\<lambda>_. O_idle))" using orun.start by (simp add: fastkv_oracle_init_def)
  then have "orun (?s (1 + 1 + 1) (\<lambda>_. O_idle))" by (rule orun_txn [where p = 1]) (simp_all add: FASTKV_TS_MAX_def)
  then have "orun (?s 3 (\<lambda>_. O_idle))" by simp
  then have "orun (?s 4 late_pcs)"
    by (rule orun_step [OF _ begin_clock [where p = 0]]) (simp_all add: tick_def late_pcs_def FASTKV_TS_MAX_def)
  then have "orun (?s (4 + 1 + 1) late_pcs)" by (rule orun_txn [where p = 1]) (simp_all add: late_pcs_def FASTKV_TS_MAX_def)
  then show ?thesis by simp
qed

lemma late_scan:
  "\<exists>old. orun \<lparr>o_oracle = \<lparr>clock = 6, slots = no_slots[0 := 3]\<rparr>, o_pc = late_pcs(2 := O_min 6 6 old, 0 := O_active 3 (Some 0))\<rparr>"
proof -
  obtain old where "orun \<lparr>o_oracle = \<lparr>clock = 6, slots = no_slots\<rparr>, o_pc = late_pcs(2 := O_min 6 6 old)\<rparr>"
    using orun_scan [OF late_run, of 2] by (auto simp: late_pcs_def)
  then have "orun \<lparr>o_oracle = \<lparr>clock = 6, slots = no_slots[0 := 3]\<rparr>, o_pc = late_pcs(2 := O_min 6 6 old, 0 := O_active 3 (Some 0))\<rparr>"
    by (rule orun_step [OF _ begin_slot [where p = 0 and ts = 3 and i = 0]]) (simp_all add: late_pcs_def claim_slot_def)
  then show ?thesis by blast
qed

text \<open>After that scan thread 1 begins a transaction at 6; it is covered.\<close>

lemma late_begin:
  "\<exists>old. orun \<lparr>o_oracle = \<lparr>clock = 7, slots = no_slots[0 := 3, 1 := 6]\<rparr>,
     o_pc = late_pcs(2 := O_min 6 6 old, 0 := O_active 3 (Some 0), 1 := O_active 6 (Some 1))\<rparr>"
proof -
  let ?s = "\<lambda>old c ss pc. \<lparr>o_oracle = \<lparr>clock = c, slots = ss\<rparr>,
     o_pc = late_pcs(2 := O_min 6 6 old, 0 := O_active 3 (Some 0), 1 := pc)\<rparr>"
  have lt: "1 < FASTKV_MAX_CONCURRENT_TXN" by (simp add: FASTKV_MAX_CONCURRENT_TXN_def)
  obtain old where "orun (?s old 6 (no_slots[0 := 3]) O_idle)" using late_scan by (auto simp: late_pcs_def fun_upd_idem)
  then have "orun (?s old 7 (no_slots[0 := 3]) (O_claim 6 0))"
    by (rule orun_step [OF _ begin_clock [where p = 1]]) (simp_all add: tick_def FASTKV_TS_MAX_def)
  then have "orun (?s old 7 (no_slots[0 := 3]) (O_claim 6 1))"
    by (rule orun_step [OF _ begin_slot [where p = 1 and ts = 6 and i = 0]]) (simp_all add: claim_slot_def)
  then have "orun (?s old 7 (no_slots[0 := 3, 1 := 6]) (O_active 6 (Some 1)))"
    by (rule orun_step [OF _ begin_slot [where p = 1 and ts = 6 and i = 1]]) (use lt in \<open>simp_all add: claim_slot_def\<close>)
  then show ?thesis by blast
qed

theorem oracle_bound_covers_registered_witness:
  "\<exists>s m c old ts i. orun s \<and> o_pc s 2 = O_min m c old \<and> o_pc s 1 = O_active ts (Some i) \<and> ts = 6 \<and> m \<le> ts"
proof -
  obtain old where r: "orun \<lparr>o_oracle = \<lparr>clock = 7, slots = no_slots[0 := 3, 1 := 6]\<rparr>,
     o_pc = late_pcs(2 := O_min 6 6 old, 0 := O_active 3 (Some 0), 1 := O_active 6 (Some 1))\<rparr>" (is "orun ?s")
    using late_begin by blast
  have "o_pc ?s 2 = O_min 6 6 old" "o_pc ?s 1 = O_active 6 (Some 1)" by simp_all
  with oracle_bound_covers_registered [OF r this] r show ?thesis by blast
qed

text \<open>
  Property C24: a transaction can lose its snapshot.  Thread 0 has taken its begin timestamp 3 but not yet its slot when
  thread 1 commits a new value for a key at 5 and thread 2 computes the bound of a collection, 6.  Thread 0 then gets its
  slot and runs as a transaction at 3; in the table with the versions committed at 2 and 5 it would read the first
  value, but after the collection with that bound it reads nothing.
\<close>

theorem late_registration_loses_snapshot:
  "\<exists>s old. orun s \<and> o_pc s 0 = O_active 3 (Some 0) \<and> o_pc s 2 = O_min 6 6 old \<and>
     (let h = \<lparr>buckets = [[]], capacity = 1, num_keys = 0, num_versions = 0\<rparr>;
          h = snd (fastkv_ht_put mem_ok h 2 [7] (Some [1]));
          h = snd (fastkv_ht_put mem_ok h 5 [7] (Some [2]))
      in fastkv_ht_get h 3 [7] = Inr [1] \<and> fastkv_ht_get (snd (fastkv_ht_gc h 6)) 3 [7] = Inl FASTKV_ERR_NOTFOUND)"
proof -
  obtain old where r: "orun \<lparr>o_oracle = \<lparr>clock = 6, slots = no_slots[0 := 3]\<rparr>,
     o_pc = late_pcs(2 := O_min 6 6 old, 0 := O_active 3 (Some 0))\<rparr>"
    using late_scan by blast
  have "let h = \<lparr>buckets = [[]], capacity = 1, num_keys = 0, num_versions = 0\<rparr>;
          h = snd (fastkv_ht_put mem_ok h 2 [7] (Some [1]));
          h = snd (fastkv_ht_put mem_ok h 5 [7] (Some [2]))
      in fastkv_ht_get h 3 [7] = Inr [1] \<and> fastkv_ht_get (snd (fastkv_ht_gc h 6)) 3 [7] = Inl FASTKV_ERR_NOTFOUND"
    by (simp add: fastkv_ht_put_def ht_insert_version_def mem_ok_def bucket_idx_def fastkv_ht_get_def fastkv_ht_gc_def
        FASTKV_TS_MAX_def Let_def)
  with r show ?thesis by (intro exI conjI) (assumption, simp_all)
qed

end
