(* ===== verification/Btree_Mem.thy ===== *)
theory Btree_Mem
  imports Btree
begin

text \<open>
  Insertion into the B+ tree (\<open>index/btree/btree.c\<close>) when memory runs out.  \<open>mem n\<close> says whether the \<open>n\<close>-th allocation of
  the call succeeds; the counter is passed along.  The code checks none of its copies of keys, values and separators, and
  leaves an insertion when a node cannot be allocated.

  Shown here: with enough memory these definitions are those of \<open>Btree\<close>; without it, insertions that return
  \<^verbatim>\<open>FASTKV_OK\<close> lose the entry, store it under the empty key, or cut off half of a subtree.
\<close>

section \<open>Model\<close>

type_synonym allocs = "nat \<Rightarrow> bool"

text \<open>\<^verbatim>\<open>sdup\<close>: no allocation for an empty slice, \<^verbatim>\<open>FASTKV_SLICE_NULL\<close> when it fails.\<close>

definition sdup :: "allocs \<Rightarrow> nat \<Rightarrow> slice \<Rightarrow> slice \<times> nat" where
  "sdup mem n s = (if slice_len s = 0 then (None, n) else (if mem n then s else None, n + 1))"

text \<open>Copies of keys are kept as byte strings; the NULL slice has length 0.\<close>

definition sdup_key :: "allocs \<Rightarrow> nat \<Rightarrow> bytes \<Rightarrow> bytes \<times> nat" where
  "sdup_key mem n k = (case sdup mem n (Some k) of (s, n') \<Rightarrow> (slice_bytes s, n'))"

definition leaf_insert_mem ::
  "allocs \<Rightarrow> nat \<Rightarrow> links \<Rightarrow> addr \<Rightarrow> entry list \<Rightarrow> bytes \<Rightarrow> slice \<Rightarrow> bnode \<times> links \<times> split \<times> nat" where
  "leaf_insert_mem mem n L a es key val =
     (let i = leaf_lower es key
      in if i < length es \<and> cmp (fst (es ! i)) key = 0
         then (case sdup mem n val of (v, n1) \<Rightarrow> (Lnode a (es[i := (fst (es ! i), v)]), L, None, n1))
         else
           (case sdup_key mem n key of
              (k, n1) \<Rightarrow>
                (case sdup mem n1 val of
                   (v, n2) \<Rightarrow>
                     let t = take i es @ (k, v) # drop i es
                     in if length es < LEAF_MAX then (Lnode a t, L, None, n2)
                        else if \<not> mem n2 then (Lnode a es, L, None, n2 + 1)
                        else
                          let left_n = length t div 2;
                              r = brk L;
                              right = drop left_n t
                          in (case sdup_key mem (n2 + 1) (fst (right ! 0)) of
                                (sep, n3) \<Rightarrow>
                                  (Lnode a (take left_n t), link_after a r (L\<lparr>brk := r + 1\<rparr>),
                                   Some (sep, Lnode r right), n3)))))"

text \<open>The second half of \<^verbatim>\<open>intr_insert\<close>; without a node for the split the parent stays as it was.\<close>

fun intr_absorb_mem :: "allocs \<Rightarrow> nat \<Rightarrow> bytes list \<Rightarrow> bnode list \<Rightarrow> nat \<Rightarrow> bnode \<Rightarrow> split \<Rightarrow> bnode \<times> split \<times> nat" where
  "intr_absorb_mem mem n ks cs ci c None = (Inode ks (cs[ci := c]), None, n)"
| "intr_absorb_mem mem n ks cs ci c (Some (sep, right)) =
     (let tk = take ci ks @ sep # drop ci ks;
          tc = take ci cs @ c # right # drop (ci + 1) cs
      in if length ks < INTR_MAX then (Inode tk tc, None, n)
         else if \<not> mem n then (Inode ks (cs[ci := c]), None, n + 1)
         else
           let mid = length ks div 2
           in (Inode (take mid tk) (take (mid + 1) tc),
               Some (tk ! mid, Inode (drop (mid + 1) tk) (drop (mid + 1) tc)), n + 1))"

function (sequential) node_insert_mem ::
  "allocs \<Rightarrow> nat \<Rightarrow> bnode \<Rightarrow> links \<Rightarrow> bytes \<Rightarrow> slice \<Rightarrow> bnode \<times> links \<times> split \<times> nat" where
  "node_insert_mem mem n (Lnode a es) L key val = leaf_insert_mem mem n L a es key val"
| "node_insert_mem mem n (Inode ks cs) L key val =
     (let ci = intr_child_idx ks key
      in if ci < length cs
         then case node_insert_mem mem n (cs ! ci) L key val of
                (c, L', s, n1) \<Rightarrow> (case intr_absorb_mem mem n1 ks cs ci c s of (p, s', n2) \<Rightarrow> (p, L', s', n2))
         else (Inode ks cs, L, None, n))"
  by pat_completeness auto
termination
  by (relation "measure (\<lambda>(mem, n, t, L, key, val). size t)") (auto simp: termination_simp)


text \<open>A new root that cannot be allocated: the old root, by now the left half, stays the root.\<close>

definition btree_insert_mem :: "allocs \<Rightarrow> btree \<Rightarrow> slice \<Rightarrow> slice \<Rightarrow> fastkv_err \<times> btree" where
  "btree_insert_mem mem t key val =
     (case node_insert_mem mem 0 (root t) (chain t) (slice_bytes key) val of
        (rt, L, None, n) \<Rightarrow> (FASTKV_OK, t\<lparr>root := rt, chain := L\<rparr>)
      | (rt, L, Some (sep, right), n) \<Rightarrow>
          if \<not> mem n then (FASTKV_ERR_NOMEM, t\<lparr>root := rt, chain := L\<rparr>)
          else (FASTKV_OK, t\<lparr>root := Inode [sep] [rt, right], chain := L\<rparr>))"

section \<open>With enough memory\<close>

lemma sdup_all:
  assumes "\<forall>n. mem n"
  shows "sdup mem n s = (slice_dup s, if slice_len s = 0 then n else n + 1)"
    and "sdup_key mem n k = (k, if k = [] then n else n + 1)"
proof -
  show *: "sdup mem n s = (slice_dup s, if slice_len s = 0 then n else n + 1)" for s
    using assms by (cases s rule: slice_dup.cases) (simp_all add: sdup_def)
  show "sdup_key mem n k = (k, if k = [] then n else n + 1)"
    by (cases k) (simp_all add: sdup_key_def *)
qed

lemma leaf_insert_mem_all:
  "\<forall>n. mem n \<Longrightarrow> \<exists>n'. leaf_insert_mem mem n L a es key val = (case leaf_insert L a es key val of (t, L', s) \<Rightarrow> (t, L', s, n'))"
  by (simp add: leaf_insert_mem_def leaf_insert_def sdup_all Let_def del: drop_append take_append length_append nth_drop)

lemma intr_absorb_mem_all:
  "\<forall>n. mem n \<Longrightarrow> \<exists>n'. intr_absorb_mem mem n ks cs ci c s = (case intr_absorb ks cs ci c s of (p, s') \<Rightarrow> (p, s', n'))"
  by (cases "(ks, cs, ci, c, s)" rule: intr_absorb.cases) (auto simp: Let_def)

lemma node_insert_mem_all:
  assumes "\<forall>n. mem n"
  shows "\<exists>n'. node_insert_mem mem n t L key val = (case node_insert t L key val of (t', L', s) \<Rightarrow> (t', L', s, n'))"
proof (induction t L key val rule: node_insert.induct)
  case (1 a es L key val)
  then show ?case using leaf_insert_mem_all [OF assms] by simp
next
  case (2 ks cs L key val)
  show ?case
  proof (cases "intr_child_idx ks key < length cs")
    case True
    obtain c L' s where c: "node_insert (cs ! intr_child_idx ks key) L key val = (c, L', s)" by (metis prod_cases3)
    obtain n1 where "node_insert_mem mem n (cs ! intr_child_idx ks key) L key val = (c, L', s, n1)"
      using "2.IH" [OF refl True] c by auto
    moreover obtain n2 where "intr_absorb_mem mem n1 ks cs (intr_child_idx ks key) c s =
        (case intr_absorb ks cs (intr_child_idx ks key) c s of (p, s') \<Rightarrow> (p, s', n2))"
      using intr_absorb_mem_all [OF assms] by blast
    ultimately show ?thesis using True c by (auto split: prod.splits)
  qed simp
qed

text \<open>The insertion of \<open>Btree\<close> is the one whose allocations all succeed.\<close>

lemma btree_insert_mem_all:
  assumes "\<forall>n. mem n"
  shows "btree_insert_mem mem t key val = (FASTKV_OK, fastkv_btree_insert t key val)"
proof -
  obtain rt L s where i: "node_insert (root t) (chain t) (slice_bytes key) val = (rt, L, s)" by (metis prod_cases3)
  then obtain n where "node_insert_mem mem 0 (root t) (chain t) (slice_bytes key) val = (rt, L, s, n)"
    using node_insert_mem_all [OF assms, of 0 "root t" "chain t" "slice_bytes key" val] by auto
  with i assms show ?thesis by (simp add: btree_insert_mem_def fastkv_btree_insert_def split: option.split)
qed

section \<open>Without memory\<close>

text \<open>A full leaf that cannot be split drops the entry; the caller is told that all went well.\<close>

lemma full_leaf_drops_entry:
  assumes "root t = Lnode a es" "length es = LEAF_MAX" "key \<notin> fst ` set es" "\<forall>n. \<not> mem n"
  shows "btree_insert_mem mem t (Some key) val = (FASTKV_OK, t)"
proof -
  let ?i = "leaf_lower es key"
  have "\<not> (?i < length es \<and> cmp (fst (es ! ?i)) key = 0)" using assms(3) by (metis cmp_eq_0 imageI nth_mem)
  then show ?thesis
    using assms by (auto simp: btree_insert_mem_def leaf_insert_mem_def Let_def split: prod.splits)
qed

text \<open>Without memory for the copy of the key the entry is stored under the empty key, wherever it falls.\<close>

lemma key_copy_lost:
  assumes "root t = Lnode a es" "length es < LEAF_MAX" "key \<notin> fst ` set es" "\<forall>n. \<not> mem n"
  shows "btree_insert_mem mem t (Some key) val =
    (FASTKV_OK, t\<lparr>root := Lnode a (take (leaf_lower es key) es @ ([], None) # drop (leaf_lower es key) es)\<rparr>)"
proof -
  let ?i = "leaf_lower es key"
  have "\<not> (?i < length es \<and> cmp (fst (es ! ?i)) key = 0)" using assms(3) by (metis cmp_eq_0 imageI nth_mem)
  then show ?thesis
    using assms by (auto simp: btree_insert_mem_def leaf_insert_mem_def sdup_key_def sdup_def Let_def split: prod.splits)
qed


text \<open>
  A full root that has been split, but no memory for the new root: the error is reported, but the tree keeps the left
  half only, and half of the entries that were there before the call can no longer be found.
\<close>

lemma root_oom_loses_half:
  assumes "root t = Lnode a es" "length es = LEAF_MAX" "ascending es" "key \<notin> fst ` set es" "key \<noteq> []" "0 < slice_len val"
    and mem: "mem = (\<lambda>n. n \<noteq> 4)"
  shows "fst (btree_insert_mem mem t (Some key) val) = FASTKV_ERR_NOMEM"
    and "bt_entries (snd (btree_insert_mem mem t (Some key) val)) = take 16 (al_put key val es)"
proof -
  let ?i = "leaf_lower es key" and ?t = "al_put key val es"
  have ab: "\<not> (?i < length es \<and> cmp (fst (es ! ?i)) key = 0)" using assms(4) by (metis cmp_eq_0 imageI nth_mem)
  note t = leaf_insert_list [OF assms(3) ab, of val]
  have l: "length ?t = 33" using t(2) assms(2) by simp
  have "ascending ?t" by (rule ascending_al_put [OF assms(3)])
  then have "fst (?t ! 0) < fst (?t ! 16)" using l by (auto simp: ascending_def sorted_wrt_iff_nth_less)
  then have sep: "fst (drop 16 ?t ! 0) \<noteq> []" using l by auto
  have "leaf_insert_mem mem 0 (chain t) a es key val =
      (Lnode a (take 16 ?t), link_after a (brk (chain t)) ((chain t)\<lparr>brk := brk (chain t) + 1\<rparr>),
       Some (fst (drop 16 ?t ! 0), Lnode (brk (chain t)) (drop 16 ?t)), 4)"
    using ab assms(2,5,6) sep l unfolding leaf_insert_mem_def Let_def mem
    by (simp add: sdup_key_def sdup_def t(1) del: nth_drop)
  then show "fst (btree_insert_mem mem t (Some key) val) = FASTKV_ERR_NOMEM"
    "bt_entries (snd (btree_insert_mem mem t (Some key) val)) = take 16 ?t"
    using assms(1) by (simp_all add: btree_insert_mem_def bt_entries_def mem)
qed

end
