(* ===== verification/Platform.thy ===== *)
theory Platform
  imports Uuid7
begin

text \<open>
  The edge of the program towards the operating system: the clock (\<open>util/uuid7/clock.c\<close>), the entropy that seeds the
  generator of names (\<open>util/uuid7/prng.c\<close>), the calls of \<open>util/uuid7/uuid7.c\<close> that use them, the table of allocation
  functions (\<open>mem/allocator.c\<close>) and the filter of log messages (\<open>util/log.c\<close>, \<open>util/log_public.c\<close>).  What a system
  call returns is an argument; a loop over system calls runs over the list of their results and is \<^term>\<open>None\<close> while
  it still waits.

  Shown here: the Unix and the Windows clock count the same milliseconds; the wait for a new millisecond ends with the first reading
  that differs; the entropy loop delivers exactly the bytes asked for however the system cuts them up, and
  interruptions do not change them; the generator never falls into the state zero, in which it would stand still;
  one table of allocation functions is safe as long as all three belong together, which \<^verbatim>\<open>fastkv_open\<close> does not ensure.
\<close>

section \<open>Clock\<close>

record timespec =
  tv_sec :: u64
  tv_nsec :: u64

text \<open>\<^verbatim>\<open>os_time_ms\<close> on Unix: \<open>gettime\<close> is what \<^verbatim>\<open>clock_gettime\<close> stores, \<open>seconds\<close> what \<^verbatim>\<open>time\<close> returns.\<close>

definition os_time_ms :: "timespec option \<Rightarrow> u64 \<Rightarrow> u64" where
  "os_time_ms gettime seconds =
     (case gettime of
        None \<Rightarrow> seconds * 1000
      | Some ts \<Rightarrow> tv_sec ts * 1000 + tv_nsec ts div 1000000)"

text \<open>On Windows: ticks of 100 nanoseconds since 1601.\<close>

definition EPOCH_OFFSET :: u64 where
  "EPOCH_OFFSET = 116444736000000000"

definition os_time_ms_win :: "u32 \<Rightarrow> u32 \<Rightarrow> u64" where
  "os_time_ms_win high low = (let ticks = push_bit 32 (ucast high) OR ucast low in (ticks - EPOCH_OFFSET) div 10000)"

text \<open>The wait for a new millisecond in \<^verbatim>\<open>uuid7_generate_ex\<close>: successive readings of the clock.\<close>

fun fresh_reading :: "u64 \<Rightarrow> u64 list \<Rightarrow> u64 option" where
  "fresh_reading prev [] = None"
| "fresh_reading prev (now # rs) = (if now = prev then fresh_reading prev rs else Some now)"

section \<open>Entropy\<close>

datatype getrandom = Got bytes | Interrupted | Failed

text \<open>
  The loop around \<^verbatim>\<open>getrandom\<close>: \<open>done\<close> are the bytes stored so far.  The outer option is \<^term>\<open>None\<close> while the loop waits, the
  inner one when it gives up with \<open>-1\<close>.
\<close>

fun get_entropy :: "getrandom list \<Rightarrow> nat \<Rightarrow> bytes \<Rightarrow> bytes option option" where
  "get_entropy rs len done =
     (if length done < len
      then (case rs of
              [] \<Rightarrow> None
            | Interrupted # rs' \<Rightarrow> get_entropy rs' len done
            | Failed # rs' \<Rightarrow> Some None
            | Got bs # rs' \<Rightarrow> get_entropy rs' len (done @ bs))
      else Some (Some done))"

declare get_entropy.simps [simp del]

text \<open>The variant that reads \<^verbatim>\<open>/dev/urandom\<close>; \<open>file\<close> are the bytes it delivers, \<^term>\<open>None\<close> if it cannot be opened.\<close>

definition get_entropy_file :: "bytes option \<Rightarrow> nat \<Rightarrow> bytes option" where
  "get_entropy_file file len =
     (case file of
        None \<Rightarrow> None
      | Some data \<Rightarrow> let buf = take len data in if length buf = len then Some buf else None)"

section \<open>Generators of names\<close>

definition seed_words :: "bytes \<Rightarrow> u64 \<times> u64 \<times> u64 \<times> u64" where
  "seed_words bs =
     (le_dec (take 8 bs), le_dec (take 8 (drop 8 bs)), le_dec (take 8 (drop 16 bs)), le_dec (take 8 (drop 24 bs)))"

text \<open>\<^verbatim>\<open>uuid7_create\<close>: \<open>entropy\<close> are the 32 bytes of \<^verbatim>\<open>get_entropy\<close>, \<open>mem\<close> says whether \<^verbatim>\<open>malloc\<close> succeeds.\<close>

definition uuid7_create :: "bool \<Rightarrow> bytes option \<Rightarrow> u64 \<Rightarrow> u64 \<Rightarrow> u64 \<Rightarrow> u64 \<Rightarrow> u64 \<Rightarrow> uuid7_ctx option" where
  "uuid7_create mem entropy t cycles prng_addr arg_addr now =
     (if mem
      then Some (uuid7_init (prng_seed (map_option seed_words entropy) t cycles prng_addr arg_addr) now)
      else None)"

text \<open>
  \<^verbatim>\<open>uuid7_generate\<close> with a list of clock readings: the first one is the time of the call, the rest is for the
  wait when the counter overflows.  A NULL context leaves the buffer alone.
\<close>

definition counter_overflows :: "uuid7_ctx \<Rightarrow> u64 \<Rightarrow> bool" where
  "counter_overflows ctx now \<longleftrightarrow>
     (let delta = sint (now - last_timestamp_ms ctx)
      in \<not> delta > 0 \<and> (delta = 0 \<or> - delta \<le> uint UUID7_CLOCK_BACKWARD_THRESHOLD_MS)
         \<and> (counter_low ctx + 1) AND 0x00FFFFFFFFFFFFFF = 0 \<and> counter_high ctx + 1 = 0x4000)"

fun uuid7_generate :: "uuid7_ctx option \<Rightarrow> bytes \<Rightarrow> u64 list \<Rightarrow> (bytes \<times> uuid7_ctx option) option" where
  "uuid7_generate None out readings = Some (out, None)"
| "uuid7_generate (Some ctx) out [] = None"
| "uuid7_generate (Some ctx) out (now # readings) =
     (if counter_overflows ctx now
      then (case fresh_reading (last_timestamp_ms ctx) readings of
              None \<Rightarrow> None
            | Some fresh \<Rightarrow> (case uuid7_generate_ex ctx now fresh of (bs, ctx') \<Rightarrow> Some (bs, Some ctx')))
      else (case uuid7_generate_ex ctx now 0 of (bs, ctx') \<Rightarrow> Some (bs, Some ctx')))"

section \<open>Allocation functions\<close>

text \<open>
  A function pointer is the library it belongs to.  \<open>owner\<close> says which library has handed out a block; to free or to
  resize a block with another library is undefined, which is \<^term>\<open>None\<close>.
\<close>

datatype lib = Libc | User nat

record fastkv_allocator =
  malloc_fn :: lib
  free_fn :: lib
  realloc_fn :: lib

record heap =
  fresh_addr :: nat
  owner :: "nat \<Rightarrow> lib option"

definition g_fastkv_allocator :: fastkv_allocator where
  "g_fastkv_allocator = \<lparr>malloc_fn = Libc, free_fn = Libc, realloc_fn = Libc\<rparr>"

definition fastkv_allocator_init :: "lib option \<Rightarrow> lib option \<Rightarrow> lib option \<Rightarrow> fastkv_allocator \<Rightarrow> fastkv_allocator" where
  "fastkv_allocator_init m f r g =
     (let g1 = (case m of None \<Rightarrow> g | Some x \<Rightarrow> g\<lparr>malloc_fn := x\<rparr>);
          g2 = (case f of None \<Rightarrow> g1 | Some x \<Rightarrow> g1\<lparr>free_fn := x\<rparr>)
      in case r of None \<Rightarrow> g2 | Some x \<Rightarrow> g2\<lparr>realloc_fn := x\<rparr>)"

definition fkv_malloc :: "fastkv_allocator \<Rightarrow> heap \<Rightarrow> nat \<times> heap" where
  "fkv_malloc g h = (fresh_addr h, h\<lparr>fresh_addr := fresh_addr h + 1, owner := (owner h)(fresh_addr h \<mapsto> malloc_fn g)\<rparr>)"

definition fkv_free :: "fastkv_allocator \<Rightarrow> heap \<Rightarrow> nat \<Rightarrow> heap option" where
  "fkv_free g h p = (if owner h p = Some (free_fn g) then Some (h\<lparr>owner := (owner h)(p := None)\<rparr>) else None)"

definition fkv_realloc :: "fastkv_allocator \<Rightarrow> heap \<Rightarrow> nat \<Rightarrow> (nat \<times> heap) option" where
  "fkv_realloc g h p =
     (if owner h p = Some (realloc_fn g)
      then Some (fresh_addr h, h\<lparr>fresh_addr := fresh_addr h + 1,
                                owner := (owner h)(p := None, fresh_addr h \<mapsto> realloc_fn g)\<rparr>)
      else None)"

text \<open>The head of \<^verbatim>\<open>fastkv_open\<close>, with the two functions of its options.\<close>

definition open_allocator :: "lib option \<Rightarrow> lib option \<Rightarrow> fastkv_allocator \<Rightarrow> fastkv_allocator" where
  "open_allocator m f g = (if m \<noteq> None then fastkv_allocator_init m f None g else g)"

text \<open>
  The memory of \<^verbatim>\<open>collect_segments\<close> (\<open>wal/wal.c\<close>): the array at \<open>p\<close> has room for \<open>cap\<close> names and holds \<open>n\<close>; the last
  argument counts the segments still to come.
\<close>

fun names_loop :: "fastkv_allocator \<Rightarrow> nat \<Rightarrow> nat \<Rightarrow> nat \<Rightarrow> heap \<Rightarrow> nat \<Rightarrow> (nat \<times> heap) option" where
  "names_loop g cap n p h 0 = Some (p, h)"
| "names_loop g cap n p h (Suc k) =
     (if n \<ge> cap
      then (case fkv_realloc g h p of
              None \<Rightarrow> None
            | Some (p', h') \<Rightarrow> names_loop g (cap * 2) (n + 1) p' (snd (fkv_malloc g h')) k)
      else names_loop g cap (n + 1) p (snd (fkv_malloc g h)) k)"

definition collect_memory :: "fastkv_allocator \<Rightarrow> heap \<Rightarrow> nat \<Rightarrow> (nat \<times> heap) option" where
  "collect_memory g h segments = (case fkv_malloc g h of (p, h') \<Rightarrow> names_loop g 64 0 p h' segments)"

section \<open>Log levels\<close>

text \<open>An enumeration without negative values is an unsigned integer; \<^verbatim>\<open>g_level\<close> is kept at that width.\<close>

definition FASTKV_LOG_SILENT :: int where
  "FASTKV_LOG_SILENT = 6"

definition log_level_int :: "int \<Rightarrow> u32" where
  "log_level_int raw = word_of_int raw"

definition fastkv_set_log_level :: "int \<Rightarrow> u32" where
  "fastkv_set_log_level level = log_level_int (if level \<ge> FASTKV_LOG_SILENT then 255 else level)"

definition log_emits :: "u32 \<Rightarrow> u32 \<Rightarrow> bool" where
  "log_emits g_level level = (\<not> level < g_level)"

section \<open>The clocks agree\<close>

text \<open>Times before the year 10889 fit into the 48 bits of a name.\<close>

definition valid_time :: "timespec \<Rightarrow> bool" where
  "valid_time ts \<longleftrightarrow> unat (tv_sec ts) < 281474976710 \<and> unat (tv_nsec ts) < 1000000000"

lemma os_time_ms_unat:
  assumes "valid_time ts"
  shows "unat (os_time_ms (Some ts) s) = unat (tv_sec ts) * 1000 + unat (tv_nsec ts) div 1000000"
    and "os_time_ms (Some ts) s < 2 ^ 48"
proof -
  have d: "unat (tv_nsec ts) div 1000000 < 1000"
    using assms by (simp add: valid_time_def less_mult_imp_div_less)
  have s: "unat (tv_sec ts) < 281474976710" using assms by (simp add: valid_time_def)
  have n: "unat (tv_nsec ts div 1000000) = unat (tv_nsec ts) div 1000000" by (simp add: unat_div_distrib)
  have m: "unat (tv_sec ts * 1000) = unat (tv_sec ts) * 1000" using s by (simp add: unat_word_ariths)
  show *: "unat (os_time_ms (Some ts) s) = unat (tv_sec ts) * 1000 + unat (tv_nsec ts) div 1000000"
    using s d by (simp add: os_time_ms_def unat_word_ariths(1) n m)
  show "os_time_ms (Some ts) s < 2 ^ 48" unfolding word_less_nat_alt * using s d by simp
qed

text \<open>A later time never reads earlier.\<close>

lemma os_time_ms_mono:
  assumes "valid_time a" "valid_time b"
    and "unat (tv_sec a) < unat (tv_sec b) \<or> unat (tv_sec a) = unat (tv_sec b) \<and> unat (tv_nsec a) \<le> unat (tv_nsec b)"
  shows "os_time_ms (Some a) s \<le> os_time_ms (Some b) s'"
proof -
  have "unat (tv_nsec a) div 1000000 < 1000"
    using assms(1) by (simp add: valid_time_def less_mult_imp_div_less)
  then show ?thesis
    using assms(3) unfolding word_le_nat_alt os_time_ms_unat(1) [OF assms(1)] os_time_ms_unat(1) [OF assms(2)]
    by (auto intro: div_le_mono)
qed

text \<open>The two halves of a tick count.\<close>

lemma file_time_halves: "push_bit 32 (ucast (ucast (drop_bit 32 t) :: u32)) OR ucast (ucast t :: u32) = t" for t :: u64
  by (rule bit_word_eqI) (auto simp: bit_simps not_less)

text \<open>The Windows clock read at the same instant gives the same number.\<close>

lemma clocks_agree:
  fixes t :: u64
  assumes v: "valid_time ts"
    and ticks: "unat t = 116444736000000000 + unat (tv_sec ts) * 10000000 + unat (tv_nsec ts) div 100"
  shows "os_time_ms_win (ucast (drop_bit 32 t)) (ucast t) = os_time_ms (Some ts) s"
proof -
  have "unat (t - EPOCH_OFFSET) = unat (tv_sec ts) * 10000000 + unat (tv_nsec ts) div 100"
  proof -
    have "EPOCH_OFFSET \<le> t" using ticks by (simp add: word_le_nat_alt EPOCH_OFFSET_def)
    then have "unat (t - EPOCH_OFFSET) = unat t - unat EPOCH_OFFSET" by (rule unat_sub)
    then show ?thesis using ticks by (simp add: EPOCH_OFFSET_def)
  qed
  then have "unat ((t - EPOCH_OFFSET) div 10000) = (unat (tv_nsec ts) div 100 + unat (tv_sec ts) * 1000 * 10000) div 10000"
    by (simp add: unat_div_distrib)
  also have "\<dots> = unat (tv_sec ts) * 1000 + unat (tv_nsec ts) div 1000000"
    by (simp only: div_mult_self1 div_mult2_eq [symmetric]) simp
  finally show ?thesis
    unfolding word_unat_eq_iff os_time_ms_unat(1) [OF v] by (simp add: os_time_ms_win_def file_time_halves)
qed

section \<open>Waiting for a new millisecond\<close>

lemma fresh_reading_iff: "fresh_reading prev rs = Some now \<longleftrightarrow> (\<exists>k. rs = replicate k prev @ now # drop (k + 1) rs \<and> now \<noteq> prev)"
proof (induction rs)
  case (Cons r rs)
  show ?case
  proof (cases "r = prev")
    case True
    have "(\<exists>k. r # rs = replicate k prev @ now # drop (k + 1) (r # rs) \<and> now \<noteq> prev)
      \<longleftrightarrow> (\<exists>k. rs = replicate k prev @ now # drop (k + 1) rs \<and> now \<noteq> prev)" (is "?l \<longleftrightarrow> ?r")
    proof
      assume ?l
      then obtain k where "r # rs = replicate k prev @ now # drop (k + 1) (r # rs)" "now \<noteq> prev" by blast
      with True show ?r by (cases k) auto
    next
      assume ?r
      then obtain k where "rs = replicate k prev @ now # drop (k + 1) rs" "now \<noteq> prev" by blast
      with True show ?l by (intro exI [of _ "Suc k"]) auto
    qed
    with Cons True show ?thesis by simp
  next
    case False
    then show ?thesis by (auto simp: Cons_eq_append_conv Cons_replicate_eq intro: exI [of _ 0])
  qed
qed simp

lemma fresh_reading_total: "fresh_reading prev rs = None \<longleftrightarrow> (\<forall>r \<in> set rs. r = prev)"
  by (induction rs) auto

text \<open>Without an overflow the wait is not entered, and what stands for its result does not matter.\<close>

lemma no_overflow_step: "\<not> counter_overflows ctx now \<Longrightarrow> uuid7_step ctx now f = uuid7_step ctx now f'"
  by (auto simp: counter_overflows_def uuid7_step_def Let_def)

text \<open>A call returns as soon as the clock moves.\<close>

lemma uuid7_generate_returns:
  assumes "r \<in> set readings" "r \<noteq> last_timestamp_ms ctx"
  shows "\<exists>bs ctx'. uuid7_generate (Some ctx) out (now # readings) = Some (bs, Some ctx') \<and> length bs = 16"
proof -
  obtain f where "fresh_reading (last_timestamp_ms ctx) readings = Some f"
    using assms fresh_reading_total [of "last_timestamp_ms ctx" readings] by auto
  then show ?thesis by (auto simp: uuid7_generate_ex_def Let_def)
qed

text \<open>
  When the counter overflows while the clock is behind the last timestamp, the wait ends at once with the clock that is
  behind, and the next name sorts before the last one.
\<close>

definition behind_ctx :: uuid7_ctx where
  "behind_ctx = \<lparr>last_timestamp_ms = 5000, rand_a_high = 0, counter_high = 0x3FFF, counter_low = 2 ^ 56 - 1,
     prng = \<lparr>s0 = 1, s1 = 0, s2 = 0, s3 = 0\<rparr>\<rparr>"

lemma overflow_behind_sorts_before:
  "\<exists>bs ctx'. uuid7_generate (Some behind_ctx) [] [4000, 4000] = Some (bs, Some ctx') \<and> bs < uuid7_bytes behind_ctx"
proof -
  have d: "sint (4000 - last_timestamp_ms behind_ctx) = - 1000"
    using delta_48 [of 4000 5000] by (simp add: behind_ctx_def)
  have o: "counter_overflows behind_ctx 4000"
    using low_increment [of "2 ^ 56 - 1"] unfolding counter_overflows_def Let_def d
    by (simp add: behind_ctx_def UUID7_CLOCK_BACKWARD_THRESHOLD_MS_def)
  then obtain ctx where s: "uuid7_step behind_ctx 4000 4000 = uuid7_reseed ctx 4000"
    unfolding counter_overflows_def uuid7_step_def Let_def d by auto
  have "uuid7_bytes (uuid7_reseed ctx 4000) < uuid7_bytes behind_ctx"
    by (rule newer_timestamp_less [OF reseed_ok])
      (simp_all add: behind_ctx_def uuid_ok_def uuid7_reseed_def Let_def split: prod.split)
  with o s show ?thesis
    by (simp add: uuid7_generate_ex_def Let_def) (simp add: behind_ctx_def)
qed

section \<open>Entropy\<close>

text \<open>The documented bound of \<^verbatim>\<open>getrandom\<close>: no result is longer than what was asked for.\<close>

fun within :: "nat \<Rightarrow> getrandom list \<Rightarrow> bool" where
  "within room [] = True"
| "within room (Got bs # rs) = (length bs \<le> room \<and> within (room - length bs) rs)"
| "within room (r # rs) = within room rs"

fun delivered :: "getrandom list \<Rightarrow> bytes" where
  "delivered [] = []"
| "delivered (Got bs # rs) = bs @ delivered rs"
| "delivered (r # rs) = delivered rs"

lemma within_le: "within room rs \<Longrightarrow> length (delivered rs) \<le> room"
  by (induction room rs rule: within.induct) auto

text \<open>However the system cuts them up, the caller gets the first bytes delivered, and exactly as many as asked for.\<close>

lemma get_entropy_delivers:
  assumes "Failed \<notin> set rs" "within (len - length done) rs" "length done \<le> len"
  shows "get_entropy rs len done =
    (if length done + length (delivered rs) = len then Some (Some (done @ delivered rs)) else None)"
  using assms
proof (induction rs arbitrary: "done")
  case Nil
  then show ?case by (simp add: get_entropy.simps [of "[]"])
next
  case (Cons r rs)
  show ?case
  proof (cases "length done < len")
    case True
    with Cons show ?thesis by (cases r) (auto simp: get_entropy.simps [of "_ # _"])
  next
    case False
    with Cons.prems within_le [of 0 "r # rs"] show ?thesis by (auto simp: get_entropy.simps [of "_ # _"])
  qed
qed

lemma get_entropy_length:
  "get_entropy rs len done = Some (Some bs) \<Longrightarrow> within (len - length done) rs \<Longrightarrow> length done \<le> len \<Longrightarrow> length bs = len"
proof (induction rs len "done" rule: get_entropy.induct)
  case (1 rs len "done")
  show ?case
  proof (cases "length done < len")
    case True
    note r = "1.prems"(1) [unfolded get_entropy.simps [of rs], simplified True if_True]
    show ?thesis
    proof (cases rs)
      case Nil
      with r show ?thesis by simp
    next
      case (Cons x xs)
      with r "1.IH" [OF True Cons] "1.prems"(2,3) True show ?thesis by (cases x) auto
    qed
  next
    case False
    with 1 show ?thesis by (simp add: get_entropy.simps [of rs])
  qed
qed

lemma interruptions_do_not_matter:
  "get_entropy (filter (\<lambda>r. r \<noteq> Interrupted) rs) len done = get_entropy rs len done"
proof (induction rs arbitrary: "done")
  case (Cons r rs)
  have enough: "get_entropy xs len done = Some (Some done)" if "\<not> length done < len" for xs
    using that by (subst get_entropy.simps) simp
  show ?case
  proof (cases "length done < len")
    case True
    with Cons show ?thesis by (cases r) (simp_all add: get_entropy.simps [of "_ # _"])
  qed (simp add: enough)
qed simp

section \<open>The generator does not stand still\<close>

definition zero_state :: "uuid7_prng \<Rightarrow> bool" where
  "zero_state p \<longleftrightarrow> s0 p = 0 \<and> s1 p = 0 \<and> s2 p = 0 \<and> s3 p = 0"

lemma xor_zero_iff: "a XOR b = 0 \<longleftrightarrow> a = b" for a b :: u64
  unfolding bit_eq_iff bit_xor_iff by auto

lemma rotl64_bit: "0 < k \<Longrightarrow> k < 64 \<Longrightarrow> n < 64 \<Longrightarrow> bit (rotl64 x k) n = bit x ((n + 64 - k) mod 64)"
  by (cases "n < k") (auto simp: rotl64_def bit_simps mod_if add.commute dest: bit_imp_le_length)

lemma rotl64_zero: "0 < k \<Longrightarrow> k < 64 \<Longrightarrow> rotl64 x k = 0 \<Longrightarrow> x = 0"
proof (rule bit_word_eqI)
  fix n
  assume k: "0 < k" "k < 64" and z: "rotl64 x k = 0" and "n < LENGTH(64)"
  then have n: "n < 64" by simp
  have "((n + k) mod 64 + 64 - k) mod 64 = n" using k n by (auto simp: mod_if)
  with k z show "bit x n = bit 0 n" using rotl64_bit [of k "(n + k) mod 64" x] by simp
qed

lemma xor_shift_zero: "x XOR push_bit 17 x = 0 \<Longrightarrow> x = 0" for x :: u64
proof (rule bit_word_eqI)
  fix n
  assume z: "x XOR push_bit 17 x = 0"
  then have e: "x = push_bit 17 x" unfolding xor_zero_iff .
  have step: "bit x n \<Longrightarrow> 17 \<le> n \<and> bit x (n - 17)" for n
    by (subst (asm) e) (simp add: bit_push_bit_iff)
  have "\<not> bit x n"
  proof (induction n rule: less_induct)
    case (less n)
    show ?case using step [of n] less [of "n - 17"] by fastforce
  qed
  then show "bit x n = bit 0 n" by simp
qed

lemma xoshiro_nonzero:
  assumes "\<not> zero_state p"
  shows "\<not> zero_state (snd (xoshiro256_next p))"
proof
  assume "zero_state (snd (xoshiro256_next p))"
  then have z: "rotl64 (s3 p XOR s1 p) 45 = 0" "s1 p XOR (s2 p XOR s0 p) = 0" "s0 p XOR (s3 p XOR s1 p) = 0"
    "(s2 p XOR s0 p) XOR push_bit 17 (s1 p) = 0"
    by (simp_all add: zero_state_def xoshiro256_next_def Let_def)
  have "s3 p XOR s1 p = 0" using rotl64_zero [OF _ _ z(1)] by simp
  then have 0: "s0 p = 0" using z(3) by simp
  have "s1 p = s2 p" using z(2) 0 by (simp add: xor_zero_iff)
  then have "s1 p XOR push_bit 17 (s1 p) = 0" using z(4) unfolding 0 by simp
  then have "s1 p = 0" by (rule xor_shift_zero)
  then show False using assms 0 \<open>s1 p = s2 p\<close> \<open>s3 p XOR s1 p = 0\<close> by (simp add: zero_state_def)
qed

lemma seeded_nonzero:
  assumes "case entropy of None \<Rightarrow> t < 2 ^ 48 | Some (a, b, c, d) \<Rightarrow> a \<noteq> 0 \<or> b \<noteq> 0 \<or> c \<noteq> 0 \<or> d \<noteq> 0"
  shows "\<not> zero_state (prng_seed entropy t cyc pa aa)"
proof -
  have it: "\<not> zero_state p \<Longrightarrow> \<not> zero_state (((\<lambda>p. snd (xoshiro256_next p)) ^^ n) p)" for p n
    by (induction n) (simp_all add: xoshiro_nonzero)
  have t: "t XOR 0x9E3779B97F4A7C15 \<noteq> 0" if "t < 2 ^ 48"
  proof
    assume "t XOR 0x9E3779B97F4A7C15 = 0"
    then have "t = 0x9E3779B97F4A7C15" unfolding xor_zero_iff .
    with that show False by (simp add: word_less_nat_alt)
  qed
  show ?thesis
  proof (cases entropy)
    case None
    with assms t show ?thesis
      unfolding prng_seed_def by (simp only: option.case prod.case) (rule it, simp add: zero_state_def)
  next
    case (Some seed)
    with assms show ?thesis
      by (cases seed) (simp only: prng_seed_def option.case prod.case, rule it, simp add: zero_state_def)
  qed
qed

section \<open>Allocation functions that belong together\<close>

definition one_library :: "lib \<Rightarrow> fastkv_allocator \<Rightarrow> heap \<Rightarrow> bool" where
  "one_library l g h \<longleftrightarrow> malloc_fn g = l \<and> free_fn g = l \<and> realloc_fn g = l \<and> ran (owner h) \<subseteq> {l}"

lemma one_library_malloc: "one_library l g h \<Longrightarrow> one_library l g (snd (fkv_malloc g h))"
  by (auto simp: one_library_def fkv_malloc_def ran_def split: if_splits)

lemma one_library_free:
  "one_library l g h \<Longrightarrow> owner h p = Some l \<Longrightarrow> \<exists>h'. fkv_free g h p = Some h' \<and> one_library l g h'"
  by (auto simp: one_library_def fkv_free_def ran_def split: if_splits)

lemma one_library_realloc:
  "one_library l g h \<Longrightarrow> owner h p = Some l \<Longrightarrow>
     \<exists>p' h'. fkv_realloc g h p = Some (p', h') \<and> owner h' p' = Some l \<and> one_library l g h'"
  by (auto simp: one_library_def fkv_realloc_def ran_def split: if_splits)

lemma names_loop_defined:
  assumes "one_library l g h" "owner h p = Some l" "p < fresh_addr h"
  shows "\<exists>p' h'. names_loop g cap n p h k = Some (p', h') \<and> owner h' p' = Some l \<and> one_library l g h'"
  using assms
proof (induction g cap n p h k rule: names_loop.induct)
  case (2 g cap n p h k)
  show ?case
  proof (cases "n \<ge> cap")
    case True
    obtain p1 h1 where r: "fkv_realloc g h p = Some (p1, h1)" "owner h1 p1 = Some l" "one_library l g h1"
      using one_library_realloc [OF "2.prems"(1,2)] by blast
    then have "p1 < fresh_addr h1" by (auto simp: fkv_realloc_def split: if_splits)
    with r True show ?thesis
      using "2.IH"(1) [OF True r(1) refl] one_library_malloc [OF r(3)] by (simp add: fkv_malloc_def)
  next
    case False
    with "2.prems" show ?thesis
      using "2.IH"(2) [OF False] one_library_malloc [OF "2.prems"(1)] by (simp add: fkv_malloc_def)
  qed
qed auto

text \<open>
  A database opened with allocation functions of the user: the third pointer stays that of the C library.  Up to 64
  segments the array of names is never resized; the next segment resizes a block of the user's library with the
  \<^verbatim>\<open>realloc\<close> of the C library.
\<close>

lemma names_loop_small:
  "n + k \<le> cap \<Longrightarrow> \<exists>h'. names_loop g cap n p h k = Some (p, h')"
  by (induction k arbitrary: n h) auto

lemma names_loop_mixed:
  assumes "malloc_fn g \<noteq> realloc_fn g" "owner h p = Some (malloc_fn g)" "p < fresh_addr h" "n \<le> cap" "cap < n + k"
  shows "names_loop g cap n p h k = None"
  using assms
proof (induction k arbitrary: n h)
  case (Suc k)
  show ?case
  proof (cases "n \<ge> cap")
    case True
    with Suc.prems show ?thesis by (simp add: fkv_realloc_def)
  next
    case False
    with Suc.prems Suc.IH [of "snd (fkv_malloc g h)" "n + 1"] show ?thesis by (simp add: fkv_malloc_def)
  qed
qed simp

lemma user_allocator_resized_by_libc:
  assumes "g = open_allocator (Some (User u)) (Some (User u)) g_fastkv_allocator"
  shows "collect_memory g h segments = None \<longleftrightarrow> 64 < segments"
proof -
  have g: "malloc_fn g \<noteq> realloc_fn g"
    by (simp add: assms open_allocator_def fastkv_allocator_init_def g_fastkv_allocator_def)
  show ?thesis
  proof (cases "64 < segments")
    case True
    then show ?thesis
      using names_loop_mixed [OF g, of "snd (fkv_malloc g h)" "fresh_addr h" 0 64 segments]
      by (simp add: collect_memory_def fkv_malloc_def)
  next
    case False
    then show ?thesis
      using names_loop_small [of 0 segments 64 g "fresh_addr h" "snd (fkv_malloc g h)"]
      by (auto simp: collect_memory_def fkv_malloc_def)
  qed
qed

section \<open>Log levels\<close>

text \<open>The documented levels 0 to 5 let through what is at least as severe, every level from 6 on nothing.\<close>

lemma log_level_filters:
  assumes "level \<le> 5"
  shows "0 \<le> l \<Longrightarrow> log_emits (fastkv_set_log_level l) level \<longleftrightarrow> l \<le> uint level"
proof -
  have u: "uint level \<le> 5" using assms by (simp add: word_le_def)
  assume l: "0 \<le> l"
  have "uint (fastkv_set_log_level l) = (if 6 \<le> l then 255 else l)"
    using l by (simp add: fastkv_set_log_level_def log_level_int_def FASTKV_LOG_SILENT_def uint_word_of_int)
  then show ?thesis using u by (simp add: log_emits_def word_less_def not_less)
qed

text \<open>A negative level, which reads as \<open>let everything through\<close>, silences the log.\<close>

lemma negative_level_silences:
  assumes "- 2147483648 \<le> l" "l < 0" "level \<le> 5"
  shows "\<not> log_emits (fastkv_set_log_level l) level"
proof -
  have "uint level \<le> 5" using assms(3) by (simp add: word_le_def)
  moreover have "l mod 4294967296 = l + 4294967296"
    using mod_pos_pos_trivial [of "l + 4294967296" 4294967296] assms(1,2) by simp
  moreover have "uint (fastkv_set_log_level l) = l mod 4294967296"
    using assms(2) by (simp add: fastkv_set_log_level_def log_level_int_def FASTKV_LOG_SILENT_def uint_word_of_int)
  ultimately show ?thesis using assms(1) by (simp add: log_emits_def word_less_def)
qed

end
