(* ===== verification/Release.thy ===== *)
theory Release
  imports Platform
begin

text \<open>
  Releasing memory: \<^verbatim>\<open>fastkv_btree_destroy\<close>, \<^verbatim>\<open>fastkv_rtree_destroy\<close>, \<^verbatim>\<open>fastkv_ht_destroy\<close>, \<^verbatim>\<open>fastkv_cursor_close\<close> and the queue of
  a replication sender.  Such a function is the sequence of its accesses to blocks and of its calls of \<^verbatim>\<open>fkv_free\<close>; a
  structure is given by the addresses of its blocks, with \<^term>\<open>None\<close> for a NULL pointer.  Running the sequence on a heap
  (\<open>Platform\<close>) fails at an access to a block that has been freed, at a second free and at a free with the wrong library.

  Shown here: on a structure whose blocks are distinct and come from the allocator in use, every one of these functions
  runs through, frees each block of the structure once and leaves all others alone.
\<close>

section \<open>Model\<close>

type_synonym ptr = "nat option"

datatype event = Use nat | Free ptr

fun run_events :: "fastkv_allocator \<Rightarrow> heap \<Rightarrow> event list \<Rightarrow> heap option" where
  "run_events g h [] = Some h"
| "run_events g h (Use a # es) = (if owner h a = None then None else run_events g h es)"
| "run_events g h (Free None # es) = run_events g h es"
| "run_events g h (Free (Some a) # es) = (case fkv_free g h a of None \<Rightarrow> None | Some h' \<Rightarrow> run_events g h' es)"

text \<open>Nodes of the B+ tree: address, then the pointers to copied slices, then the children.\<close>

datatype bmem = Bleaf nat "(ptr \<times> ptr) list" | Binner nat "ptr list" "bmem list"

fun node_free_recursive :: "bmem \<Rightarrow> event list" where
  "node_free_recursive (Bleaf l kv) =
     Use l # concat (map (\<lambda>(k, v). [Use l, Free k, Use l, Free v]) kv) @ [Free (Some l)]"
| "node_free_recursive (Binner p ks cs) =
     Use p # concat (map (\<lambda>c. Use p # node_free_recursive c) cs)
     @ concat (map (\<lambda>k. [Use p, Free k]) ks) @ [Free (Some p)]"

fun fastkv_btree_destroy :: "(nat \<times> bmem) option \<Rightarrow> event list" where
  "fastkv_btree_destroy None = []"
| "fastkv_btree_destroy (Some (t, root)) = Use t # node_free_recursive root @ [Use t, Free (Some t)]"

datatype rmem = Rleaf nat "ptr list" | Rinner nat "rmem list"

fun rnode_free_recursive :: "rmem \<Rightarrow> event list" where
  "rnode_free_recursive (Rinner n es) =
     Use n # concat (map (\<lambda>c. Use n # rnode_free_recursive c) es) @ [Free (Some n)]"
| "rnode_free_recursive (Rleaf n ks) = Use n # concat (map (\<lambda>k. [Use n, Free k]) ks) @ [Free (Some n)]"

fun fastkv_rtree_destroy :: "(nat \<times> rmem) option \<Rightarrow> event list" where
  "fastkv_rtree_destroy None = []"
| "fastkv_rtree_destroy (Some (t, root)) = Use t # rnode_free_recursive root @ [Use t, Free (Some t)]"

text \<open>A version: its address, its key and its value; \<^verbatim>\<open>next\<close> is read before anything is freed.\<close>

type_synonym vmem = "nat \<times> ptr \<times> ptr"

definition version_free :: "vmem \<Rightarrow> event list" where
  "version_free x =
     (case x of (v, key, val) \<Rightarrow> [Use v, Use v, Free key, Use v] @ (if val \<noteq> None then [Use v, Free val] else []) @ [Free (Some v)])"

definition fastkv_ht_destroy :: "nat \<Rightarrow> nat \<Rightarrow> vmem list list \<Rightarrow> event list" where
  "fastkv_ht_destroy ht buckets chs =
     concat (map (\<lambda>c. [Use ht, Use buckets] @ concat (map version_free c)) chs)
     @ [Use ht, Free (Some buckets), Free (Some ht)]"

fun fastkv_cursor_close :: "(nat \<times> nat \<times> nat \<times> (ptr \<times> ptr) list) option \<Rightarrow> event list" where
  "fastkv_cursor_close None = []"
| "fastkv_cursor_close (Some (c, keys, vals, kv)) =
     concat (map (\<lambda>(k, v). [Use c, Use keys, Free k, Use c, Use vals, Free v]) kv)
     @ [Use c, Free (Some keys), Use c, Free (Some vals), Free (Some c)]"

text \<open>\<^verbatim>\<open>sender_destroy\<close> after the join: the frames left in the queue (address and data), the sender.\<close>

definition sender_release :: "nat \<Rightarrow> (nat \<times> ptr) list \<Rightarrow> event list" where
  "sender_release s frames =
     Use s # concat (map (\<lambda>(f, data). [Use f, Use f, Free data, Free (Some f)]) frames) @ [Use s, Free (Some s)]"

section \<open>The blocks of a structure\<close>

fun ptr_blocks :: "ptr \<Rightarrow> nat list" where
  "ptr_blocks None = []"
| "ptr_blocks (Some a) = [a]"

abbreviation pair_blocks :: "ptr \<times> ptr \<Rightarrow> nat list" where
  "pair_blocks x \<equiv> ptr_blocks (fst x) @ ptr_blocks (snd x)"

fun bmem_blocks :: "bmem \<Rightarrow> nat list" where
  "bmem_blocks (Bleaf l kv) = l # concat (map pair_blocks kv)"
| "bmem_blocks (Binner p ks cs) = p # concat (map bmem_blocks cs) @ concat (map ptr_blocks ks)"

fun rmem_blocks :: "rmem \<Rightarrow> nat list" where
  "rmem_blocks (Rleaf n ks) = n # concat (map ptr_blocks ks)"
| "rmem_blocks (Rinner n es) = n # concat (map rmem_blocks es)"

abbreviation vmem_blocks :: "vmem \<Rightarrow> nat list" where
  "vmem_blocks x \<equiv> fst x # pair_blocks (snd x)"

section \<open>Sequences that release a set of blocks\<close>

text \<open>
  \<open>es\<close> frees the blocks \<open>bs\<close> and nothing else, as long as they belong to the library in use and the blocks \<open>U\<close>,
  which it reads, are there.
\<close>

definition releases :: "fastkv_allocator \<Rightarrow> nat set \<Rightarrow> nat list \<Rightarrow> event list \<Rightarrow> bool" where
  "releases g U bs es \<longleftrightarrow>
     (\<forall>h. (\<forall>a \<in> U. owner h a \<noteq> None) \<and> (\<forall>a \<in> set bs. owner h a = Some (free_fn g))
        \<longrightarrow> run_events g h es = Some (h\<lparr>owner := \<lambda>a. if a \<in> set bs then None else owner h a\<rparr>))"

lemma run_append: "run_events g h (es @ fs) = (case run_events g h es of None \<Rightarrow> None | Some h' \<Rightarrow> run_events g h' fs)"
  by (induction g h es rule: run_events.induct) (auto split: option.split)

lemma releases_nil: "releases g U [] []"
  by (simp add: releases_def)

lemma releases_free: "releases g U (ptr_blocks p) [Free p]"
  by (cases p) (auto simp: releases_def fkv_free_def fun_eq_iff intro!: heap.equality)

lemma releases_use: "a \<in> U \<union> set bs \<Longrightarrow> releases g U bs es \<Longrightarrow> releases g U bs (Use a # es)"
  by (auto simp: releases_def)

lemma releases_append:
  assumes "releases g U xs es" "releases g U ys fs" "set xs \<inter> set ys = {}" "U \<inter> set xs = {}"
  shows "releases g U (xs @ ys) (es @ fs)"
  unfolding releases_def
proof (intro allI impI)
  fix h :: heap
  let ?h = "h\<lparr>owner := \<lambda>a. if a \<in> set xs then None else owner h a\<rparr>"
  assume h: "(\<forall>a \<in> U. owner h a \<noteq> None) \<and> (\<forall>a \<in> set (xs @ ys). owner h a = Some (free_fn g))"
  then have "run_events g h es = Some ?h" using assms(1) by (auto simp: releases_def)
  moreover have "run_events g ?h fs = Some (?h\<lparr>owner := \<lambda>a. if a \<in> set ys then None else owner ?h a\<rparr>)"
  proof -
    have "owner ?h a \<noteq> None" if "a \<in> U" for a using h assms(4) that by auto
    moreover have "owner ?h a = Some (free_fn g)" if "a \<in> set ys" for a using h assms(3) that by auto
    ultimately show ?thesis using assms(2) [unfolded releases_def, THEN spec, of ?h] by blast
  qed
  moreover have "(?h\<lparr>owner := \<lambda>a. if a \<in> set ys then None else owner ?h a\<rparr>)
      = h\<lparr>owner := \<lambda>a. if a \<in> set (xs @ ys) then None else owner h a\<rparr>"
    by (intro heap.equality) (auto simp: fun_eq_iff)
  ultimately show "run_events g h (es @ fs) = Some (h\<lparr>owner := \<lambda>a. if a \<in> set (xs @ ys) then None else owner h a\<rparr>)"
    by (simp add: run_append)
qed

lemma releases_concat:
  assumes "\<And>x. x \<in> set xs \<Longrightarrow> distinct (B x) \<Longrightarrow> U \<inter> set (B x) = {} \<Longrightarrow> releases g U (B x) (E x)"
    "distinct (concat (map B xs))" "U \<inter> set (concat (map B xs)) = {}"
  shows "releases g U (concat (map B xs)) (concat (map E xs))"
  using assms
proof (induction xs)
  case (Cons x xs)
  have "releases g U (B x @ concat (map B xs)) (E x @ concat (map E xs))"
  proof (rule releases_append)
    show "releases g U (B x) (E x)" using Cons.prems by auto
    show "releases g U (concat (map B xs)) (concat (map E xs))" using Cons.prems by (intro Cons.IH) auto
  qed (use Cons.prems in auto)
  then show ?case by simp
qed (simp add: releases_nil)

text \<open>A block that is read until the rest is gone, and freed last.\<close>

lemma releases_inner_last:
  assumes "releases g (insert a U) bs es" "a \<notin> set bs" "U \<inter> set bs = {}"
  shows "releases g U (a # bs) (es @ [Free (Some a)])"
  unfolding releases_def
proof (intro allI impI)
  fix h :: heap
  assume h: "(\<forall>x \<in> U. owner h x \<noteq> None) \<and> (\<forall>x \<in> set (a # bs). owner h x = Some (free_fn g))"
  let ?h = "h\<lparr>owner := \<lambda>x. if x \<in> set bs then None else owner h x\<rparr>"
  have "run_events g h es = Some ?h" using h assms(1) by (auto simp: releases_def)
  moreover have "run_events g ?h [Free (Some a)] = Some (?h\<lparr>owner := (owner ?h)(a := None)\<rparr>)"
    using h assms(2) by (simp add: fkv_free_def)
  moreover have "?h\<lparr>owner := (owner ?h)(a := None)\<rparr> = h\<lparr>owner := \<lambda>x. if x \<in> set (a # bs) then None else owner h x\<rparr>"
    by (intro heap.equality) (auto simp: fun_eq_iff)
  ultimately show "run_events g h (es @ [Free (Some a)]) = Some (h\<lparr>owner := \<lambda>x. if x \<in> set (a # bs) then None else owner h x\<rparr>)"
    by (simp add: run_append)
qed

lemmas releases_last = releases_inner_last [where U = "{}", simplified]

lemma releases_mono: "releases g U bs es \<Longrightarrow> U \<subseteq> V \<Longrightarrow> releases g V bs es"
  by (auto simp: releases_def)

lemma releases_pair:
  assumes "distinct (pair_blocks (k, v))" "U \<inter> set (pair_blocks (k, v)) = {}" "x \<in> U" "y \<in> U" "x' \<in> U" "y' \<in> U"
  shows "releases g U (pair_blocks (k, v)) [Use x, Use x', Free k, Use y, Use y', Free v]"
proof -
  have "releases g U (ptr_blocks k @ ptr_blocks v) ((Use x # Use x' # [Free k]) @ (Use y # Use y' # [Free v]))"
    using assms by (intro releases_append releases_use releases_free) auto
  then show ?thesis by simp
qed

section \<open>The structures\<close>

lemma leaf_releases:
  assumes "distinct (l # concat (map pair_blocks kv))"
  shows "releases g {} (bmem_blocks (Bleaf l kv)) (node_free_recursive (Bleaf l kv))"
proof -
  have "releases g {l} (concat (map pair_blocks kv)) (concat (map (\<lambda>(k, v). [Use l, Free k, Use l, Free v]) kv))"
  proof (rule releases_concat)
    fix x
    assume "distinct (pair_blocks x)" "{l} \<inter> set (pair_blocks x) = {}"
    then have "releases g {l} (ptr_blocks (fst x) @ ptr_blocks (snd x)) ((Use l # [Free (fst x)]) @ (Use l # [Free (snd x)]))"
      by (intro releases_append releases_use releases_free) auto
    then show "releases g {l} (pair_blocks x) ((\<lambda>(k, v). [Use l, Free k, Use l, Free v]) x)" by (simp add: split_def)
  qed (use assms in auto)
  with assms have "releases g {} (l # concat (map pair_blocks kv))
      (concat (map (\<lambda>(k, v). [Use l, Free k, Use l, Free v]) kv) @ [Free (Some l)])"
    by (intro releases_last) auto
  then show ?thesis by (simp add: releases_use)
qed

text \<open>Pointers freed one by one while their node is read, and children released in turn.\<close>

lemma ptrs_release:
  assumes "distinct (concat (map ptr_blocks ks))" "p \<notin> set (concat (map ptr_blocks ks))"
  shows "releases g {p} (concat (map ptr_blocks ks)) (concat (map (\<lambda>k. [Use p, Free k]) ks))"
  using assms by (intro releases_concat releases_use releases_free) auto

lemma children_release:
  assumes "\<And>c. c \<in> set cs \<Longrightarrow> distinct (B c) \<Longrightarrow> releases g {} (B c) (E c)" "distinct (concat (map B cs))" "p \<notin> set (concat (map B cs))"
  shows "releases g {p} (concat (map B cs)) (concat (map (\<lambda>c. Use p # E c) cs))"
  using assms by (intro releases_concat releases_use) (auto intro: releases_mono [where U = "{}"])

lemma node_free_releases: "distinct (bmem_blocks t) \<Longrightarrow> releases g {} (bmem_blocks t) (node_free_recursive t)"
proof (induction t rule: bmem_blocks.induct)
  case (1 l kv)
  then show ?case using leaf_releases by simp
next
  case (2 p ks cs)
  have "releases g {p} (concat (map bmem_blocks cs) @ concat (map ptr_blocks ks))
      (concat (map (\<lambda>c. Use p # node_free_recursive c) cs) @ concat (map (\<lambda>k. [Use p, Free k]) ks))"
    using "2.prems" by (intro releases_append children_release ptrs_release "2.IH") auto
  then have "releases g {} (p # concat (map bmem_blocks cs) @ concat (map ptr_blocks ks))
      ((concat (map (\<lambda>c. Use p # node_free_recursive c) cs) @ concat (map (\<lambda>k. [Use p, Free k]) ks)) @ [Free (Some p)])"
    using "2.prems" by (intro releases_last) auto
  then show ?case by (simp add: releases_use)
qed

lemma rnode_free_releases: "distinct (rmem_blocks t) \<Longrightarrow> releases g {} (rmem_blocks t) (rnode_free_recursive t)"
proof (induction t rule: rmem_blocks.induct)
  case (1 n ks)
  then have "releases g {} (n # concat (map ptr_blocks ks)) (concat (map (\<lambda>k. [Use n, Free k]) ks) @ [Free (Some n)])"
    by (intro releases_last ptrs_release) auto
  then show ?case by (simp add: releases_use)
next
  case (2 n es)
  have "releases g {} (n # concat (map rmem_blocks es))
      (concat (map (\<lambda>c. Use n # rnode_free_recursive c) es) @ [Free (Some n)])"
    using "2.prems" by (intro releases_last children_release "2.IH") auto
  then show ?case by (simp add: releases_use)
qed

text \<open>The structure behind a handle: the handle is read before and after, and freed last.\<close>

lemma handle_releases:
  assumes "releases g {} bs es" "t \<notin> set bs"
  shows "releases g {} (t # bs) (Use t # es @ [Use t, Free (Some t)])"
proof -
  have "releases g {t} (bs @ []) (es @ [Use t])"
    using assms by (intro releases_append releases_use releases_nil) (auto intro: releases_mono)
  then have "releases g {} (t # bs) ((es @ [Use t]) @ [Free (Some t)])" using assms(2) by (intro releases_last) auto
  then show ?thesis by (simp add: releases_use)
qed

lemma btree_destroy_releases:
  "distinct (t # bmem_blocks root) \<Longrightarrow> releases g {} (t # bmem_blocks root) (fastkv_btree_destroy (Some (t, root)))"
  using node_free_releases handle_releases by simp

lemma rtree_destroy_releases:
  "distinct (t # rmem_blocks root) \<Longrightarrow> releases g {} (t # rmem_blocks root) (fastkv_rtree_destroy (Some (t, root)))"
  using rnode_free_releases handle_releases by simp

lemma version_releases:
  assumes "distinct (vmem_blocks x)"
  shows "releases g {} (vmem_blocks x) (version_free x)"
proof -
  obtain v key val where x: "x = (v, key, val)" by (cases x)
  have "releases g {v} (ptr_blocks val) (if val \<noteq> None then [Use v, Free val] else [])"
    by (auto intro: releases_use releases_free releases_nil)
  then have "releases g {v} (ptr_blocks key @ ptr_blocks val)
      ((Use v # Use v # [Free key]) @ Use v # (if val \<noteq> None then [Use v, Free val] else []))"
    using assms x by (intro releases_append releases_use releases_free) auto
  then have "releases g {} (v # ptr_blocks key @ ptr_blocks val)
      (((Use v # Use v # [Free key]) @ Use v # (if val \<noteq> None then [Use v, Free val] else [])) @ [Free (Some v)])"
    using assms x by (intro releases_last) auto
  then show ?thesis by (simp add: x version_free_def)
qed

lemma frame_releases:
  assumes "distinct (fst x # ptr_blocks (snd x))"
  shows "releases g {} (fst x # ptr_blocks (snd x)) ((\<lambda>(f, data). [Use f, Use f, Free data, Free (Some f)]) x)"
proof -
  have "releases g {} (fst x # ptr_blocks (snd x)) ((Use (fst x) # Use (fst x) # [Free (snd x)]) @ [Free (Some (fst x))])"
    using assms by (intro releases_last releases_use releases_free) auto
  then show ?thesis by (simp add: split_def)
qed

lemma sender_releases:
  assumes "distinct (s # concat (map (\<lambda>x. fst x # ptr_blocks (snd x)) frames))"
  shows "releases g {} (s # concat (map (\<lambda>x. fst x # ptr_blocks (snd x)) frames)) (sender_release s frames)"
  unfolding sender_release_def
  using assms by (intro handle_releases releases_concat frame_releases) auto

lemma ht_destroy_releases:
  assumes "distinct (ht # bk # concat (map (\<lambda>c. concat (map vmem_blocks c)) chs))"
  shows "releases g {} (ht # bk # concat (map (\<lambda>c. concat (map vmem_blocks c)) chs)) (fastkv_ht_destroy ht bk chs)"
proof -
  let ?bs = "concat (map (\<lambda>c. concat (map vmem_blocks c)) chs)"
  have "releases g {ht, bk} ?bs (concat (map (\<lambda>c. Use ht # Use bk # concat (map version_free c)) chs))"
  proof (rule releases_concat)
    fix c
    assume "distinct (concat (map vmem_blocks c))"
    then have "releases g {} (concat (map vmem_blocks c)) (concat (map version_free c))"
      by (intro releases_concat version_releases) auto
    then show "releases g {ht, bk} (concat (map vmem_blocks c)) (Use ht # Use bk # concat (map version_free c))"
      by (intro releases_use) (auto intro: releases_mono)
  qed (use assms in auto)
  then have "releases g {ht, bk} (?bs @ []) (concat (map (\<lambda>c. Use ht # Use bk # concat (map version_free c)) chs) @ [Use ht])"
    using assms by (intro releases_append releases_use releases_nil) auto
  then have "releases g {ht} (bk # ?bs) ((concat (map (\<lambda>c. Use ht # Use bk # concat (map version_free c)) chs) @ [Use ht]) @ [Free (Some bk)])"
    using assms by (intro releases_inner_last) (auto simp: insert_commute)
  then have "releases g {} (ht # bk # ?bs)
      (((concat (map (\<lambda>c. Use ht # Use bk # concat (map version_free c)) chs) @ [Use ht]) @ [Free (Some bk)]) @ [Free (Some ht)])"
    using assms by (intro releases_last) auto
  then show ?thesis by (simp add: fastkv_ht_destroy_def)
qed

lemma cursor_close_releases:
  assumes "distinct (c # vals # keys # concat (map pair_blocks kv))"
  shows "releases g {} (c # vals # keys # concat (map pair_blocks kv)) (fastkv_cursor_close (Some (c, keys, vals, kv)))"
proof -
  let ?bs = "concat (map pair_blocks kv)" and ?E = "\<lambda>x. [Use c, Use keys, Free (fst x), Use c, Use vals, Free (snd x)]"
  have "releases g {c, keys, vals} ?bs (concat (map ?E kv))"
  proof (rule releases_concat)
    fix x
    assume "distinct (pair_blocks x)" "{c, keys, vals} \<inter> set (pair_blocks x) = {}"
    then show "releases g {c, keys, vals} (pair_blocks x) (?E x)"
      using releases_pair [of "fst x" "snd x" "{c, keys, vals}" c c keys vals] by simp
  qed (use assms in auto)
  then have "releases g {c, keys, vals} (?bs @ []) (concat (map ?E kv) @ [Use c])"
    using assms by (intro releases_append releases_use releases_nil) auto
  then have "releases g {c, vals} (keys # ?bs) ((concat (map ?E kv) @ [Use c]) @ [Free (Some keys)])"
    using assms by (intro releases_inner_last) (auto elim: releases_mono)
  then have "releases g {c, vals} ((keys # ?bs) @ []) (((concat (map ?E kv) @ [Use c]) @ [Free (Some keys)]) @ [Use c])"
    using assms by (intro releases_append releases_use releases_nil) auto
  then have "releases g {c} (vals # keys # ?bs) ((((concat (map ?E kv) @ [Use c]) @ [Free (Some keys)]) @ [Use c]) @ [Free (Some vals)])"
    using assms by (intro releases_inner_last) (auto elim: releases_mono)
  then have "releases g {} (c # vals # keys # ?bs)
      (((((concat (map ?E kv) @ [Use c]) @ [Free (Some keys)]) @ [Use c]) @ [Free (Some vals)]) @ [Free (Some c)])"
    using assms by (intro releases_last) auto
  then show ?thesis by (simp add: split_def)
qed

text \<open>
  From the outside: a destroying function runs through, all blocks of the structure are gone and no others.  After a
  second call on the same handle the first access already fails.
\<close>

lemma released:
  assumes "releases g {} bs es" "\<forall>a \<in> set bs. owner h a = Some (free_fn g)"
  shows "\<exists>h'. run_events g h es = Some h' \<and> (\<forall>a. owner h' a = (if a \<in> set bs then None else owner h a))"
  using assms by (simp add: releases_def)

lemma btree_destroy_twice:
  assumes "distinct (t # bmem_blocks root)" "\<forall>a \<in> set (t # bmem_blocks root). owner h a = Some (free_fn g)"
  shows "run_events g h (fastkv_btree_destroy (Some (t, root)) @ fastkv_btree_destroy (Some (t, root))) = None"
proof -
  obtain h' where "run_events g h (fastkv_btree_destroy (Some (t, root))) = Some h'" "owner h' t = None"
    using released [OF btree_destroy_releases [OF assms(1)] assms(2)] by auto
  then show ?thesis unfolding run_append by simp
qed

end
