(* ===== verification/Io_Uring.thy ===== *)
theory Io_Uring
  imports Io
begin

text \<open>
  \<open>persist/io.c\<close>, the io_uring backend: writes and syncs go through a submission queue, their outcomes come
  back through a completion queue, and \<open>pending_ops\<close> counts the operations \<^verbatim>\<open>fastkv_io_sync\<close> has still to wait
  for.  liburing is not part of the repository: its functions are the fields of the record \<open>liburing\<close>, over a
  type of rings of which nothing is known but the laws that are named where they are used.  A call of
  \<^verbatim>\<open>io_uring_wait_cqe\<close> that never returns is \<open>None\<close>.
\<close>

section \<open>liburing\<close>

text \<open>
  \<^verbatim>\<open>io_uring_wait_cqe\<close> gives its return code and the \<open>res\<close> of the completion; \<^verbatim>\<open>io_uring_prep_write\<close> takes the
  number of bytes as an \<^verbatim>\<open>unsigned\<close>.  The result of \<^verbatim>\<open>io_uring_submit\<close> is not used by the code.
\<close>

record 'r liburing =
  queue_init :: "nat \<Rightarrow> bool \<Rightarrow> 'r \<Rightarrow> int \<times> 'r"
  queue_exit :: "'r \<Rightarrow> 'r"
  get_sqe :: "'r \<Rightarrow> nat option \<times> 'r"
  prep_write :: "nat \<Rightarrow> fname \<Rightarrow> bytes \<Rightarrow> 32 word \<Rightarrow> nat \<Rightarrow> 'r \<Rightarrow> 'r"
  prep_fsync :: "nat \<Rightarrow> fname \<Rightarrow> 'r \<Rightarrow> 'r"
  submit :: "'r \<times> disk \<Rightarrow> 'r \<times> disk"
  wait_cqe :: "'r \<times> disk \<Rightarrow> ((int \<times> int) \<times> 'r \<times> disk) option"
  cqe_seen :: "'r \<Rightarrow> 'r"

section \<open>The backend\<close>

definition IOURING_QUEUE_DEPTH :: nat where
  "IOURING_QUEUE_DEPTH = 256"

record uio_ctx =
  uio_fd :: fname
  use_uring :: bool
  pending_ops :: int

text \<open>Opening: polling mode first, then a plain ring, then no ring at all.\<close>

definition uring_open ::
  "'r liburing \<Rightarrow> bool \<Rightarrow> bool \<Rightarrow> fname \<Rightarrow> 'r \<times> disk \<Rightarrow> (fastkv_err + uio_ctx) \<times> 'r \<times> disk" where
  "uring_open u c_ok open_ok name s =
     (let (r, d) = s; (rc, d') = fastkv_io_open c_ok open_ok name d
      in if rc \<noteq> FASTKV_OK then (Inl rc, r, d')
         else let c = \<lparr>uio_fd = name, use_uring = False, pending_ops = 0\<rparr>;
                  (rc1, r1) = queue_init u IOURING_QUEUE_DEPTH True r
              in if rc1 = 0 then (Inr (c\<lparr>use_uring := True\<rparr>), r1, d')
                 else let (rc2, r2) = queue_init u IOURING_QUEUE_DEPTH False r1
                      in if rc2 = 0 then (Inr (c\<lparr>use_uring := True\<rparr>), r2, d') else (Inr c, r2, d'))"

definition uring_close :: "'r liburing \<Rightarrow> uio_ctx option \<Rightarrow> 'r \<Rightarrow> fastkv_err \<times> 'r" where
  "uring_close u ctx r =
     (case ctx of
        None \<Rightarrow> (FASTKV_OK, r)
      | Some c \<Rightarrow> (FASTKV_OK, if use_uring c then queue_exit u r else r))"

text \<open>Consuming one completion: the return code of the wait and the \<open>res\<close> of the operation.\<close>

definition uring_reap :: "'r liburing \<Rightarrow> 'r \<times> disk \<Rightarrow> ((int \<times> int) \<times> 'r \<times> disk) option" where
  "uring_reap u s =
     (case wait_cqe u s of
        None \<Rightarrow> None
      | Some ((rc, res), r, d) \<Rightarrow> Some ((rc, res), if rc < 0 then r else cqe_seen u r, d))"

definition uring_pwrite ::
  "'r liburing \<Rightarrow> os \<Rightarrow> uio_ctx \<Rightarrow> bytes \<Rightarrow> u64 \<Rightarrow> 'r \<times> disk \<Rightarrow> (fastkv_err \<times> 'r \<times> disk) option" where
  "uring_pwrite u os c buf offset s =
     (let (r, d) = s
      in if use_uring c then
           case get_sqe u r of
             (None, r1) \<Rightarrow> Some (FASTKV_ERR_IO, r1, d)
           | (Some sqe, r1) \<Rightarrow>
               (case fastkv_offset_to_offt offset of
                  Inl rc \<Rightarrow> Some (rc, r1, d)
                | Inr off \<Rightarrow>
                    (case uring_reap u (submit u (prep_write u sqe (uio_fd c) buf (of_nat (length buf)) off r1, d)) of
                       None \<Rightarrow> None
                     | Some ((wait_rc, res), s') \<Rightarrow>
                         Some (if wait_rc < 0 then FASTKV_ERR_IO
                               else if res < 0 then FASTKV_ERR_IO else FASTKV_OK, s')))
         else (case fastkv_io_pwrite os (uio_fd c) buf offset d of (rc, d') \<Rightarrow> Some (rc, r, d')))"

text \<open>The asynchronous write only queues; a full queue is submitted once and tried again.\<close>

definition uring_pwrite_async ::
  "'r liburing \<Rightarrow> os \<Rightarrow> uio_ctx \<Rightarrow> bytes \<Rightarrow> u64 \<Rightarrow> 'r \<times> disk \<Rightarrow> fastkv_err \<times> uio_ctx \<times> 'r \<times> disk" where
  "uring_pwrite_async u os c buf offset s =
     (let (r, d) = s
      in if use_uring c then
           let (slot, r1, d1) =
                 (case get_sqe u r of
                    (Some sqe, r1) \<Rightarrow> (Some sqe, r1, d)
                  | (None, r1) \<Rightarrow>
                      let (r2, d2) = submit u (r1, d); (slot, r3) = get_sqe u r2 in (slot, r3, d2))
           in (case slot of
                 None \<Rightarrow> (FASTKV_ERR_IO, c, r1, d1)
               | Some sqe \<Rightarrow>
                   (case fastkv_offset_to_offt offset of
                      Inl rc \<Rightarrow> (rc, c, r1, d1)
                    | Inr off \<Rightarrow>
                        (FASTKV_OK, c\<lparr>pending_ops := pending_ops c + 1\<rparr>,
                         prep_write u sqe (uio_fd c) buf (of_nat (length buf)) off r1, d1)))
         else (case fastkv_io_pwrite os (uio_fd c) buf offset d of (rc, d') \<Rightarrow> (rc, c, r, d')))"

text \<open>The loop of \<^verbatim>\<open>fastkv_io_sync\<close>: as many waits as there are pending operations, whatever they report.\<close>

fun sync_loop :: "'r liburing \<Rightarrow> nat \<Rightarrow> 'r \<times> disk \<Rightarrow> ('r \<times> disk) option" where
  "sync_loop u 0 s = Some s"
| "sync_loop u (Suc n) s = (case uring_reap u s of None \<Rightarrow> None | Some (_, s') \<Rightarrow> sync_loop u n s')"

definition uring_sync ::
  "'r liburing \<Rightarrow> os \<Rightarrow> uio_ctx \<Rightarrow> 'r \<times> disk \<Rightarrow> (fastkv_err \<times> uio_ctx \<times> 'r \<times> disk) option" where
  "uring_sync u os c s =
     (let (r, d) = s
      in if use_uring c then
           let (r1, n) =
                 (case get_sqe u r of
                    (Some sqe, r1) \<Rightarrow> (prep_fsync u sqe (uio_fd c) r1, pending_ops c + 1)
                  | (None, r1) \<Rightarrow> (r1, pending_ops c))
           in (case sync_loop u (nat n) (submit u (r1, d)) of
                 None \<Rightarrow> None
               | Some s' \<Rightarrow> Some (FASTKV_OK, c\<lparr>pending_ops := 0\<rparr>, s'))
         else (case fastkv_io_sync os (uio_fd c) d of (rc, d') \<Rightarrow> Some (rc, c, r, d')))"

text \<open>A client that writes and syncs in some order.\<close>

datatype uio_op = UPwrite bytes u64 | UAsync bytes u64 | USync

fun uio_step :: "'r liburing \<Rightarrow> os \<Rightarrow> uio_op \<Rightarrow> uio_ctx \<times> 'r \<times> disk \<Rightarrow> (fastkv_err \<times> uio_ctx \<times> 'r \<times> disk) option" where
  "uio_step u os (UPwrite buf offset) (c, s) =
     (case uring_pwrite u os c buf offset s of None \<Rightarrow> None | Some (rc, s') \<Rightarrow> Some (rc, c, s'))"
| "uio_step u os (UAsync buf offset) (c, s) = Some (uring_pwrite_async u os c buf offset s)"
| "uio_step u os USync (c, s) = uring_sync u os c s"

fun uio_run :: "'r liburing \<Rightarrow> os \<Rightarrow> uio_op list \<Rightarrow> uio_ctx \<times> 'r \<times> disk \<Rightarrow> (fastkv_err list \<times> uio_ctx \<times> 'r \<times> disk) option" where
  "uio_run u os [] st = Some ([], st)"
| "uio_run u os (op # ops) st =
     (case uio_step u os op st of
        None \<Rightarrow> None
      | Some (rc, st') \<Rightarrow> (case uio_run u os ops st' of None \<Rightarrow> None | Some (rcs, st'') \<Rightarrow> Some (rc # rcs, st'')))"

fun op_in_range :: "uio_op \<Rightarrow> bool" where
  "op_in_range (UPwrite buf offset) = (unat offset \<le> INT64_MAX)"
| "op_in_range (UAsync buf offset) = (unat offset \<le> INT64_MAX)"
| "op_in_range USync = True"

section \<open>The documented behaviour of the queues\<close>

text \<open>
  \<open>queued\<close> is the number of entries handed out by \<^verbatim>\<open>io_uring_get_sqe\<close> and not yet submitted, \<open>inflight\<close> the
  number of submitted ones whose completion has not been consumed.  Every submitted entry gives one
  completion, so waiting returns while there is one.
\<close>

definition ring_laws :: "'r liburing \<Rightarrow> ('r \<Rightarrow> nat) \<Rightarrow> ('r \<Rightarrow> nat) \<Rightarrow> bool" where
  "ring_laws u queued inflight \<longleftrightarrow>
     (\<forall>n b r r'. queue_init u n b r = (0, r') \<longrightarrow> queued r' = 0 \<and> inflight r' = 0) \<and>
     (\<forall>r q r'. get_sqe u r = (q, r') \<longrightarrow>
        queued r' = (if q = None then queued r else Suc (queued r)) \<and> inflight r' = inflight r) \<and>
     (\<forall>q f bs n off r. queued (prep_write u q f bs n off r) = queued r \<and>
        inflight (prep_write u q f bs n off r) = inflight r) \<and>
     (\<forall>q f r. queued (prep_fsync u q f r) = queued r \<and> inflight (prep_fsync u q f r) = inflight r) \<and>
     (\<forall>r d r' d'. submit u (r, d) = (r', d') \<longrightarrow> queued r' + inflight r' = queued r + inflight r) \<and>
     (\<forall>r d. 0 < inflight r \<longrightarrow> wait_cqe u (r, d) \<noteq> None) \<and>
     (\<forall>r d x r' d'. wait_cqe u (r, d) = Some (x, r', d') \<longrightarrow> queued r' = queued r \<and> inflight r' = inflight r) \<and>
     (\<forall>r. queued (cqe_seen u r) = queued r \<and> inflight (cqe_seen u r) = inflight r - 1)"

text \<open>
  Nothing goes wrong with the queues themselves: a submission takes every entry, a wait is not interrupted.
  The operations may still fail, be short or be refused an entry.
\<close>

definition ring_undisturbed :: "'r liburing \<Rightarrow> ('r \<Rightarrow> nat) \<Rightarrow> bool" where
  "ring_undisturbed u queued \<longleftrightarrow>
     (\<forall>s. queued (fst (submit u s)) = 0) \<and>
     (\<forall>s rc res s'. wait_cqe u s = Some ((rc, res), s') \<longrightarrow> 0 \<le> rc)"


section \<open>A ring to compute with\<close>

text \<open>
  A ring that carries out the entries in order when they are submitted.  An entry nobody filled in is a
  no-op and completes with 0.
\<close>

datatype ring_op = RNop | RWrite fname bytes nat | RFsync fname

record list_ring =
  lr_sq :: "ring_op list"
  lr_cq :: "int list"

fun ring_exec :: "os \<Rightarrow> ring_op \<Rightarrow> disk \<Rightarrow> int \<times> disk" where
  "ring_exec os RNop d = (0, d)"
| "ring_exec os (RWrite f bs off) d = sys_pwrite os f bs off d"
| "ring_exec os (RFsync f) d = sys_fsync os f d"

fun ring_exec_all :: "os \<Rightarrow> ring_op list \<Rightarrow> disk \<Rightarrow> int list \<times> disk" where
  "ring_exec_all os [] d = ([], d)"
| "ring_exec_all os (x # xs) d =
     (let (res, d1) = ring_exec os x d; (ress, d2) = ring_exec_all os xs d1 in (res # ress, d2))"

definition list_uring :: "os \<Rightarrow> list_ring liburing" where
  "list_uring os =
     \<lparr>queue_init = (\<lambda>n b r. (0, \<lparr>lr_sq = [], lr_cq = []\<rparr>)),
      queue_exit = (\<lambda>r. \<lparr>lr_sq = [], lr_cq = []\<rparr>),
      get_sqe = (\<lambda>r. if length (lr_sq r) < IOURING_QUEUE_DEPTH
                     then (Some (length (lr_sq r)), r\<lparr>lr_sq := lr_sq r @ [RNop]\<rparr>) else (None, r)),
      prep_write = (\<lambda>q f bs n off r. r\<lparr>lr_sq := (lr_sq r)[q := RWrite f (take (unat n) bs) off]\<rparr>),
      prep_fsync = (\<lambda>q f r. r\<lparr>lr_sq := (lr_sq r)[q := RFsync f]\<rparr>),
      submit = (\<lambda>(r, d). let (ress, d') = ring_exec_all os (lr_sq r) d
                         in (\<lparr>lr_sq = [], lr_cq = lr_cq r @ ress\<rparr>, d')),
      wait_cqe = (\<lambda>(r, d). case lr_cq r of [] \<Rightarrow> None | res # _ \<Rightarrow> Some ((0, res), r, d)),
      cqe_seen = (\<lambda>r. r\<lparr>lr_cq := tl (lr_cq r)\<rparr>)\<rparr>"

section \<open>No operation blocks\<close>

text \<open>The invariant: \<open>pending_ops\<close> counts what is queued or in flight.\<close>

definition uio_inv :: "('r \<Rightarrow> nat) \<Rightarrow> ('r \<Rightarrow> nat) \<Rightarrow> uio_ctx \<times> 'r \<times> disk \<Rightarrow> bool" where
  "uio_inv queued inflight st =
     (let (c, r, d) = st in pending_ops c = (if use_uring c then int (queued r + inflight r) else 0))"

lemma ring_lawsD:
  assumes "ring_laws u queued inflight"
  shows "queue_init u n b r = (0, r') \<Longrightarrow> queued r' = 0 \<and> inflight r' = 0"
    and "get_sqe u r = (q, r') \<Longrightarrow>
      queued r' = (if q = None then queued r else Suc (queued r)) \<and> inflight r' = inflight r"
    and "queued (prep_write u p f bs m off r) = queued r"
    and "inflight (prep_write u p f bs m off r) = inflight r"
    and "queued (prep_fsync u p f r) = queued r" and "inflight (prep_fsync u p f r) = inflight r"
    and "submit u (r, d) = (r', d') \<Longrightarrow> queued r' + inflight r' = queued r + inflight r"
    and "0 < inflight r \<Longrightarrow> wait_cqe u (r, d) \<noteq> None"
    and "wait_cqe u (r, d) = Some (x, r', d') \<Longrightarrow> queued r' = queued r \<and> inflight r' = inflight r"
    and "queued (cqe_seen u r) = queued r" and "inflight (cqe_seen u r) = inflight r - 1"
  using assms unfolding ring_laws_def by (blast | metis)+

lemma ring_undisturbedD:
  assumes "ring_undisturbed u queued"
  shows "submit u s = (r', d') \<Longrightarrow> queued r' = 0"
    and "wait_cqe u s = Some ((rc, res), s') \<Longrightarrow> 0 \<le> rc"
proof -
  show "submit u s = (r', d') \<Longrightarrow> queued r' = 0"
    using assms unfolding ring_undisturbed_def by (metis fst_conv)
  show "wait_cqe u s = Some ((rc, res), s') \<Longrightarrow> 0 \<le> rc"
    using assms unfolding ring_undisturbed_def by blast
qed

lemma uring_reap_one:
  assumes "ring_laws u queued inflight" "ring_undisturbed u queued" "0 < inflight r"
  shows "\<exists>res r' d'. uring_reap u (r, d) = Some ((fst res, snd res), r', d') \<and> 0 \<le> fst res \<and>
    queued r' = queued r \<and> Suc (inflight r') = inflight r"
proof -
  obtain rc res r1 d1 where w: "wait_cqe u (r, d) = Some ((rc, res), r1, d1)"
    using ring_lawsD(8) [OF assms(1,3), of d] by (metis not_None_eq prod.collapse)
  then have "0 \<le> rc" "queued r1 = queued r" "inflight r1 = inflight r"
    using ring_undisturbedD(2) [OF assms(2) w] ring_lawsD(9) [OF assms(1) w] by auto
  with w assms(3) show ?thesis
    by (auto simp: uring_reap_def ring_lawsD(10,11) [OF assms(1)] intro!: exI [of _ "(rc, res)"])
qed

lemma sync_loop_drains:
  assumes "ring_laws u queued inflight" "ring_undisturbed u queued"
  shows "n \<le> inflight r \<Longrightarrow>
    \<exists>r' d'. sync_loop u n (r, d) = Some (r', d') \<and> queued r' = queued r \<and> inflight r' = inflight r - n"
proof (induction n arbitrary: r d)
  case (Suc n)
  then obtain x r1 d1 where "uring_reap u (r, d) = Some (x, r1, d1)" "queued r1 = queued r"
    "Suc (inflight r1) = inflight r"
    using uring_reap_one [OF assms, of r d] by auto
  with Suc.IH [of r1 d1] Suc.prems show ?case by fastforce
qed simp

lemma submit_all:
  assumes "ring_laws u queued inflight" "ring_undisturbed u queued"
  obtains r' d' where "submit u (r, d) = (r', d')" "queued r' = 0" "inflight r' = queued r + inflight r"
proof -
  obtain r' d' where s: "submit u (r, d) = (r', d')" by fastforce
  moreover have "queued r' = 0" by (rule ring_undisturbedD(1) [OF assms(2) s])
  ultimately show ?thesis using ring_lawsD(7) [OF assms(1) s] that by auto
qed

lemma uring_open_inv:
  assumes "ring_laws u queued inflight" "uring_open u c_ok open_ok name s = (Inr c, s')"
  shows "uio_inv queued inflight (c, s')"
  using assms(2)
  by (auto simp: uring_open_def uio_inv_def Let_def split: prod.splits if_splits
      dest: ring_lawsD(1) [OF assms(1)])

lemma uring_pwrite_step:
  assumes laws: "ring_laws u queued inflight" "ring_undisturbed u queued"
    and "uio_inv queued inflight (c, r, d)" "unat offset \<le> INT64_MAX"
  shows "\<exists>rc r' d'. uring_pwrite u os c buf offset (r, d) = Some (rc, r', d') \<and>
    uio_inv queued inflight (c, r', d')"
proof (cases "use_uring c")
  case True
  obtain q r1 where q: "get_sqe u r = (q, r1)" by fastforce
  note q1 = ring_lawsD(2) [OF laws(1) q]
  show ?thesis
  proof (cases q)
    case None
    with True q q1 assms(3) show ?thesis by (simp add: uring_pwrite_def uio_inv_def)
  next
    case (Some p)
    let ?r = "prep_write u p (uio_fd c) buf (of_nat (length buf)) (unat offset) r1"
    obtain r2 d2 where s: "submit u (?r, d) = (r2, d2)" "queued r2 = 0"
      "inflight r2 = Suc (queued r + inflight r)"
      using submit_all [OF laws, of ?r d] q1 Some by (auto simp: ring_lawsD(3,4) [OF laws(1)])
    then obtain res r3 d3 where "uring_reap u (r2, d2) = Some (res, r3, d3)" "queued r3 = 0"
      "inflight r3 = queued r + inflight r"
      using uring_reap_one [OF laws, of r2 d2] by auto
    with True q Some s(1) assms(3,4) show ?thesis
      by (cases res) (simp add: uring_pwrite_def uio_inv_def fastkv_offset_to_offt_def)
  qed
next
  case False
  with assms(3) show ?thesis by (auto simp: uring_pwrite_def uio_inv_def split: prod.splits)
qed

lemma uring_pwrite_async_step:
  assumes laws: "ring_laws u queued inflight"
    and "uio_inv queued inflight (c, r, d)" "unat offset \<le> INT64_MAX"
  shows "uio_inv queued inflight (snd (uring_pwrite_async u os c buf offset (r, d)))"
  using assms(2,3)
  by (auto simp: uring_pwrite_async_def uio_inv_def fastkv_offset_to_offt_def Let_def ring_lawsD(3,4) [OF laws]
      split: prod.splits option.splits dest!: ring_lawsD(2) [OF laws] ring_lawsD(7) [OF laws])

text \<open>A sync returns and leaves nothing behind.\<close>

lemma uring_sync_step:
  assumes laws: "ring_laws u queued inflight" "ring_undisturbed u queued"
    and "uio_inv queued inflight (c, r, d)"
  shows "\<exists>rc c' r' d'. uring_sync u os c (r, d) = Some (rc, c', r', d') \<and> pending_ops c' = 0 \<and>
    (use_uring c' \<longrightarrow> queued r' = 0 \<and> inflight r' = 0)"
proof (cases "use_uring c")
  case True
  obtain q r0 where q: "get_sqe u r = (q, r0)" by fastforce
  define r1 where "r1 = (case q of None \<Rightarrow> r0 | Some p \<Rightarrow> prep_fsync u p (uio_fd c) r0)"
  define n where "n = (case q of None \<Rightarrow> pending_ops c | Some p \<Rightarrow> pending_ops c + 1)"
  have n: "n = int (queued r1 + inflight r1)"
    using ring_lawsD(2) [OF laws(1) q] True assms(3)
    by (auto simp: n_def r1_def uio_inv_def ring_lawsD(5,6) [OF laws(1)] split: option.splits)
  obtain r2 d2 where s: "submit u (r1, d) = (r2, d2)" "queued r2 = 0" "inflight r2 = queued r1 + inflight r1"
    by (rule submit_all [OF laws])
  obtain r3 d3 where "sync_loop u (nat n) (r2, d2) = Some (r3, d3)" "queued r3 = 0" "inflight r3 = 0"
    using sync_loop_drains [OF laws, of "nat n" r2 d2] s n by (auto simp: nat_int_add)
  then show ?thesis using True q s(1)
    by (auto simp: uring_sync_def n_def r1_def split: option.splits)
next
  case False
  with assms(3) show ?thesis by (auto simp: uring_sync_def uio_inv_def split: prod.splits)
qed

lemma uio_step_inv:
  assumes "ring_laws u queued inflight" "ring_undisturbed u queued"
    and "uio_inv queued inflight (c, r, d)" "op_in_range op"
  shows "\<exists>rc st'. uio_step u os op (c, r, d) = Some (rc, st') \<and> uio_inv queued inflight st'"
proof (cases op)
  case (UPwrite buf offset)
  with uring_pwrite_step [OF assms(1-3), of offset os buf] assms(4) show ?thesis by fastforce
next
  case (UAsync buf offset)
  with uring_pwrite_async_step [OF assms(1,3), of offset os buf] assms(4) show ?thesis
    by (cases "uring_pwrite_async u os c buf offset (r, d)") auto
next
  case USync
  with uring_sync_step [OF assms(1-3), of os] show ?thesis by (fastforce simp: uio_inv_def)
qed

lemma uio_run_inv:
  assumes "ring_laws u queued inflight" "ring_undisturbed u queued"
  shows "uio_inv queued inflight st \<Longrightarrow> \<forall>op \<in> set ops. op_in_range op \<Longrightarrow>
    \<exists>rcs st'. uio_run u os ops st = Some (rcs, st') \<and> uio_inv queued inflight st'"
proof (induction ops arbitrary: st)
  case (Cons op ops)
  obtain c r d where st: "st = (c, r, d)" by (cases st)
  then obtain rc st1 where "uio_step u os op st = Some (rc, st1)" "uio_inv queued inflight st1"
    using uio_step_inv [OF assms, of c r d op os] Cons.prems by auto
  with Cons.IH [of st1] Cons.prems(2) show ?case by fastforce
qed simp

lemma uio_run_append:
  "uio_run u os (xs @ ys) st =
     (case uio_run u os xs st of
        None \<Rightarrow> None
      | Some (rcs, st') \<Rightarrow> (case uio_run u os ys st' of None \<Rightarrow> None | Some (rcs', st'') \<Rightarrow> Some (rcs @ rcs', st'')))"
  by (induction xs arbitrary: st) (auto split: option.splits)

lemma uio_run_length: "uio_run u os ops st = Some (rcs, st') \<Longrightarrow> length rcs = length ops"
  by (induction ops arbitrary: st rcs) (auto split: option.splits)

text \<open>The ring above obeys the laws.\<close>

lemma length_ring_exec_all: "length (fst (ring_exec_all os xs d)) = length xs"
  by (induction xs arbitrary: d) (auto simp: Let_def split: prod.splits, metis fst_conv)

lemma list_uring_laws: "ring_laws (list_uring os) (\<lambda>r. length (lr_sq r)) (\<lambda>r. length (lr_cq r))"
  using length_ring_exec_all [of os]
  by (auto simp: ring_laws_def list_uring_def Let_def split: prod.splits list.splits if_splits) (metis fst_conv)

lemma list_uring_undisturbed: "ring_undisturbed (list_uring os) (\<lambda>r. length (lr_sq r))"
  by (auto simp: ring_undisturbed_def list_uring_def Let_def split: prod.splits list.splits)


text \<open>
  Property C27: over rings that obey liburing's documented accounting, whose submissions take every entry and whose waits
  are not interrupted, a context of the io_uring backend never blocks: from \<^verbatim>\<open>fastkv_io_open\<close> on, any sequence
  of synchronous writes, asynchronous writes and syncs whose offsets fit \<^verbatim>\<open>off_t\<close> runs to its end, and a sync
  after it returns with no operation queued or in flight and \<open>pending_ops = 0\<close>.  The disk operations themselves
  may fail and the queue may refuse entries.
\<close>

theorem uring_never_blocks:
  assumes "ring_laws u queued inflight" "ring_undisturbed u queued"
    and "uring_open u c_ok open_ok name s0 = (Inr c, s)"
    and "\<forall>op \<in> set ops. op_in_range op"
  shows "\<exists>rcs c' r' d'. uio_run u os (ops @ [USync]) (c, s) = Some (rcs, c', r', d') \<and>
    length rcs = Suc (length ops) \<and> pending_ops c' = 0 \<and>
    (use_uring c' \<longrightarrow> queued r' = 0 \<and> inflight r' = 0)"
proof -
  obtain rcs c1 r1 d1 where run: "uio_run u os ops (c, s) = Some (rcs, c1, r1, d1)"
    and inv: "uio_inv queued inflight (c1, r1, d1)"
    using uio_run_inv [OF assms(1,2) uring_open_inv [OF assms(1,3)] assms(4), of os] by auto
  from run have "length rcs = length ops" by (rule uio_run_length)
  with uring_sync_step [OF assms(1,2) inv, of os] run show ?thesis
    by (fastforce simp: uio_run_append)
qed

text \<open>Two asynchronous writes, of which the second fails, and a synchronous one.\<close>

definition uring_disk :: disk where
  "uring_disk = \<lparr>files = (\<lambda>_. None), durable = (\<lambda>_. None), calls = 0\<rparr>"

definition uring_os :: os where
  "uring_os n = (if n = 1 then SysErr else SysOk)"

definition uring_ctx :: uio_ctx where
  "uring_ctx = \<lparr>uio_fd = [102], use_uring = True, pending_ops = 0\<rparr>"

definition uring_ops :: "uio_op list" where
  "uring_ops = [UAsync [1, 2] 0, UAsync [3] 2, UPwrite [4] 3]"

definition empty_ring :: list_ring where
  "empty_ring = \<lparr>lr_sq = [], lr_cq = []\<rparr>"

lemma uring_open_sample:
  "uring_open (list_uring os) True True [102] (empty_ring, uring_disk) =
     (Inr uring_ctx, empty_ring, uring_disk\<lparr>files := [[102] \<mapsto> []]\<rparr>)"
  by (simp add: uring_open_def list_uring_def fastkv_io_open_def uring_disk_def uring_ctx_def empty_ring_def)

theorem uring_never_blocks_witness:
  "\<exists>rcs c' r' d'.
     uio_run (list_uring uring_os) uring_os (uring_ops @ [USync])
       (uring_ctx, empty_ring, uring_disk\<lparr>files := [[102] \<mapsto> []]\<rparr>) = Some (rcs, c', r', d') \<and>
     length rcs = Suc (length uring_ops) \<and> pending_ops c' = 0 \<and> (use_uring c' \<longrightarrow> lr_sq r' = [] \<and> lr_cq r' = [])"
proof -
  have "\<forall>op \<in> set uring_ops. op_in_range op" by (simp add: uring_ops_def INT64_MAX_def)
  from uring_never_blocks [OF list_uring_laws list_uring_undisturbed uring_open_sample this, of uring_os]
  show ?thesis by (simp only: length_0_conv)
qed

section \<open>What the completions say and the code ignores\<close>

lemmas uring_eval =
  uring_pwrite_def uring_pwrite_async_def uring_sync_def uring_reap_def list_uring_def
  fastkv_offset_to_offt_def INT64_MAX_def sys_pwrite_def sys_fsync_def IOURING_QUEUE_DEPTH_def
  empty_ring_def Let_def

text \<open>
  With empty queues, a write the system carries out whole or refuses gives the same error code and the same
  disk as the POSIX backend, up to 4 GB.
\<close>

lemma uring_pwrite_eq_posix:
  assumes "use_uring c" "length buf < 2 ^ 32" "\<forall>n. os (calls d) \<noteq> SysShort n" "unat offset \<le> INT64_MAX"
  shows "uring_pwrite (list_uring os) os c buf offset (empty_ring, d) =
    (case fastkv_io_pwrite os (uio_fd c) buf offset d of (rc, d') \<Rightarrow> Some (rc, empty_ring, d'))"
proof -
  have "unat (of_nat (length buf) :: 32 word) = length buf"
    using assms(2) by (simp add: unsigned_of_nat take_bit_nat_eq_self)
  with assms show ?thesis
    by (auto simp: uring_eval fastkv_io_pwrite_def split: option.splits sysres.splits)
qed

text \<open>A short write: POSIX reports an error, the ring backend success.\<close>

lemma uring_accepts_short_write:
  assumes "use_uring c" "length buf < 2 ^ 32" "os (calls d) = SysShort n" "n < length buf"
    and "unat offset \<le> INT64_MAX" "files d (uio_fd c) = Some f"
  shows "fst (the (uring_pwrite (list_uring os) os c buf offset (empty_ring, d))) = FASTKV_OK"
    and "fst (fastkv_io_pwrite os (uio_fd c) buf offset d) = FASTKV_ERR_IO"
    and "files (snd (snd (the (uring_pwrite (list_uring os) os c buf offset (empty_ring, d))))) (uio_fd c) =
      Some (file_put f (unat offset) (take n buf))"
proof -
  have "unat (of_nat (length buf) :: 32 word) = length buf"
    using assms(2) by (simp add: unsigned_of_nat take_bit_nat_eq_self)
  with assms show "fst (the (uring_pwrite (list_uring os) os c buf offset (empty_ring, d))) = FASTKV_OK"
    "fst (fastkv_io_pwrite os (uio_fd c) buf offset d) = FASTKV_ERR_IO"
    "files (snd (snd (the (uring_pwrite (list_uring os) os c buf offset (empty_ring, d))))) (uio_fd c) =
      Some (file_put f (unat offset) (take n buf))"
    by (auto simp: uring_eval fastkv_io_pwrite_def)
qed

text \<open>A failed sync: the ring backend answers \<^verbatim>\<open>FASTKV_OK\<close> though nothing has become durable.\<close>

lemma uring_sync_hides_failure:
  assumes "use_uring c" "pending_ops c = 0" "os (calls d) = SysErr"
  shows "uring_sync (list_uring os) os c (empty_ring, d) = Some (FASTKV_OK, c, empty_ring, d\<lparr>calls := calls d + 1\<rparr>)"
    and "fst (fastkv_io_sync os (uio_fd c) d) = FASTKV_ERR_IO"
  using assms by (simp_all add: uring_eval fastkv_io_sync_def)

text \<open>
  An offset that does not fit \<^verbatim>\<open>off_t\<close> is refused after an entry has been taken from the queue.  The next write
  submits that entry too and reads its completion in place of its own: its failure is reported as success.
\<close>

lemma uring_pwrite_reads_wrong_completion:
  assumes "use_uring c" "INT64_MAX < unat bad" "unat offset \<le> INT64_MAX" "os (calls d) = SysErr"
  shows "\<exists>r d'. uring_pwrite (list_uring os) os c buf bad (empty_ring, d) = Some (FASTKV_ERR_INVAL, r, d) \<and>
    uring_pwrite (list_uring os) os c buf offset (r, d) = Some (FASTKV_OK, d') \<and>
    files (snd d') = files d"
  using assms by (auto simp: uring_eval split: option.splits)

end
