(* ===== verification/Repl_Client.thy ===== *)
theory Repl_Client
  imports Crash
begin

text \<open>
  \<open>repl/repl_client.c\<close>: the replica.  A connection is the list of bytes that arrive on it before it ends; how many of
  them each \<^verbatim>\<open>recv\<close> returns is an argument.  The two-second pauses are left out;
  \<open>serve_connection\<close> is one turn of the loop of \<^verbatim>\<open>receiver_thread\<close> after \<^verbatim>\<open>connect\<close>, \<open>receiver_thread\<close> the loop.

  \<^term>\<open>None\<close> stands for a read outside the received payload.

  Shown here: whatever prefix of the primary's stream arrives, in whatever pieces, the replica applies exactly the
  complete records in it, in order, and ends up with the table and the ordered tree those records describe.
\<close>

section \<open>Model\<close>

text \<open>
  \<^verbatim>\<open>recv_all\<close>: call \<open>i\<close> of \<^verbatim>\<open>recv\<close> returns \<open>rs i\<close>, but at most what has been asked for and what arrives; 0 is the end
  of the connection.  The result has the bytes read so far, the rest of the input and the next call.
\<close>

function recv_all :: "(nat \<Rightarrow> int) \<Rightarrow> nat \<Rightarrow> bytes \<Rightarrow> nat \<Rightarrow> bool \<times> bytes \<times> bytes \<times> nat" where
  "recv_all rs i inp len =
     (if len = 0 then (True, [], inp, i)
      else
        let n = min (rs i) (int (min len (length inp)))
        in if n \<le> 0 then (False, [], inp, Suc i)
           else case recv_all rs (Suc i) (drop (nat n) inp) (len - nat n) of
                  (ok, buf, rest, j) \<Rightarrow> (ok, take (nat n) inp @ buf, rest, j))"
  by pat_completeness auto
termination
  by (relation "measure (\<lambda>(rs, i, inp, len). len)") (auto simp: Let_def)

declare recv_all.simps [simp del]

text \<open>
  \<^verbatim>\<open>apply_wal_record\<close>: the length test lets payloads of 17 to 20 bytes pass although 21 are read.  The results of the
  table operations are ignored, and the clock advances for every record whose checksum is right.
\<close>

definition apply_wal_record :: "ht_env \<Rightarrow> fastkv_db \<Rightarrow> bytes \<Rightarrow> fastkv_db option" where
  "apply_wal_record env db buf =
     (if length buf < 17 then Some db
      else if length buf < 21 then None
      else
        let file_crc = le_dec (take 4 buf) :: u32;
            ty = take 1 (drop 4 buf);
            tsb = take 8 (drop 5 buf);
            kl = take 4 (drop 13 buf);
            vl = take 4 (drop 17 buf);
            p = drop 21 buf;
            klen = unat (le_dec kl :: u32);
            vlen = (le_dec vl :: u32);
            real_vlen = (if vlen = WAL_VLEN_TOMBSTONE then 0 else unat vlen)
        in if 21 + klen + real_vlen > length buf then Some db
           else
             let key = take klen p;
                 val = take real_vlen (drop klen p);
                 computed = fastkv_crc32c 0 ty;
                 computed = fastkv_crc32c computed tsb;
                 computed = fastkv_crc32c computed kl;
                 computed = fastkv_crc32c computed vl;
                 computed = (if klen \<noteq> 0 then fastkv_crc32c computed key else computed);
                 computed = (if real_vlen \<noteq> 0 then fastkv_crc32c computed val else computed)
             in if computed \<noteq> file_crc then Some db
                else
                  let ts = le_dec tsb :: u64;
                      v = (if vlen = WAL_VLEN_TOMBSTONE then FASTKV_SLICE_NULL else Some val);
                      db1 = (if hd ty = rec_code WAL_REC_PUT
                             then db\<lparr>tbl := snd (fastkv_ht_put env (tbl db) ts key v),
                                     tree := fastkv_btree_insert (tree db) (Some key) v\<rparr>
                             else if hd ty = rec_code WAL_REC_DELETE
                             then db\<lparr>tbl := snd (fastkv_ht_delete env (tbl db) ts key),
                                     tree := snd (fastkv_btree_delete (tree db) (Some key))\<rparr>
                             else db)
                  in Some (advance_clock db1 (ts + 1)))"

text \<open>What the environment of a connection decides: \<^verbatim>\<open>recv\<close>, the stop flag, the payload buffer, the table's memory.\<close>

record conn_env =
  cn_recv :: "nat \<Rightarrow> int"
  cn_stop :: "nat \<Rightarrow> bool"
  cn_mem :: "nat \<Rightarrow> bool"
  cn_ht :: "nat \<Rightarrow> ht_env"

definition max_payload :: nat where
  "max_payload = FASTKV_MAX_KEY_LEN + FASTKV_MAX_VAL_LEN + 32"

definition read_hdr :: "bytes \<Rightarrow> repl_frame_hdr" where
  "read_hdr b = \<lparr>h_magic = le_dec (take 4 b), h_payload_len = le_dec (take 4 (drop 4 b)), h_offset = le_dec (drop 8 b)\<rparr>"

lemma recv_all_rest: "recv_all rs i inp len = (True, buf, rest, j) \<Longrightarrow> inp = buf @ rest \<and> length buf = len"
proof (induction rs i inp len arbitrary: buf rest j rule: recv_all.induct)
  case (1 rs i inp len)
  let ?n = "min (rs i) (int (min len (length inp)))"
  show ?case
  proof (cases "len = 0 \<or> ?n \<le> 0")
    case True
    then show ?thesis using "1.prems" by (auto simp: recv_all.simps [of rs i inp len] Let_def split: if_splits)
  next
    case False
    then obtain buf' where r: "recv_all rs (Suc i) (drop (nat ?n) inp) (len - nat ?n) = (True, buf', rest, j)"
        "buf = take (nat ?n) inp @ buf'"
      using "1.prems" by (auto simp: recv_all.simps [of rs i inp len] Let_def split: prod.splits)
    have nz: "len \<noteq> 0 \<and> \<not> ?n \<le> 0" using False unfolding de_Morgan_disj .
    have "drop (nat ?n) inp = buf' @ rest \<and> length buf' = len - nat ?n"
      by (rule "1.IH" [OF conjunct1 [OF nz] refl conjunct2 [OF nz] r(1)])
    note d = conjunct1 [OF this] conjunct2 [OF this]
    have n: "nat ?n \<le> len" "nat ?n \<le> length inp" by auto
    have "buf @ rest = take (nat ?n) inp @ drop (nat ?n) inp" unfolding r(2) d(1) by (rule append_assoc)
    moreover have "length buf = len" unfolding r(2) length_append length_take d(2) using n by linarith
    ultimately show ?thesis by (simp only: append_take_drop_id)
  qed
qed

text \<open>
  The inner loop of \<^verbatim>\<open>receiver_thread\<close>; \<open>k\<close> counts its turns.
\<close>

function receive_frames ::
  "conn_env \<Rightarrow> nat \<Rightarrow> nat \<Rightarrow> bytes \<Rightarrow> fastkv_db \<Rightarrow> fastkv_repl_client \<Rightarrow> (fastkv_db \<times> fastkv_repl_client) option" where
  "receive_frames env k i inp db cli =
     (if cn_stop env k then Some (db, cli)
      else case recv_all (cn_recv env) i inp 16 of
             (False, _) \<Rightarrow> Some (db, cli)
           | (True, hb, inp1, i1) \<Rightarrow>
               let hdr = read_hdr hb
               in if h_magic hdr \<noteq> REPL_MAGIC then Some (db, cli)
                  else if h_payload_len hdr = 0
                  then receive_frames env (Suc k) i1 inp1 db (cli\<lparr>cli_primary_offset := h_offset hdr\<rparr>)
                  else if unat (h_payload_len hdr) > max_payload then Some (db, cli)
                  else if \<not> cn_mem env k then Some (db, cli)
                  else (case recv_all (cn_recv env) i1 inp1 (unat (h_payload_len hdr)) of
                          (False, _) \<Rightarrow> Some (db, cli)
                        | (True, payload, inp2, i2) \<Rightarrow>
                            (case apply_wal_record (cn_ht env k) db payload of
                               None \<Rightarrow> None
                             | Some db' \<Rightarrow>
                                 receive_frames env (Suc k) i2 inp2 db'
                                   (cli\<lparr>bytes_received := bytes_received cli + ucast (h_payload_len hdr),
                                        cli_primary_offset := h_offset hdr\<rparr>))))"
  by pat_completeness auto
termination
  by (relation "measure (\<lambda>(env, k, i, inp, db, cli). length inp)") (auto dest!: recv_all_rest [OF sym])

declare receive_frames.simps [simp del]

text \<open>One connection: the greeting, the frames, and the disconnection.\<close>

definition serve_connection ::
  "conn_env \<Rightarrow> bytes \<Rightarrow> fastkv_db \<Rightarrow> fastkv_repl_client \<Rightarrow> (fastkv_db \<times> fastkv_repl_client) option" where
  "serve_connection env inp db cli =
     (let cli = cli\<lparr>cli_connected := True\<rparr>
      in case recv_all (cn_recv env) 0 inp 16 of
           (ok, hb, inp1, i1) \<Rightarrow>
             map_option (\<lambda>(db, cli). (db, cli\<lparr>cli_connected := False\<rparr>))
               (if \<not> ok \<or> h_magic (read_hdr hb) \<noteq> REPL_MAGIC then Some (db, cli)
                else receive_frames env 0 i1 inp1 db (cli\<lparr>cli_primary_offset := h_offset (read_hdr hb)\<rparr>)))"

definition fastkv_repl_client_destroy :: "fastkv_repl_client \<Rightarrow> fastkv_repl_client" where
  "fastkv_repl_client_destroy cli = cli\<lparr>cli_stop := True, cli_connected := False\<rparr>"

section \<open>Receiving\<close>

lemma recv_all_total:
  "(\<forall>i. rs i > 0) \<Longrightarrow> len \<le> length inp \<Longrightarrow> fst (recv_all rs i inp len)"
proof (induction rs i inp len rule: recv_all.induct)
  case (1 rs i inp len)
  let ?n = "min (rs i) (int (min len (length inp)))"
  show ?case
  proof (cases "len = 0")
    case False
    have "rs i > 0" using "1.prems"(1) by blast
    moreover have "len \<le> length inp" by (rule "1.prems"(2))
    ultimately have n: "\<not> ?n \<le> 0" using False by linarith
    have "fst (recv_all rs (Suc i) (drop (nat ?n) inp) (len - nat ?n))"
      using "1.prems" by (intro "1.IH" [OF False refl n]) (auto simp: min_def)
    then show ?thesis
      using False n by (subst recv_all.simps) (simp only: Let_def if_False case_prod_unfold fst_conv)
  qed (simp add: recv_all.simps)
qed

text \<open>The replica's reading of a record agrees with the primary's encoding of it.\<close>

lemma apply_rec:
  assumes "rec_fits k v" "rec_typed (ty, ts, k, v)" "ht_wf (tbl db)" "ht_upto (tbl db) ts" "ts < FASTKV_TS_MAX" "env_ok env"
  shows "apply_wal_record env db (rec_enc ty ts k v) =
    Some (advance_clock (db\<lparr>tbl := ht_write (tbl db) ts k v, tree := tree_write (tree db) k v\<rparr>) (ts + 1))"
proof -
  let ?kl = "le32 (of_nat (length k))" and ?vl = "le32 (rec_vlen v)" and ?c = "rec_crc (rec_code ty) ts k v"
  define buf where "buf = rec_enc ty ts k v"
  have b: "buf = le32 ?c @ [rec_code ty] @ le64 ts @ ?kl @ ?vl @ k @ slice_bytes v"
    by (simp add: buf_def rec_enc_body rec_body_def)
  note len = rec_fits_lengths [OF assms(1)]
  have fields: "le_dec (take 4 buf) = ?c" "take 1 (drop 4 buf) = [rec_code ty]" "take 8 (drop 5 buf) = le64 ts"
      "take 4 (drop 13 buf) = ?kl" "take 4 (drop 17 buf) = ?vl" "drop 21 buf = k @ slice_bytes v"
    by (simp_all add: b)
  have l: "length buf = 21 + length k + slice_len v" by (simp add: b)
  have nums: "unat (le_dec ?kl :: u32) = length k" "le_dec ?vl = rec_vlen v" "le_dec (le64 ts) = ts"
      "(if rec_vlen v = WAL_VLEN_TOMBSTONE then 0 else unat (rec_vlen v)) = slice_len v"
    using len by (simp_all split: if_splits)
  have cuts: "take (length k) (k @ slice_bytes v) = k" "take (slice_len v) (drop (length k) (k @ slice_bytes v)) = slice_bytes v"
    by simp_all
  have crc: "(let c = fastkv_crc32c (fastkv_crc32c (fastkv_crc32c (fastkv_crc32c 0 [rec_code ty]) (le64 ts)) ?kl) ?vl;
      c = (if length k \<noteq> 0 then fastkv_crc32c c k else c)
      in if slice_len v \<noteq> 0 then fastkv_crc32c c (slice_bytes v) else c) = ?c"
    by (simp add: rec_crc_def Let_def)
  have val: "(if rec_vlen v = WAL_VLEN_TOMBSTONE then FASTKV_SLICE_NULL else Some (slice_bytes v)) = v"
    using len(3) by (cases v) auto
  have ins: "ht_insert_version env (tbl db) ts k x = (FASTKV_OK, ht_write (tbl db) ts k x)" for x
    by (rule insert_version_write [OF assms(3-6)])
  have ty: "rec_code ty = rec_code WAL_REC_PUT \<longleftrightarrow> v \<noteq> None" "rec_code ty = rec_code WAL_REC_DELETE \<longleftrightarrow> v = None"
    using assms(2) by auto
  have small: "\<not> length buf < 17" "\<not> length buf < 21" "\<not> 21 + length k + slice_len v > length buf" by (simp_all add: l)
  show ?thesis
    unfolding buf_def [symmetric] apply_wal_record_def Let_def fields nums cuts small if_False val
      crc [unfolded Let_def] list.sel ty
    by (cases "v = None") (simp_all add: l fastkv_ht_put_def fastkv_ht_delete_def ins tree_write_def)
qed

section \<open>The stream of records\<close>

definition carries :: "repl_queued_frame list \<Rightarrow> wrec list \<Rightarrow> bool" where
  "carries fs rs \<longleftrightarrow> list_all2 (\<lambda>f r. f_data f = enc r \<and> f_len f = of_nat (length (enc r))) fs rs"

text \<open>A connection on which nothing fails.\<close>

definition smooth :: "conn_env \<Rightarrow> bool" where
  "smooth env \<longleftrightarrow> (\<forall>i. cn_recv env i > 0) \<and> (\<forall>k. \<not> cn_stop env k) \<and> (\<forall>k. cn_mem env k)"

lemma read_hdr_bytes: "read_hdr (hdr_bytes h) = h"
  by (simp add: read_hdr_def hdr_bytes_def)

lemma length_hdr_bytes [simp]: "length (hdr_bytes h) = 16"
  by (simp add: hdr_bytes_def)

text \<open>What a successful read takes from a prefix of a stream, and when it succeeds.\<close>

lemma recv_all_prefix:
  assumes "recv_all rs i inp (length a) = (True, buf, rest, j)" "prefix inp (a @ b)"
  shows "buf = a \<and> prefix rest b \<and> length inp = length a + length rest \<and> (inp = a @ b \<longrightarrow> rest = b)"
proof -
  have inp: "inp = buf @ rest" "length buf = length a" using recv_all_rest [OF assms(1)] by auto
  then show ?thesis using assms(2) by (auto simp: prefix_def append_eq_append_conv)
qed

lemma recv_all_full:
  assumes "\<forall>i. rs i > 0" "recv_all rs i (a @ b) (length a) = (ok, buf, rest, j)"
  shows "ok"
  using recv_all_total [OF assms(1), of "length a" "a @ b" i] assms(2) by simp

lemma length_enc: "fits r \<Longrightarrow> 0 < length (enc r) \<and> length (enc r) \<le> max_payload \<and> unat (of_nat (length (enc r)) :: u32) = length (enc r)"
proof -
  assume f: "fits r"
  obtain ty ts k v where r: "r = (ty, ts, k, v)" by (metis prod_cases4)
  have l: "length (enc r) = 21 + length k + slice_len v" by (simp add: r enc_def rec_enc_body length_rec_body)
  have "length (enc r) \<le> max_payload" unfolding l max_payload_def using f by (simp add: r fits_def rec_fits_def)
  moreover have "max_payload < 2 ^ 32" by (simp add: max_payload_def FASTKV_MAX_KEY_LEN_def FASTKV_MAX_VAL_LEN_def)
  ultimately have "unat (of_nat (length (enc r)) :: u32) = length (enc r)"
    by (simp add: unsigned_of_nat take_bit_nat_eq_self)
  then show ?thesis using \<open>length (enc r) \<le> max_payload\<close> l by simp
qed

lemma apply_enc:
  assumes "fits r" "rec_typed r" "ht_wf (tbl db)" "ht_upto (tbl db) (rec_ts r)" "rec_ts r < FASTKV_TS_MAX" "env_ok env"
  shows "apply_wal_record env db (enc r) =
    Some (advance_clock (db\<lparr>tbl := rec_write (tbl db) r, tree := rec_tree (tree db) r\<rparr>) (rec_ts r + 1))"
proof -
  obtain ty ts k v where r: "r = (ty, ts, k, v)" by (metis prod_cases4)
  show ?thesis using apply_rec [of k v ty ts db env] assms by (simp add: r enc_def fits_def)
qed

text \<open>What receiving the frames \<open>fs\<close> makes of the replica: the first \<open>n\<close> records are applied.\<close>

definition applied :: "nat \<Rightarrow> wrec list \<Rightarrow> fastkv_db \<Rightarrow> fastkv_db \<Rightarrow> bool" where
  "applied n rs db db' \<longleftrightarrow> n \<le> length rs \<and> tbl db' = foldl rec_write (tbl db) (take n rs)
     \<and> tree db' = foldl rec_tree (tree db) (take n rs) \<and> db_clock db \<le> db_clock db'
     \<and> (\<forall>r \<in> set (take n rs). rec_ts r < db_clock db')"

lemma applied_0: "applied 0 rs db db"
  by (simp add: applied_def)

lemma applied_Suc:
  assumes "rec_ts r < FASTKV_TS_MAX"
    "applied n rs (advance_clock (db\<lparr>tbl := rec_write (tbl db) r, tree := rec_tree (tree db) r\<rparr>) (rec_ts r + 1)) db'"
  shows "applied (Suc n) (r # rs) db db'"
proof -
  have "rec_ts r < rec_ts r + 1" using assms(1) unfolding FASTKV_TS_MAX_def by (unat_arith; simp)
  then show ?thesis using assms(2) by (auto simp: applied_def advance_clock_def intro: less_le_trans)
qed

lemma receive_prefix:
  assumes "carries fs rs" "\<forall>r \<in> set rs. fits r \<and> rec_typed r" "chrono c rs" "ht_wf (tbl db)" "ht_upto (tbl db) c"
    "\<forall>k. env_ok (cn_ht env k)" "prefix inp (enc_frames fs)"
  shows "\<exists>n db' cli'. receive_frames env k i inp db cli = Some (db', cli') \<and> applied n rs db db'
    \<and> length (enc_frames (take n fs)) \<le> length inp \<and> (smooth env \<and> inp = enc_frames fs \<longrightarrow> n = length rs)"
  using assms unfolding carries_def
proof (induction fs rs arbitrary: c k i inp db cli rule: list_all2_induct)
  case Nil
  then have "inp = []" by simp
  then have "\<not> fst (recv_all (cn_recv env) i inp 16)" by (subst recv_all.simps) (simp add: Let_def)
  then have "receive_frames env k i inp db cli = Some (db, cli)"
    by (subst receive_frames.simps) (auto split: prod.split bool.split)
  then show ?case using applied_0 by auto
next
  case (Cons f fs r rs)
  let ?h = "hdr_bytes (frame_hdr f)" and ?db = "advance_clock (db\<lparr>tbl := rec_write (tbl db) r, tree := rec_tree (tree db) r\<rparr>) (rec_ts r + 1)"
  have r: "fits r" "rec_typed r" "c \<le> rec_ts r" "rec_ts r < FASTKV_TS_MAX" "chrono (rec_ts r) rs"
      "f_data f = enc r" "f_len f = of_nat (length (enc r))"
    using Cons.prems Cons.hyps by (auto simp: chrono_Cons)
  note len = length_enc [OF r(1)]
  have nz: "(of_nat (length (enc r)) :: u32) \<noteq> 0" using len by (metis less_numeral_extra(3) unat_0)
  have up: "ht_upto (tbl db) (rec_ts r)" using hts.upto_mono Cons.prems(4) r(3) by blast
  have inp: "prefix inp (?h @ enc r @ enc_frames fs)" using Cons.prems(6) by (simp add: frame_bytes_def r(6))
  obtain ok1 hb inp1 i1 where r1: "recv_all (cn_recv env) i inp (length ?h) = (ok1, hb, inp1, i1)" by (metis prod_cases4)
  obtain ok2 pl inp2 i2 where r2: "recv_all (cn_recv env) i1 inp1 (length (enc r)) = (ok2, pl, inp2, i2)" by (metis prod_cases4)
  show ?case
  proof (cases "\<not> cn_stop env k \<and> ok1 \<and> cn_mem env k \<and> ok2")
    case True
    then have p1: "hb = ?h" "prefix inp1 (enc r @ enc_frames fs)" "length inp = 16 + length inp1"
        "inp = ?h @ enc r @ enc_frames fs \<longrightarrow> inp1 = enc r @ enc_frames fs"
      using recv_all_prefix [OF _ inp] r1 by auto
    have p2: "pl = enc r" "prefix inp2 (enc_frames fs)" "length inp1 = length (enc r) + length inp2"
        "inp1 = enc r @ enc_frames fs \<longrightarrow> inp2 = enc_frames fs"
      using recv_all_prefix [OF _ p1(2)] r2 True by auto
    let ?cli = "cli\<lparr>bytes_received := bytes_received cli + ucast (f_len f), cli_primary_offset := f_offset f\<rparr>"
    have app: "apply_wal_record (cn_ht env k) db (enc r) = Some ?db"
      using apply_enc [OF r(1,2) Cons.prems(3) up r(4)] Cons.prems(5) by blast
    have step: "receive_frames env k i inp db cli = receive_frames env (Suc k) i2 inp2 ?db ?cli"
      using True r1 r2 len nz
      by (subst receive_frames.simps) (simp add: p1(1) p2(1) read_hdr_bytes frame_hdr_def r(7) app)
    have "ht_wf (tbl ?db)" "ht_upto (tbl ?db) (rec_ts r)"
      using hts.wf_write hts.upto_write Cons.prems(3) up r(4) by (cases r; simp add: advance_clock_def)+
    from Cons.IH [OF _ r(5) this _ p2(2), of "Suc k" i2 ?cli] Cons.prems(1,5) obtain n db' cli' where
      n: "receive_frames env (Suc k) i2 inp2 ?db ?cli = Some (db', cli')" "applied n rs ?db db'"
        "length (enc_frames (take n fs)) \<le> length inp2" "smooth env \<and> inp2 = enc_frames fs \<longrightarrow> n = length rs"
      by auto
    have "applied (Suc n) (r # rs) db db'" by (rule applied_Suc [OF r(4) n(2)])
    then show ?thesis
      using n(1,3,4) p1(3,4) p2(3,4) unfolding step
      by (intro exI [of _ "Suc n"] exI [of _ db'] exI [of _ cli']) (auto simp: frame_bytes_def r(6))
  next
    case False
    have hb: "ok1 \<Longrightarrow> hb = ?h" using recv_all_prefix [OF _ inp] r1 by auto
    have "receive_frames env k i inp db cli = Some (db, cli)"
      using False r1 r2 hb len nz
      by (subst receive_frames.simps) (auto simp: Let_def read_hdr_bytes frame_hdr_def r(7) split: bool.split)
    moreover have "\<not> (smooth env \<and> inp = enc_frames (f # fs))"
    proof
      assume s: "smooth env \<and> inp = enc_frames (f # fs)"
      then have i: "inp = ?h @ enc r @ enc_frames fs" and rs: "\<forall>i. cn_recv env i > 0"
        by (simp_all add: frame_bytes_def r(6) smooth_def)
      have ok1 using recv_all_full [OF rs] r1 unfolding i by blast
      then have "inp1 = enc r @ enc_frames fs" using recv_all_prefix [OF _ inp] r1 i by auto
      then have ok2 using recv_all_full [OF rs] r2 by blast
      with \<open>ok1\<close> s False show False by (simp add: smooth_def)
    qed
    ultimately show ?thesis by (intro exI [of _ 0] exI [of _ db] exI [of _ cli]) (auto simp: applied_0)
  qed
qed

section \<open>Connections\<close>

text \<open>
  A replica applies what the primary sends, whatever prefix of the stream arrives before the connection
  ends, in whatever pieces, and whether or not memory runs out or the thread is stopped: the records applied are the
  first \<open>n\<close> of those sent, in order, the table and the ordered tree are what these records make of the old ones, the
  clock is beyond their timestamps, and no byte that has not arrived is used.  If the whole stream arrives and nothing
  fails, all records are applied.
\<close>

lemma serve_prefix:
  assumes "carries fs rs" "\<forall>r \<in> set rs. fits r \<and> rec_typed r" "chrono c rs" "ht_wf (tbl db)" "ht_upto (tbl db) c"
    "\<forall>k. env_ok (cn_ht env k)" "prefix inp (hello_bytes off @ enc_frames fs)"
  shows "\<exists>n db' cli'. serve_connection env inp db cli = Some (db', cli') \<and> applied n rs db db' \<and> \<not> cli_connected cli'
    \<and> (n > 0 \<longrightarrow> length (hello_bytes off @ enc_frames (take n fs)) \<le> length inp)
    \<and> (smooth env \<and> inp = hello_bytes off @ enc_frames fs \<longrightarrow> n = length rs)"
proof -
  obtain ok hb inp1 i1 where r: "recv_all (cn_recv env) 0 inp (length (hello_bytes off)) = (ok, hb, inp1, i1)" by (metis prod_cases4)
  have l: "length (hello_bytes off) = 16" by (simp add: hello_bytes_def)
  show ?thesis
  proof (cases ok)
    case True
    then have p: "hb = hello_bytes off" "prefix inp1 (enc_frames fs)" "length inp = 16 + length inp1"
        "inp = hello_bytes off @ enc_frames fs \<longrightarrow> inp1 = enc_frames fs"
      using recv_all_prefix [OF _ assms(7)] r l by auto
    let ?cli = "cli\<lparr>cli_connected := True, cli_primary_offset := off\<rparr>"
    from receive_prefix [OF assms(1-6) p(2), of 0 i1 ?cli] obtain n db' cli' where
      n: "receive_frames env 0 i1 inp1 db ?cli = Some (db', cli')" "applied n rs db db'"
        "length (enc_frames (take n fs)) \<le> length inp1" "smooth env \<and> inp1 = enc_frames fs \<longrightarrow> n = length rs"
      by blast
    have "serve_connection env inp db cli = Some (db', cli'\<lparr>cli_connected := False\<rparr>)"
      using r n(1) True by (simp add: serve_connection_def l p(1) hello_bytes_def read_hdr_bytes)
    then show ?thesis
      using n(2-4) p(3,4) l by (intro exI [of _ n] exI [of _ db'] exI [of _ "cli'\<lparr>cli_connected := False\<rparr>"]) auto
  next
    case False
    then have "serve_connection env inp db cli = Some (db, cli\<lparr>cli_connected := False\<rparr>)"
      using r by (simp add: serve_connection_def l)
    moreover have "\<not> (smooth env \<and> inp = hello_bytes off @ enc_frames fs)"
      using recv_all_full [of "cn_recv env" 0 "hello_bytes off" "enc_frames fs"] r False by (auto simp: smooth_def)
    ultimately show ?thesis
      by (intro exI [of _ 0] exI [of _ db] exI [of _ "cli\<lparr>cli_connected := False\<rparr>"]) (use applied_0 in auto)
  qed
qed

section \<open>Reconnecting\<close>

text \<open>
  Setting up a connection, with the answers of \<^verbatim>\<open>getaddrinfo\<close>, \<^verbatim>\<open>socket\<close> (the descriptor) and \<^verbatim>\<open>connect\<close>; and the outer loop
  of \<^verbatim>\<open>receiver_thread\<close>.  Each element of the list is one turn of the loop: a refused connection, with the stop flag read
  after it, or a connection with what arrives on it.  The list ends when the stop flag is seen at the head of the loop.
\<close>

definition connect_to_primary :: "int \<Rightarrow> int \<Rightarrow> int \<Rightarrow> int" where
  "connect_to_primary gai fd conn = (if gai \<noteq> 0 then -1 else if fd < 0 then -1 else if conn < 0 then -1 else fd)"

record attempt =
  at_gai :: int
  at_socket :: int
  at_connect :: int
  at_stop :: bool
  at_env :: conn_env
  at_bytes :: bytes

definition at_fd :: "attempt \<Rightarrow> int" where
  "at_fd a = connect_to_primary (at_gai a) (at_socket a) (at_connect a)"

fun receiver_thread :: "attempt list \<Rightarrow> fastkv_db \<Rightarrow> fastkv_repl_client \<Rightarrow> (fastkv_db \<times> fastkv_repl_client) option" where
  "receiver_thread [] db cli = Some (db, cli)"
| "receiver_thread (a # as) db cli =
     (if at_fd a < 0
      then if at_stop a then Some (db, cli) else receiver_thread as db (cli\<lparr>cli_connected := False\<rparr>)
      else case serve_connection (at_env a) (at_bytes a) db cli of
             None \<Rightarrow> None
           | Some (db', cli') \<Rightarrow> receiver_thread as db' cli')"

text \<open>The turns of the loop and the records \<open>rss\<close> owed on the connections that come about.\<close>

definition owed :: "attempt \<Rightarrow> wrec list \<Rightarrow> bool" where
  "owed a rs \<longleftrightarrow> (\<forall>r \<in> set rs. fits r \<and> rec_typed r) \<and> (\<forall>k. env_ok (cn_ht (at_env a) k)) \<and>
     (at_fd a < 0 \<longrightarrow> rs = []) \<and> (\<exists>off fs. carries fs rs \<and> prefix (at_bytes a) (hello_bytes off @ enc_frames fs))"

text \<open>The timestamp up to which a table is written, after the records \<open>rs\<close>.\<close>

definition mark :: "fastkv_ts \<Rightarrow> wrec list \<Rightarrow> fastkv_ts" where
  "mark c rs = last (c # map rec_ts rs)"

lemma mark_simps [simp]: "mark c [] = c" "mark c (r # rs) = mark (rec_ts r) rs"
  by (simp_all add: mark_def)

lemma chrono_after: "chrono c (rs @ ss) \<Longrightarrow> chrono (mark c (take n rs)) ss"
proof (induction rs arbitrary: c n)
  case (Cons r rs)
  show ?case
  proof (cases n)
    case 0
    then show ?thesis using Cons.prems chrono_append [of c "r # rs" ss] by simp
  next
    case (Suc m)
    then show ?thesis using Cons by (simp add: chrono_Cons)
  qed
qed simp

lemma upto_writes:
  "chrono c rs \<Longrightarrow> ht_wf h \<Longrightarrow> ht_upto h c \<Longrightarrow> ht_wf (foldl rec_write h rs) \<and> ht_upto (foldl rec_write h rs) (mark c rs)"
proof (induction rs arbitrary: c h)
  case (Cons r rs)
  have ts: "c \<le> rec_ts r" "rec_ts r < FASTKV_TS_MAX" "chrono (rec_ts r) rs" using Cons.prems(1) by (simp_all add: chrono_Cons)
  have "ht_upto h (rec_ts r)" using hts.upto_mono Cons.prems(3) ts(1) by blast
  then have "ht_wf (rec_write h r)" "ht_upto (rec_write h r) (rec_ts r)"
    using hts.wf_write hts.upto_write Cons.prems(2) ts(2) by (cases r; simp)+
  with Cons.IH [OF ts(3)] show ?case by simp
qed simp

text \<open>
  Whatever the sequence of refused, broken and complete connections, the replica applies from each connection a prefix of
  the records owed on it, and nothing else; a record that is owed on none of them, because it was broadcast while the
  replica was away, is never applied.
\<close>

lemma receiver_applies_segments:
  assumes "list_all2 owed as rss" "chrono c (concat rss)" "ht_wf (tbl db)" "ht_upto (tbl db) c"
  shows "\<exists>ns db' cli'. length ns = length rss \<and> receiver_thread as db cli = Some (db', cli')
    \<and> tbl db' = foldl rec_write (tbl db) (concat (map2 take ns rss))
    \<and> tree db' = foldl rec_tree (tree db) (concat (map2 take ns rss))"
  using assms
proof (induction as rss arbitrary: c db cli rule: list_all2_induct)
  case (Cons a as rs rss)
  note a = Cons.hyps(1) [unfolded owed_def]
  have ch: "chrono c rs" "chrono c (rs @ concat rss)" using Cons.prems(1) by (simp_all add: chrono_append)
  consider "at_fd a < 0" "at_stop a" | "at_fd a < 0" "\<not> at_stop a" | "\<not> at_fd a < 0" by blast
  then show ?case
  proof cases
    case 1
    have "concat (map2 take (replicate (length (rs # rss)) 0) (rs # rss)) = []"
      by (auto simp: set_zip)
    with 1 show ?thesis
      by (intro exI [of _ "replicate (length (rs # rss)) 0"] exI [of _ db] exI [of _ cli]) (simp only:; simp)
  next
    case 2
    then have "rs = []" using a by blast
    with Cons.IH [OF _ Cons.prems(2,3), of "cli\<lparr>cli_connected := False\<rparr>"] Cons.prems(1) obtain ns db' cli' where
      "length ns = length rss" "receiver_thread as db (cli\<lparr>cli_connected := False\<rparr>) = Some (db', cli')"
      "tbl db' = foldl rec_write (tbl db) (concat (map2 take ns rss))"
      "tree db' = foldl rec_tree (tree db) (concat (map2 take ns rss))" by auto
    with 2 \<open>rs = []\<close> show ?thesis by (intro exI [of _ "0 # ns"]) auto
  next
    case 3
    obtain off fs where fs: "carries fs rs" "prefix (at_bytes a) (hello_bytes off @ enc_frames fs)" using a by blast
    from serve_prefix [OF fs(1) _ ch(1) Cons.prems(2,3) _ fs(2), of "at_env a" cli] a obtain n db1 cli1 where
      s: "serve_connection (at_env a) (at_bytes a) db cli = Some (db1, cli1)" "applied n rs db db1" by blast
    then have t: "tbl db1 = foldl rec_write (tbl db) (take n rs)" "tree db1 = foldl rec_tree (tree db) (take n rs)"
      by (simp_all add: applied_def)
    have "ht_wf (tbl db1)" "ht_upto (tbl db1) (mark c (take n rs))"
      using upto_writes [OF chrono_take [OF ch(1)] Cons.prems(2,3)] by (simp_all add: t)
    from Cons.IH [OF chrono_after [OF ch(2)] this, of cli1] obtain ns db' cli' where
      "length ns = length rss" "receiver_thread as db1 cli1 = Some (db', cli')"
      "tbl db' = foldl rec_write (tbl db1) (concat (map2 take ns rss))"
      "tree db' = foldl rec_tree (tree db1) (concat (map2 take ns rss))" by blast
    with 3 s(1) t show ?thesis by (intro exI [of _ "n # ns"]) auto
  qed
qed simp

text \<open>
  A payload of 17 to 20 bytes passes the length test, and the record header is then read beyond its end.
\<close>

lemma apply_record_overread: "17 \<le> length buf \<Longrightarrow> length buf < 21 \<Longrightarrow> apply_wal_record env db buf = None"
  by (simp add: apply_wal_record_def)

end
