(* ===== verification/Double.thy ===== *)
theory Double
  imports Main "HOL-Library.Log_Nat"
begin

text \<open>
  The arithmetic of C's \<^verbatim>\<open>double\<close> (IEEE 754 binary64, round to nearest, ties to even) as far as \<open>index/rtree/rtree.c\<close>
  uses it: comparison, subtraction, addition, multiplication and \<^verbatim>\<open>fabs\<close>.  A finite double is a multiple of the smallest
  positive one, \<open>2^-1074\<close>, and \<open>Fin n\<close> stands for \<open>n\<close> times that unit.  The two zeros are one value, since no operation
  used here tells them apart; so are all NaNs.  Each operation is rounded by itself.

  Shown here: rounding is monotone and keeps powers of two, so that sums, differences and squares are monotone and
  overflow can be excluded by bounds on the operands.
\<close>

section \<open>Values\<close>

datatype dbl = NInf | Fin int | PInf | NaN

text \<open>A linear order on all values, NaN last; the comparisons of C are false on NaN.\<close>

instantiation dbl :: linorder
begin

fun less_eq_dbl :: "dbl \<Rightarrow> dbl \<Rightarrow> bool" where
  "NInf \<le> y \<longleftrightarrow> True"
| "Fin a \<le> y \<longleftrightarrow> (case y of NInf \<Rightarrow> False | Fin b \<Rightarrow> a \<le> b | _ \<Rightarrow> True)"
| "PInf \<le> y \<longleftrightarrow> y = PInf \<or> y = NaN"
| "NaN \<le> y \<longleftrightarrow> y = NaN"

definition less_dbl :: "dbl \<Rightarrow> dbl \<Rightarrow> bool" where
  "x < y \<longleftrightarrow> x \<le> y \<and> \<not> y \<le> (x :: dbl)"

instance
proof
  fix x y z :: dbl
  show "x \<le> x" by (cases x) auto
  show "x \<le> y \<Longrightarrow> y \<le> z \<Longrightarrow> x \<le> z" by (cases x; cases y; cases z) auto
  show "x \<le> y \<Longrightarrow> y \<le> x \<Longrightarrow> x = y" by (cases x; cases y) auto
  show "x \<le> y \<or> y \<le> x" by (cases x; cases y) auto
qed (simp add: less_dbl_def)

end

definition dlt :: "dbl \<Rightarrow> dbl \<Rightarrow> bool" where
  "dlt x y \<longleftrightarrow> x \<noteq> NaN \<and> y \<noteq> NaN \<and> x < y"

definition dle :: "dbl \<Rightarrow> dbl \<Rightarrow> bool" where
  "dle x y \<longleftrightarrow> x \<noteq> NaN \<and> y \<noteq> NaN \<and> x \<le> y"

definition deq :: "dbl \<Rightarrow> dbl \<Rightarrow> bool" where
  "deq x y \<longleftrightarrow> x \<noteq> NaN \<and> x = y"

lemma dlt_irrefl [simp]: "\<not> dlt x x"
  by (simp add: dlt_def)

section \<open>Rounding\<close>

text \<open>\<open>m / 2^s\<close> to the nearest integer, ties to even.\<close>

definition round_even :: "nat \<Rightarrow> nat \<Rightarrow> nat" where
  "round_even m s =
     (let q = m div 2 ^ s; r = m mod 2 ^ s
      in if 2 * r < 2 ^ s \<or> 2 * r = 2 ^ s \<and> even q then q else q + 1)"

text \<open>\<open>m / 2^k\<close> units with a significand of at most 53 bits.\<close>

definition round53 :: "nat \<Rightarrow> nat \<Rightarrow> nat" where
  "round53 k m = (let s = max k (floorlog 2 m - 53) in round_even m s * 2 ^ (s - k))"

text \<open>\<open>2^1024\<close> in units: from here on a result is infinite.\<close>

definition DBL_LIMIT :: nat where
  "DBL_LIMIT = 2 ^ 2098"

definition rnd :: "nat \<Rightarrow> int \<Rightarrow> dbl" where
  "rnd k x =
     (let r = round53 k (nat \<bar>x\<bar>)
      in if r \<ge> DBL_LIMIT then (if x < 0 then NInf else PInf) else Fin (sgn x * int r))"

section \<open>Operations\<close>

definition DBL_MAX :: dbl where
  "DBL_MAX = Fin (2 ^ 2098 - 2 ^ 2045)"

definition minus_DBL_MAX :: dbl where
  "minus_DBL_MAX = Fin (2 ^ 2045 - 2 ^ 2098)"

definition dbl_0 :: dbl where "dbl_0 = Fin 0"
definition dbl_1 :: dbl where "dbl_1 = Fin (2 ^ 1074)"

fun dneg :: "dbl \<Rightarrow> dbl" where
  "dneg NaN = NaN"
| "dneg NInf = PInf"
| "dneg PInf = NInf"
| "dneg (Fin a) = Fin (- a)"

fun dadd :: "dbl \<Rightarrow> dbl \<Rightarrow> dbl" where
  "dadd (Fin a) (Fin b) = rnd 0 (a + b)"
| "dadd NaN y = NaN"
| "dadd x NaN = NaN"
| "dadd PInf NInf = NaN"
| "dadd NInf PInf = NaN"
| "dadd PInf y = PInf"
| "dadd NInf y = NInf"
| "dadd x y = y"

definition dsub :: "dbl \<Rightarrow> dbl \<Rightarrow> dbl" where
  "dsub x y = dadd x (dneg y)"

fun dsgn :: "dbl \<Rightarrow> int" where
  "dsgn NInf = - 1"
| "dsgn (Fin a) = sgn a"
| "dsgn PInf = 1"
| "dsgn NaN = 0"

fun dmul :: "dbl \<Rightarrow> dbl \<Rightarrow> dbl" where
  "dmul (Fin a) (Fin b) = rnd 1074 (a * b)"
| "dmul x y =
     (if x = NaN \<or> y = NaN \<or> dsgn x * dsgn y = 0 then NaN else if dsgn x * dsgn y < 0 then NInf else PInf)"

fun dabs :: "dbl \<Rightarrow> dbl" where
  "dabs (Fin a) = Fin \<bar>a\<bar>"
| "dabs NInf = PInf"
| "dabs x = x"

section \<open>Monotonicity\<close>

lemma round_even_bounds: "m div 2 ^ s \<le> round_even m s \<and> round_even m s \<le> m div 2 ^ s + 1"
  by (simp add: round_even_def Let_def)

lemma round_even_mono:
  assumes "m \<le> m'"
  shows "round_even m s \<le> round_even m' s"
proof (cases "m div 2 ^ s = m' div 2 ^ s")
  case True
  then have "m mod 2 ^ s \<le> m' mod 2 ^ s" using assms by (metis div_mult_mod_eq nat_add_left_cancel_le)
  then show ?thesis using True by (auto simp: round_even_def Let_def)
next
  case False
  then have "m div 2 ^ s + 1 \<le> m' div 2 ^ s" using div_le_mono [OF assms, of "2 ^ s"] by linarith
  then show ?thesis using round_even_bounds [of m s] round_even_bounds [of m' s] by linarith
qed

lemma floorlog_lt: "m < 2 ^ floorlog 2 m"
  by (cases "m = 0") (simp_all add: floorlog_bounds)

text \<open>A larger number with a larger exponent: a power of two lies between the two.\<close>

lemma round53_step:
  assumes "max k (floorlog 2 m - 53) < floorlog 2 m' - 53"
  shows "round53 k m \<le> round53 k m'"
proof -
  let ?s = "max k (floorlog 2 m - 53)" and ?s' = "floorlog 2 m' - 53"
  have s': "max k ?s' = ?s'" using assms by simp
  have m': "0 < m'" using assms by (cases "m' = 0") (simp_all add: floorlog_def)
  have "m < 2 ^ (53 + ?s)" by (rule less_le_trans [OF floorlog_lt]) (simp add: power_increasing)
  then have "m div 2 ^ ?s < 2 ^ 53" by (simp add: power_add less_mult_imp_div_less)
  then have "round_even m ?s \<le> 2 ^ 53" using round_even_bounds [of m ?s] by linarith
  then have a: "round53 k m \<le> 2 ^ 53 * 2 ^ (?s - k)" unfolding round53_def Let_def by (rule mult_le_mono1)
  have e: "52 + ?s' = floorlog 2 m' - 1" using assms by linarith
  have "2 ^ (52 + ?s') \<le> m'" unfolding e using floorlog_bounds [OF m', of 2] by simp
  then have "2 ^ 52 \<le> m' div 2 ^ ?s'" by (simp add: power_add less_eq_div_iff_mult_less_eq)
  then have "2 ^ 52 \<le> round_even m' ?s'" using round_even_bounds [of m' ?s'] by linarith
  then have b: "2 ^ 52 * 2 ^ (?s' - k) \<le> round53 k m'" unfolding round53_def Let_def s' by (rule mult_le_mono1)
  have "53 + (?s - k) \<le> 52 + (?s' - k)" using assms by linarith
  then have "(2 :: nat) ^ 53 * 2 ^ (?s - k) \<le> 2 ^ 52 * 2 ^ (?s' - k)" unfolding power_add [symmetric] by (rule power_increasing) simp
  with a b show ?thesis by linarith
qed

lemma round53_mono:
  assumes "m \<le> m'"
  shows "round53 k m \<le> round53 k m'"
proof (cases "max k (floorlog 2 m - 53) = max k (floorlog 2 m' - 53)")
  case True
  then show ?thesis unfolding round53_def Let_def by (simp add: round_even_mono [OF assms])
next
  case False
  then show ?thesis using floorlog_mono [OF assms, of 2] by (intro round53_step) linarith
qed

lemma round53_power: "k \<le> p \<Longrightarrow> round53 k (2 ^ p) = 2 ^ (p - k)"
proof -
  assume k: "k \<le> p"
  have "floorlog 2 (2 ^ p :: nat) = p + 1" using floorlog_power [of 1 2 p] by (simp add: floorlog_def)
  then have s: "max k (floorlog 2 (2 ^ p :: nat) - 53) = max k (p - 52)" (is "_ = ?s") by simp
  have "?s \<le> p" using k by simp
  then have "round_even (2 ^ p) ?s = 2 ^ (p - ?s)"
    by (simp add: round_even_def Let_def power_diff [symmetric] mod_eq_0_iff_dvd le_imp_power_dvd power_diff_power_eq)
  then show ?thesis unfolding round53_def Let_def s using \<open>?s \<le> p\<close> by (simp flip: power_add)
qed

lemma round53_0 [simp]: "round53 k 0 = 0"
  by (simp add: round53_def round_even_def floorlog_def)

lemma rnd_0 [simp]: "rnd k 0 = Fin 0"
  by (simp add: rnd_def DBL_LIMIT_def)

lemma rnd_not_NaN [simp]: "rnd k x \<noteq> NaN"
  by (simp add: rnd_def Let_def)

lemma rnd_mono:
  assumes "x \<le> y"
  shows "rnd k x \<le> rnd k y"
proof -
  consider "0 \<le> x" | "x < 0" "0 \<le> y" | "y < 0" using assms by linarith
  then show ?thesis
  proof cases
    case 1
    have "round53 k (nat \<bar>x\<bar>) \<le> round53 k (nat \<bar>y\<bar>)" using 1 assms by (intro round53_mono) simp
    then show ?thesis using 1 assms by (cases "x = 0"; cases "y = 0") (simp_all add: rnd_def Let_def)
  next
    case 2
    then show ?thesis by (simp add: rnd_def Let_def sgn_if)
  next
    case 3
    have "round53 k (nat \<bar>y\<bar>) \<le> round53 k (nat \<bar>x\<bar>)" using 3 assms by (intro round53_mono) simp
    then show ?thesis using 3 assms by (simp add: rnd_def Let_def)
  qed
qed

lemma limit_power: "DBL_LIMIT \<le> 2 ^ q \<longleftrightarrow> 2098 \<le> q"
  unfolding DBL_LIMIT_def by (rule power_increasing_iff) simp

lemma le_PInf [simp]: "x \<le> PInf \<longleftrightarrow> x \<noteq> NaN"
  by (cases x) auto

lemma rnd_power: "k \<le> p \<Longrightarrow> p - k < 2098 \<Longrightarrow> rnd k (2 ^ p) = Fin (2 ^ (p - k))"
  using limit_power [of "p - k"] by (simp add: rnd_def nat_power_eq round53_power Let_def)

lemma rnd_overflow: "k \<le> p \<Longrightarrow> 2098 \<le> p - k \<Longrightarrow> rnd k (2 ^ p) = PInf"
  using limit_power [of "p - k"] by (simp add: rnd_def nat_power_eq round53_power Let_def)

lemma dneg_mono: "x \<noteq> NaN \<Longrightarrow> y \<noteq> NaN \<Longrightarrow> x \<le> y \<Longrightarrow> dneg y \<le> dneg x"
  by (cases x; cases y) auto

lemma dadd_mono:
  assumes "x \<le> x'" "y \<le> y'" "dadd x y \<noteq> NaN" "dadd x' y' \<noteq> NaN"
  shows "dadd x y \<le> dadd x' y'"
  using assms by (cases x; cases y; cases x'; cases y') (auto intro: rnd_mono)

text \<open>The distance on one axis: the farther of two points on one side has the larger square.\<close>

lemma dmul_square_nonneg: "d \<noteq> NaN \<Longrightarrow> dbl_0 \<le> dmul d d \<and> dmul d d \<noteq> NaN"
proof (cases d)
  case (Fin a)
  then show ?thesis using rnd_mono [of 0 "a * a" 1074] by (simp add: dbl_0_def)
qed (simp_all add: dbl_0_def)

lemma dmul_square_mono:
  assumes "dbl_0 \<le> x \<and> x \<le> y \<or> y \<le> x \<and> x \<le> dbl_0" "x \<noteq> NaN" "y \<noteq> NaN"
  shows "dmul x x \<le> dmul y y"
proof (cases "\<exists>a b. x = Fin a \<and> y = Fin b")
  case True
  then obtain a b where ab: "x = Fin a" "y = Fin b" by blast
  have "\<bar>a\<bar> \<le> \<bar>b\<bar>" using assms(1) by (auto simp: ab dbl_0_def)
  then have "a * a \<le> b * b" by (simp add: abs_le_square_iff power2_eq_square)
  then show ?thesis unfolding ab dmul.simps by (rule rnd_mono)
next
  case False
  then show ?thesis using assms dmul_square_nonneg [of x] by (cases x; cases y) (auto simp: dbl_0_def)
qed

text \<open>Bounds by powers of two survive rounding.\<close>

lemma dsub_bound:
  assumes "x \<le> Fin (2 ^ p)" "Fin (- (2 ^ p)) \<le> y" "y \<noteq> NaN" "p < 2097"
  shows "dsub x y \<noteq> NaN \<and> dsub x y \<le> Fin (2 ^ Suc p)"
proof -
  have "rnd 0 (a - b) \<le> Fin (2 ^ Suc p)" if "a \<le> 2 ^ p" "- (2 ^ p) \<le> b" for a b
  proof -
    have "a - b \<le> 2 ^ Suc p" using that by simp
    from rnd_mono [OF this, of 0] assms(4) show ?thesis by (simp add: rnd_power del: power_Suc)
  qed
  then show ?thesis using assms by (cases x; cases y) (auto simp: dsub_def)
qed

lemma dmul_bound:
  assumes "dbl_0 \<le> x" "x \<le> Fin (2 ^ (1074 + p))" "dbl_0 \<le> y" "y \<le> Fin (2 ^ (1074 + q))" "p + q < 1024"
  shows "dbl_0 \<le> dmul x y \<and> dmul x y \<le> Fin (2 ^ (1074 + (p + q)))"
proof -
  obtain a b where ab: "x = Fin a" "y = Fin b" using assms(1-4) by (cases x; cases y) (auto simp: dbl_0_def)
  have a: "0 \<le> a" "a \<le> 2 ^ (1074 + p)" and b: "0 \<le> b" "b \<le> 2 ^ (1074 + q)"
    using assms(1-4) unfolding ab dbl_0_def by simp_all
  have "a * b \<le> 2 ^ (1074 + p) * 2 ^ (1074 + q)" by (rule mult_mono) (use a b in simp_all)
  then have "a * b \<le> 2 ^ (1074 + (1074 + (p + q)))" unfolding power_add [symmetric] by (simp only: ac_simps)
  from rnd_mono [OF this, of 1074] have u: "rnd 1074 (a * b) \<le> rnd 1074 (2 ^ (1074 + (1074 + (p + q))))" .
  have "rnd 1074 (2 ^ (1074 + (1074 + (p + q)))) = Fin (2 ^ (1074 + (p + q)))"
    using rnd_power [of 1074 "1074 + (1074 + (p + q))"] assms(5) by simp
  then show ?thesis using u rnd_mono [of 0 "a * b" 1074] a b unfolding ab dmul.simps dbl_0_def by simp
qed

end
