(* ===== verification/Rtree.thy ===== *)
theory Rtree
  imports Prelude Double "HOL-Library.Multiset"
begin

text \<open>
  \<open>index/rtree/rtree.c\<close>: the spatial index.  The arrays \<^verbatim>\<open>min[]\<close> and \<^verbatim>\<open>max[]\<close> of an entry are one list of pairs, as long
  as the tree has dimensions; a node is a leaf of boxes with keys or an inner node of boxes with children, and \<^verbatim>\<open>n\<close> is
  the length of its list.  Results of allocations are arguments.  \<^term>\<open>None\<close> is a read outside an array: the pick of
  \<^verbatim>\<open>all[-1]\<close> in the split, or of the first entry of an inner node without entries.

  Shown here: with coordinates up to \<open>2^50\<close> an insertion keeps the tree balanced, its nodes within their arrays and its boxes
  exact, and adds just the new entry; deletion removes one entry with the key; the searches report exactly the
  entries that match.  Beyond such bounds areas overflow, and a split reads outside its array.
\<close>

section \<open>Boxes\<close>

definition RTREE_MAX_DIMS :: nat where "RTREE_MAX_DIMS = 20"
definition RT_M :: nat where "RT_M = 9"
definition RT_m :: nat where "RT_m = 3"

type_synonym box = "(dbl \<times> dbl) list"

record fastkv_rect =
  rect_min :: "dbl list"
  rect_max :: "dbl list"
  rect_ndims :: nat

text \<open>The dimensions the tree looks at.\<close>

definition rect_box :: "nat \<Rightarrow> fastkv_rect \<Rightarrow> box" where
  "rect_box ndims r = take ndims (zip (rect_min r) (rect_max r))"

fun area_loop :: "dbl \<Rightarrow> box \<Rightarrow> dbl" where
  "area_loop a [] = a"
| "area_loop a ((mn, mx) # b) =
     (let d = dsub mx mn in if dle d dbl_0 then dbl_0 else area_loop (dmul a d) b)"

definition rect_area :: "box \<Rightarrow> dbl" where
  "rect_area b = area_loop dbl_1 b"

definition rect_expand :: "box \<Rightarrow> box \<Rightarrow> box" where
  "rect_expand dst src =
     map (\<lambda>((dmn, dmx), (smn, smx)). (if dlt smn dmn then smn else dmn, if dlt dmx smx then smx else dmx)) (zip dst src)"

definition rect_enlarged_area :: "box \<Rightarrow> box \<Rightarrow> dbl" where
  "rect_enlarged_area b e =
     rect_area (map (\<lambda>((mn, mx), (emn, emx)). (if dlt mn emn then mn else emn, if dlt emx mx then mx else emx)) (zip b e))"

definition rect_within :: "box \<Rightarrow> box \<Rightarrow> bool" where
  "rect_within r b \<longleftrightarrow> list_all (\<lambda>((rmn, rmx), (bmn, bmx)). \<not> (dlt rmn bmn \<or> dlt bmx rmx)) (zip r b)"

definition rect_intersects :: "box \<Rightarrow> box \<Rightarrow> bool" where
  "rect_intersects r b \<longleftrightarrow> list_all (\<lambda>((rmn, rmx), (bmn, bmx)). \<not> (dlt rmx bmn \<or> dlt bmx rmn)) (zip r b)"

section \<open>Nodes\<close>

datatype rnode = RLeaf "(box \<times> bytes) list" | RInner "(box \<times> rnode) list"

record fastkv_rtree =
  rt_ndims :: nat
  rt_root :: rnode

fun node_boxes :: "rnode \<Rightarrow> box list" where
  "node_boxes (RLeaf es) = map fst es"
| "node_boxes (RInner es) = map fst es"

definition boxes_mbr :: "nat \<Rightarrow> box list \<Rightarrow> box" where
  "boxes_mbr ndims bs = foldl rect_expand (replicate ndims (DBL_MAX, minus_DBL_MAX)) bs"

definition node_recompute_mbr :: "nat \<Rightarrow> rnode \<Rightarrow> box" where
  "node_recompute_mbr ndims n = boxes_mbr ndims (node_boxes n)"

fun choose_loop :: "box \<Rightarrow> nat \<Rightarrow> nat \<Rightarrow> dbl \<Rightarrow> dbl \<Rightarrow> box list \<Rightarrow> nat" where
  "choose_loop e i best best_enlarge best_area [] = best"
| "choose_loop e i best best_enlarge best_area (b # bs) =
     (let orig = rect_area b;
          enlarge = dsub (rect_enlarged_area b e) orig
      in if dlt enlarge best_enlarge \<or> deq enlarge best_enlarge \<and> dlt orig best_area
         then choose_loop e (Suc i) i enlarge orig bs
         else choose_loop e (Suc i) best best_enlarge best_area bs)"

definition choose_child :: "box list \<Rightarrow> box \<Rightarrow> nat" where
  "choose_child bs e = choose_loop e 0 0 DBL_MAX DBL_MAX bs"

section \<open>The split\<close>

definition split_waste :: "box \<Rightarrow> box \<Rightarrow> dbl" where
  "split_waste a b = dsub (dsub (rect_enlarged_area a b) (rect_area a)) (rect_area b)"

definition split_seeds :: "box list \<Rightarrow> nat \<times> nat" where
  "split_seeds bs =
     snd (foldl (\<lambda>(worst_waste, seeds) (i, j).
            let waste = split_waste (bs ! i) (bs ! j)
            in if dlt worst_waste waste then (waste, i, j) else (worst_waste, seeds))
          (minus_DBL_MAX, 0, length bs - 1)
          [(i, j). i \<leftarrow> [0..<length bs - 1], j \<leftarrow> [Suc i..<length bs]])"

definition group_growth :: "box \<Rightarrow> box \<Rightarrow> dbl" where
  "group_growth g b = dsub (rect_enlarged_area g b) (rect_area g)"

text \<open>The next entry to assign; \<^term>\<open>None\<close> is \<^verbatim>\<open>pick = -1\<close>.\<close>

definition pick_next :: "box list \<Rightarrow> box \<Rightarrow> box \<Rightarrow> nat list \<Rightarrow> nat option" where
  "pick_next bs lb rb unused =
     snd (foldl (\<lambda>(best_diff, pick) i.
            let diff = dabs (dsub (group_growth lb (bs ! i)) (group_growth rb (bs ! i)))
            in if dlt best_diff diff then (diff, Some i) else (best_diff, pick))
          (minus_DBL_MAX, None) unused)"

lemma pick_fold_mem:
  "snd (foldl (\<lambda>(best, pick) i. if dlt best (f i) then (f i, Some i) else (best, pick)) (best, pick) xs) = Some p
     \<Longrightarrow> pick = Some p \<or> p \<in> set xs"
proof (induction xs arbitrary: best pick)
  case (Cons x xs)
  then show ?case by (fastforce split: if_splits)
qed simp

lemma pick_next_mem: "pick_next bs lb rb unused = Some p \<Longrightarrow> p \<in> set unused"
  unfolding pick_next_def Let_def by (drule pick_fold_mem) simp

text \<open>The loop that assigns the rest; \<open>unused\<close> are the indices with \<^verbatim>\<open>used[i]\<close> false, in order.\<close>

function distribute ::
  "(box \<times> 'a) list \<Rightarrow> nat list \<Rightarrow> (box \<times> 'a) list \<Rightarrow> (box \<times> 'a) list \<Rightarrow> box \<Rightarrow> box
     \<Rightarrow> ((box \<times> 'a) list \<times> (box \<times> 'a) list) option" where
  "distribute all unused left right lb rb =
     (if unused = [] then Some (left, right)
      else if length left + length unused = RT_m then Some (left @ map ((!) all) unused, right)
      else if length right + length unused = RT_m then Some (left, right @ map ((!) all) unused)
      else case pick_next (map fst all) lb rb unused of
             None \<Rightarrow> None
           | Some pick \<Rightarrow>
               let b = fst (all ! pick);
                   dl = group_growth lb b;
                   dr = group_growth rb b
               in if dlt dl dr \<or> deq dl dr \<and> length left \<le> length right
                  then distribute all (remove1 pick unused) (left @ [all ! pick]) right (rect_expand lb b) rb
                  else distribute all (remove1 pick unused) left (right @ [all ! pick]) lb (rect_expand rb b))"
  by pat_completeness auto
termination
  by (relation "measure (\<lambda>(all, unused, left, right, lb, rb). length unused)")
    (auto dest!: pick_next_mem simp: length_remove1 in_set_conv_nth)

declare distribute.simps [simp del]

definition linear_split ::
  "(box \<times> 'a) list \<Rightarrow> box \<times> 'a \<Rightarrow> ((box \<times> 'a) list \<times> (box \<times> 'a) list) option" where
  "linear_split full new_e =
     (let all = full @ [new_e];
          (seed1, seed2) = split_seeds (map fst all)
      in distribute all (filter (\<lambda>i. i \<noteq> seed1 \<and> i \<noteq> seed2) [0..<length all]) [all ! seed1] [all ! seed2]
           (fst (all ! seed1)) (fst (all ! seed2)))"

section \<open>Insertion\<close>

text \<open>
  \<^verbatim>\<open>rtree_insert_rec\<close>: the node after the insertion, the box the parent stores for it, and the new right node after a
  split.  \<open>mem k\<close> tells whether the two nodes for a split on level \<open>k\<close> can be allocated; if not, the box is the zeroed one of
  \<^verbatim>\<open>rsplit_t result\<close>, and what should have been added is lost.
\<close>

definition zero_box :: "nat \<Rightarrow> box" where
  "zero_box ndims = replicate ndims (dbl_0, dbl_0)"

definition rtree_insert_leaf ::
  "bool \<Rightarrow> nat \<Rightarrow> (box \<times> bytes) list \<Rightarrow> box \<times> bytes \<Rightarrow> (rnode \<times> box \<times> rnode option) option" where
  "rtree_insert_leaf mem ndims es e =
     (if length es < RT_M
      then Some (RLeaf (es @ [e]), node_recompute_mbr ndims (RLeaf (es @ [e])), None)
      else if \<not> mem then Some (RLeaf es, zero_box ndims, None)
      else map_option (\<lambda>(l, r). (RLeaf l, node_recompute_mbr ndims (RLeaf l), Some (RLeaf r))) (linear_split es e))"

text \<open>The second half of \<^verbatim>\<open>rtree_insert_internal\<close>, after the recursive call.\<close>

definition rtree_insert_child ::
  "bool \<Rightarrow> nat \<Rightarrow> (box \<times> rnode) list \<Rightarrow> rnode option \<Rightarrow> (rnode \<times> box \<times> rnode option) option" where
  "rtree_insert_child mem ndims es split =
     (case split of
        None \<Rightarrow> Some (RInner es, node_recompute_mbr ndims (RInner es), None)
      | Some right \<Rightarrow>
          let e = (node_recompute_mbr ndims right, right)
          in if length es < RT_M
             then Some (RInner (es @ [e]), node_recompute_mbr ndims (RInner (es @ [e])), None)
             else if \<not> mem then Some (RInner es, zero_box ndims, None)
             else map_option (\<lambda>(l, r). (RInner l, node_recompute_mbr ndims (RInner l), Some (RInner r))) (linear_split es e))"

lemma size_child: "i < length es \<Longrightarrow> size (snd (es ! i)) < Suc (size_list (size_prod (\<lambda>x. 0) size) es)"
  using size_list_estimation' [OF nth_mem, of i es "size (snd (es ! i))" "size_prod (\<lambda>x. 0) size"]
  by (cases "es ! i") simp

function rtree_insert_rec ::
  "(nat \<Rightarrow> bool) \<Rightarrow> nat \<Rightarrow> nat \<Rightarrow> rnode \<Rightarrow> box \<times> bytes \<Rightarrow> (rnode \<times> box \<times> rnode option) option" where
  "rtree_insert_rec mem k ndims (RLeaf es) e = rtree_insert_leaf (mem k) ndims es e"
| "rtree_insert_rec mem k ndims (RInner es) e =
     (let ci = choose_child (map fst es) (fst e)
      in if ci \<ge> length es then None
         else case rtree_insert_rec mem (Suc k) ndims (snd (es ! ci)) e of
                None \<Rightarrow> None
              | Some (child, b, split) \<Rightarrow> rtree_insert_child (mem k) ndims (es[ci := (b, child)]) split)"
  by pat_completeness auto
termination
  by (relation "measure (\<lambda>(mem, k, ndims, n, e). size n)") (simp_all add: size_child)

definition fastkv_rtree_create :: "bool \<Rightarrow> bool \<Rightarrow> nat \<Rightarrow> fastkv_err + fastkv_rtree" where
  "fastkv_rtree_create t_ok root_ok ndims =
     (if ndims = 0 \<or> ndims > RTREE_MAX_DIMS then Inl FASTKV_ERR_INVAL
      else if \<not> t_ok \<or> \<not> root_ok then Inl FASTKV_ERR_NOMEM
      else Inr \<lparr>rt_ndims = ndims, rt_root = RLeaf []\<rparr>)"

record rtree_env =
  rt_key :: bool
  rt_split :: "nat \<Rightarrow> bool"
  rt_newroot :: bool

definition fastkv_rtree_insert ::
  "rtree_env \<Rightarrow> fastkv_rtree \<Rightarrow> fastkv_rect \<Rightarrow> slice \<Rightarrow> (fastkv_err \<times> fastkv_rtree) option" where
  "fastkv_rtree_insert env t rect key =
     (case key of
        None \<Rightarrow> Some (FASTKV_ERR_INVAL, t)
      | Some k \<Rightarrow>
          if \<not> rt_key env then Some (FASTKV_ERR_NOMEM, t)
          else case rtree_insert_rec (rt_split env) 0 (rt_ndims t) (rt_root t) (rect_box (rt_ndims t) rect, k) of
                 None \<Rightarrow> None
               | Some (n, b, None) \<Rightarrow> Some (FASTKV_OK, t\<lparr>rt_root := n\<rparr>)
               | Some (n, b, Some right) \<Rightarrow>
                   if \<not> rt_newroot env then Some (FASTKV_ERR_NOMEM, t\<lparr>rt_root := n\<rparr>)
                   else Some (FASTKV_OK,
                          t\<lparr>rt_root := RInner [(node_recompute_mbr (rt_ndims t) n, n),
                                                (node_recompute_mbr (rt_ndims t) right, right)]\<rparr>))"

section \<open>Deletion\<close>

text \<open>In a leaf only the key is compared, not the box.\<close>

definition delete_leaf :: "bytes \<Rightarrow> (box \<times> bytes) list \<Rightarrow> (box \<times> bytes) list option" where
  "delete_leaf key es =
     (let i = length (takeWhile (\<lambda>e. snd e \<noteq> key) es)
      in if i < length es then Some (butlast (es[i := last es])) else None)"

fun rtree_delete_rec :: "nat \<Rightarrow> box \<Rightarrow> bytes \<Rightarrow> rnode \<Rightarrow> rnode option"
  and delete_loop :: "nat \<Rightarrow> box \<Rightarrow> bytes \<Rightarrow> (box \<times> rnode) list \<Rightarrow> (box \<times> rnode) list option" where
  "rtree_delete_rec ndims b key (RLeaf es) = map_option RLeaf (delete_leaf key es)"
| "rtree_delete_rec ndims b key (RInner es) = map_option RInner (delete_loop ndims b key es)"
| "delete_loop ndims b key [] = None"
| "delete_loop ndims b key ((eb, child) # es) =
     (if \<not> rect_intersects eb b then map_option ((#) (eb, child)) (delete_loop ndims b key es)
      else case rtree_delete_rec ndims b key child of
             Some child' \<Rightarrow> Some ((node_recompute_mbr ndims child', child') # es)
           | None \<Rightarrow> map_option ((#) (eb, child)) (delete_loop ndims b key es))"

definition fastkv_rtree_delete :: "fastkv_rtree \<Rightarrow> fastkv_rect \<Rightarrow> slice \<Rightarrow> fastkv_err \<times> fastkv_rtree" where
  "fastkv_rtree_delete t rect key =
     (case key of
        None \<Rightarrow> (FASTKV_ERR_INVAL, t)
      | Some k \<Rightarrow>
          (case rtree_delete_rec (rt_ndims t) (rect_box (rt_ndims t) rect) k (rt_root t) of
             Some n \<Rightarrow> (FASTKV_OK, t\<lparr>rt_root := n\<rparr>)
           | None \<Rightarrow> (FASTKV_ERR_NOTFOUND, t)))"

section \<open>Searches\<close>

type_synonym 's rtree_cb = "box \<Rightarrow> bytes \<Rightarrow> 's \<Rightarrow> fastkv_err \<times> 's"

text \<open>The two recursive searches differ in the test \<open>p\<close> on the box of a leaf entry.\<close>

fun search_leaf :: "(box \<Rightarrow> bool) \<Rightarrow> box \<Rightarrow> 's rtree_cb \<Rightarrow> (box \<times> bytes) list \<Rightarrow> 's \<Rightarrow> fastkv_err \<times> 's" where
  "search_leaf p b cb [] s = (FASTKV_OK, s)"
| "search_leaf p b cb ((eb, key) # es) s =
     (if \<not> rect_intersects eb b then search_leaf p b cb es s
      else if \<not> p eb then search_leaf p b cb es s
      else case cb eb key s of (rc, s') \<Rightarrow> if rc \<noteq> FASTKV_OK then (rc, s') else search_leaf p b cb es s')"

fun search_rec :: "(box \<Rightarrow> bool) \<Rightarrow> box \<Rightarrow> 's rtree_cb \<Rightarrow> rnode \<Rightarrow> 's \<Rightarrow> fastkv_err \<times> 's"
  and search_loop :: "(box \<Rightarrow> bool) \<Rightarrow> box \<Rightarrow> 's rtree_cb \<Rightarrow> (box \<times> rnode) list \<Rightarrow> 's \<Rightarrow> fastkv_err \<times> 's" where
  "search_rec p b cb (RLeaf es) s = search_leaf p b cb es s"
| "search_rec p b cb (RInner es) s = search_loop p b cb es s"
| "search_loop p b cb [] s = (FASTKV_OK, s)"
| "search_loop p b cb ((eb, child) # es) s =
     (if \<not> rect_intersects eb b then search_loop p b cb es s
      else case search_rec p b cb child s of
             (rc, s') \<Rightarrow> if rc \<noteq> FASTKV_OK then (rc, s') else search_loop p b cb es s')"

definition rtree_within_rec :: "box \<Rightarrow> 's rtree_cb \<Rightarrow> rnode \<Rightarrow> 's \<Rightarrow> fastkv_err \<times> 's" where
  "rtree_within_rec b = search_rec (\<lambda>eb. rect_within eb b) b"

definition rtree_intersects_rec :: "box \<Rightarrow> 's rtree_cb \<Rightarrow> rnode \<Rightarrow> 's \<Rightarrow> fastkv_err \<times> 's" where
  "rtree_intersects_rec b = search_rec (\<lambda>eb. True) b"

definition fastkv_rtree_within :: "fastkv_rtree \<Rightarrow> fastkv_rect \<Rightarrow> 's rtree_cb \<Rightarrow> 's \<Rightarrow> fastkv_err \<times> 's" where
  "fastkv_rtree_within t bounds cb s = rtree_within_rec (rect_box (rt_ndims t) bounds) cb (rt_root t) s"

definition fastkv_rtree_intersects :: "fastkv_rtree \<Rightarrow> fastkv_rect \<Rightarrow> 's rtree_cb \<Rightarrow> 's \<Rightarrow> fastkv_err \<times> 's" where
  "fastkv_rtree_intersects t bounds cb s = rtree_intersects_rec (rect_box (rt_ndims t) bounds) cb (rt_root t) s"

section \<open>Boxes that cover\<close>

text \<open>\<open>covers B b\<close>: on every axis \<open>b\<close> lies between the ends of \<open>B\<close>.\<close>

definition covers :: "box \<Rightarrow> box \<Rightarrow> bool" where
  "covers B b \<longleftrightarrow> list_all2 (\<lambda>(mn, mx) (bmn, bmx). mn \<le> bmn \<and> bmx \<le> mx) B b"

definition real_box :: "nat \<Rightarrow> box \<Rightarrow> bool" where
  "real_box ndims b \<longleftrightarrow> length b = ndims \<and> (\<forall>(mn, mx) \<in> set b. mn \<noteq> NaN \<and> mx \<noteq> NaN)"

lemma covers_refl: "covers b b"
  by (simp add: covers_def list_all2_same case_prod_unfold)

lemma covers_trans: "covers a b \<Longrightarrow> covers b c \<Longrightarrow> covers a c"
  unfolding covers_def by (rule list_all2_trans) (auto intro: order_trans)

lemma real_box_Cons: "real_box n ((mn, mx) # b) \<longleftrightarrow> 0 < n \<and> mn \<noteq> NaN \<and> mx \<noteq> NaN \<and> real_box (n - 1) b"
  by (auto simp: real_box_def)

lemma rect_expand_Nil [simp]: "rect_expand [] b = []" "rect_expand b [] = []"
  by (simp_all add: rect_expand_def)

lemma rect_expand_Cons [simp]: "rect_expand ((dmn, dmx) # d) ((smn, smx) # s) =
   (if dlt smn dmn then smn else dmn, if dlt dmx smx then smx else dmx) # rect_expand d s"
  by (simp add: rect_expand_def)

lemma expand_real:
  assumes "real_box n d" "real_box n s"
  shows "real_box n (rect_expand d s) \<and> covers (rect_expand d s) d \<and> covers (rect_expand d s) s"
  using assms
proof (induction d s arbitrary: n rule: list_induct2')
  case (4 x xs y ys)
  obtain dmn dmx smn smx where [simp]: "x = (dmn, dmx)" "y = (smn, smx)" by (metis surj_pair)
  from 4 show ?case by (auto simp: real_box_Cons covers_def dlt_def)
qed (auto simp: real_box_def covers_def)

lemma boxes_mbr_snoc: "boxes_mbr n (bs @ [b]) = rect_expand (boxes_mbr n bs) b"
  by (simp add: boxes_mbr_def)

lemma mbr_covers:
  assumes "\<forall>b \<in> set bs. real_box n b"
  shows "real_box n (boxes_mbr n bs) \<and> (\<forall>b \<in> set bs. covers (boxes_mbr n bs) b)"
  using assms
proof (induction bs rule: rev_induct)
  case Nil
  then show ?case by (auto simp: boxes_mbr_def real_box_def DBL_MAX_def minus_DBL_MAX_def)
next
  case (snoc b bs)
  note e = expand_real [of n "boxes_mbr n bs" b]
  show ?case using snoc e covers_trans by (auto simp: boxes_mbr_snoc)
qed

lemma intersects_covers:
  assumes "covers B e" "rect_intersects e b" "real_box n e" "real_box n B"
  shows "rect_intersects B b"
  using assms unfolding covers_def
proof (induction B e arbitrary: b n rule: list_all2_induct)
  case (Cons x xs y ys)
  obtain mn mx emn emx where [simp]: "x = (mn, mx)" "y = (emn, emx)" by (metis surj_pair)
  show ?case
  proof (cases b)
    case (Cons z zs)
    obtain bmn bmx where [simp]: "z = (bmn, bmx)" by (metis surj_pair)
    have "rect_intersects xs zs" using Cons.IH Cons.prems local.Cons by (auto simp: rect_intersects_def real_box_Cons)
    then show ?thesis
      using Cons.prems Cons.hyps(1) local.Cons by (fastforce simp: rect_intersects_def real_box_Cons dlt_def)
  qed (simp add: rect_intersects_def)
qed (simp add: rect_intersects_def)

section \<open>Invariant\<close>

text \<open>
  \<open>rt_wf ndims h n\<close>: all leaves below \<open>n\<close> are \<open>h\<close> levels down, no node is over-full, inner nodes have entries, and the box of
  a child is the exact bounding box of what it holds.
\<close>

fun rt_wf :: "nat \<Rightarrow> nat \<Rightarrow> rnode \<Rightarrow> bool" where
  "rt_wf ndims 0 (RLeaf es) \<longleftrightarrow> length es \<le> RT_M \<and> (\<forall>e \<in> set es. real_box ndims (fst e))"
| "rt_wf ndims (Suc h) (RInner es) \<longleftrightarrow> es \<noteq> [] \<and> length es \<le> RT_M
     \<and> (\<forall>e \<in> set es. fst e = node_recompute_mbr ndims (snd e) \<and> rt_wf ndims h (snd e))"
| "rt_wf ndims _ _ \<longleftrightarrow> False"

fun rt_entries :: "rnode \<Rightarrow> (box \<times> bytes) list" where
  "rt_entries (RLeaf es) = es"
| "rt_entries (RInner es) = concat (map (\<lambda>e. rt_entries (snd e)) es)"

lemma rt_wf_leaf [simp]: "rt_wf ndims h (RLeaf es) \<longleftrightarrow> h = 0 \<and> length es \<le> RT_M \<and> (\<forall>e \<in> set es. real_box ndims (fst e))"
  by (cases h) auto

lemma rt_wf_0: "rt_wf ndims 0 n \<Longrightarrow> \<exists>es. n = RLeaf es"
  by (cases n) auto

lemma rt_wf_Suc: "rt_wf ndims (Suc h) n \<Longrightarrow> \<exists>es. n = RInner es"
  by (cases n) auto

lemma wf_mbr:
  "rt_wf ndims h n \<Longrightarrow> real_box ndims (node_recompute_mbr ndims n)
     \<and> (\<forall>e \<in> set (rt_entries n). real_box ndims (fst e) \<and> covers (node_recompute_mbr ndims n) (fst e))"
proof (induction h arbitrary: n)
  case 0
  obtain es where "n = RLeaf es" using rt_wf_0 [OF 0] by blast
  with 0 show ?case using mbr_covers [of "map fst es" ndims] by (auto simp: node_recompute_mbr_def)
next
  case (Suc h)
  obtain es where n: "n = RInner es" using rt_wf_Suc [OF Suc.prems] by blast
  have ch: "\<forall>e \<in> set es. fst e = node_recompute_mbr ndims (snd e) \<and> rt_wf ndims h (snd e)" using Suc.prems n by simp
  then have m: "real_box ndims (node_recompute_mbr ndims n)" "\<forall>e \<in> set es. covers (node_recompute_mbr ndims n) (fst e)"
    using mbr_covers [of "map fst es" ndims] Suc.IH by (auto simp: node_recompute_mbr_def n)
  have "real_box ndims (fst x) \<and> covers (node_recompute_mbr ndims n) (fst x)" if "x \<in> set (rt_entries n)" for x
  proof -
    from that obtain e where e: "e \<in> set es" "x \<in> set (rt_entries (snd e))" by (auto simp: n)
    then show ?thesis using Suc.IH [of "snd e"] ch m(2) covers_trans by fastforce
  qed
  then show ?case using m(1) by blast
qed

section \<open>What searches report\<close>

fun report :: "'s rtree_cb \<Rightarrow> (box \<times> bytes) list \<Rightarrow> 's \<Rightarrow> fastkv_err \<times> 's" where
  "report cb [] s = (FASTKV_OK, s)"
| "report cb ((b, key) # es) s = (case cb b key s of (rc, s') \<Rightarrow> if rc \<noteq> FASTKV_OK then (rc, s') else report cb es s')"

lemma report_append:
  "report cb (xs @ ys) s = (case report cb xs s of (rc, s') \<Rightarrow> if rc \<noteq> FASTKV_OK then (rc, s') else report cb ys s')"
  by (induction xs arbitrary: s) (auto split: prod.split)

definition matching :: "(box \<Rightarrow> bool) \<Rightarrow> box \<Rightarrow> rnode \<Rightarrow> (box \<times> bytes) list" where
  "matching p b n = filter (\<lambda>e. rect_intersects (fst e) b \<and> p (fst e)) (rt_entries n)"

lemma search_leaf_report: "search_leaf p b cb es s = report cb (filter (\<lambda>e. rect_intersects (fst e) b \<and> p (fst e)) es) s"
  by (induction es arbitrary: s) (auto split: prod.split)

text \<open>A subtree whose box misses the bounds has no match.\<close>

lemma matching_none:
  assumes "rt_wf ndims h n" "\<not> rect_intersects (node_recompute_mbr ndims n) b"
  shows "matching p b n = []"
  using wf_mbr [OF assms(1)] intersects_covers assms(2) unfolding matching_def filter_empty_conv by blast

lemma search_report: "rt_wf ndims h n \<Longrightarrow> search_rec p b cb n s = report cb (matching p b n) s"
proof (induction h arbitrary: n s)
  case 0
  obtain es where "n = RLeaf es" using rt_wf_0 [OF 0] by blast
  then show ?case by (simp add: matching_def search_leaf_report)
next
  case (Suc h)
  obtain es where n: "n = RInner es" using rt_wf_Suc [OF Suc.prems] by blast
  have "search_loop p b cb es s = report cb (concat (map (\<lambda>e. matching p b (snd e)) es)) s"
    if "\<forall>e \<in> set es. fst e = node_recompute_mbr ndims (snd e) \<and> rt_wf ndims h (snd e)" for es s
    using that
  proof (induction es arbitrary: s)
    case (Cons e es)
    obtain eb c where e: "e = (eb, c)" by fastforce
    show ?case
    proof (cases "rect_intersects eb b")
      case True
      then show ?thesis using Cons Suc.IH [of c] by (auto simp: e report_append split: prod.split)
    next
      case False
      then show ?thesis using Cons matching_none [of ndims h c b p] by (simp add: e)
    qed
  qed simp
  then show ?case using Suc.prems by (simp add: n matching_def filter_concat comp_def)
qed

section \<open>Bounded coordinates\<close>

text \<open>
  Lower ends from \<open>-2^50\<close> on, upper ends up to \<open>2^50\<close>.  With at most 20 dimensions every area is then at most \<open>2^1020\<close>, so that
  no difference of areas is infinite or NaN.  The box of an empty node is bounded, too.
\<close>

definition coord_max :: int where
  "coord_max = 2 ^ 1124"

definition tame_axis :: "dbl \<times> dbl \<Rightarrow> bool" where
  "tame_axis c \<longleftrightarrow> fst c \<noteq> NaN \<and> snd c \<noteq> NaN \<and> Fin (- coord_max) \<le> fst c \<and> snd c \<le> Fin coord_max"

definition tame :: "nat \<Rightarrow> box \<Rightarrow> bool" where
  "tame ndims b \<longleftrightarrow> length b = ndims \<and> (\<forall>c \<in> set b. tame_axis c)"

lemma tame_real: "tame ndims b \<Longrightarrow> real_box ndims b"
  by (auto simp: tame_def real_box_def tame_axis_def)

lemma set_map_zip:
  assumes "\<forall>x \<in> set xs. P x" "\<forall>y \<in> set ys. P y" "\<And>x y. P x \<Longrightarrow> P y \<Longrightarrow> P (f (x, y))"
  shows "\<forall>z \<in> set (map f (zip xs ys)). P z"
proof
  fix z assume "z \<in> set (map f (zip xs ys))"
  then obtain x y where "(x, y) \<in> set (zip xs ys)" "z = f (x, y)" by auto
  then show "P z" using assms by (metis set_zip_leftD set_zip_rightD)
qed

lemma tame_expand: "tame n d \<Longrightarrow> tame n s \<Longrightarrow> tame n (rect_expand d s)"
  unfolding tame_def rect_expand_def by (intro conjI set_map_zip) (auto simp: tame_axis_def split: if_splits)

lemma tame_enlarged:
  "tame n d \<Longrightarrow> tame n s \<Longrightarrow>
   tame n (map (\<lambda>((mn, mx), (emn, emx)). (if dlt mn emn then mn else emn, if dlt emx mx then mx else emx)) (zip d s))"
  unfolding tame_def by (intro conjI set_map_zip) (auto simp: tame_axis_def split: if_splits)

lemma empty_tame: "tame n (replicate n (DBL_MAX, minus_DBL_MAX))"
proof -
  have "- coord_max \<le> 2 ^ 2098 - 2 ^ 2045" "2 ^ 2045 - 2 ^ 2098 \<le> coord_max" by (simp_all add: coord_max_def)
  then have "tame_axis (DBL_MAX, minus_DBL_MAX)" unfolding tame_axis_def DBL_MAX_def minus_DBL_MAX_def by simp
  then show ?thesis by (simp add: tame_def)
qed

lemma tame_mbr: "\<forall>b \<in> set bs. tame n b \<Longrightarrow> tame n (boxes_mbr n bs)"
proof (induction bs rule: rev_induct)
  case Nil
  then show ?case using empty_tame by (simp add: boxes_mbr_def)
qed (simp add: boxes_mbr_snoc tame_expand)

lemma area_loop_bound:
  assumes "\<forall>c \<in> set b. tame_axis c" "dbl_0 \<le> a" "a \<le> Fin (2 ^ (1074 + p))" "p + 51 * length b < 1024"
  shows "dbl_0 \<le> area_loop a b \<and> area_loop a b \<le> Fin (2 ^ (1074 + (p + 51 * length b)))"
  using assms
proof (induction a b arbitrary: p rule: area_loop.induct)
  case (2 a mn mx b)
  let ?d = "dsub mx mn"
  have d: "?d \<noteq> NaN" "?d \<le> Fin (2 ^ (1074 + 51))"
    using dsub_bound [of mx 1124 mn] "2.prems"(1) by (simp_all add: tame_axis_def coord_max_def)
  show ?case
  proof (cases "dle ?d dbl_0")
    case True
    then show ?thesis by (simp add: Let_def dbl_0_def)
  next
    case False
    moreover have "dbl_0 \<noteq> NaN" by (simp add: dbl_0_def)
    ultimately have "dbl_0 \<le> ?d" using d(1) unfolding dle_def by (meson linear)
    with d(2) have m: "dbl_0 \<le> dmul a ?d" "dmul a ?d \<le> Fin (2 ^ (1074 + (p + 51)))"
      using dmul_bound [OF "2.prems"(2,3), of ?d 51] "2.prems"(4) by auto
    have "p + 51 + 51 * length b < 1024" using "2.prems"(4) by simp
    from "2.IH" [OF refl False _ m this] "2.prems"(1)
    have "dbl_0 \<le> area_loop (dmul a ?d) b" "area_loop (dmul a ?d) b \<le> Fin (2 ^ (1074 + (p + 51 + 51 * length b)))"
      by auto
    moreover have "p + 51 + 51 * length b = p + 51 * length ((mn, mx) # b)" by simp
    ultimately show ?thesis using False unfolding area_loop.simps Let_def by (simp only: if_False)
  qed
qed simp

definition area_bound :: int where
  "area_bound = 2 ^ 2094"

definition areal :: "dbl \<Rightarrow> bool" where
  "areal x \<longleftrightarrow> (\<exists>a. x = Fin a \<and> 0 \<le> a \<and> a \<le> area_bound)"

lemma rect_area_bound:
  assumes "tame ndims b" "ndims \<le> RTREE_MAX_DIMS"
  shows "areal (rect_area b)"
proof -
  have l: "length b \<le> 20" "\<forall>c \<in> set b. tame_axis c" using assms by (simp_all add: tame_def RTREE_MAX_DIMS_def)
  have "dbl_0 \<le> dbl_1" "dbl_1 \<le> Fin (2 ^ (1074 + 0))" by (simp_all add: dbl_0_def dbl_1_def)
  from area_loop_bound [OF l(2) this] l(1) have "dbl_0 \<le> rect_area b" "rect_area b \<le> Fin (2 ^ (1074 + 51 * length b))"
    by (simp_all add: rect_area_def)
  moreover have "(2 :: int) ^ (1074 + 51 * length b) \<le> area_bound"
    unfolding area_bound_def using l(1) by (intro power_increasing) simp_all
  ultimately show ?thesis by (cases "rect_area b") (auto simp: areal_def dbl_0_def)
qed

text \<open>Differences of areas, and differences of those, are numbers.\<close>

lemma rnd_neg: "rnd k (- x) = dneg (rnd k x)"
  by (cases "x = 0", simp) (auto simp: rnd_def Let_def sgn_if)

lemma areal_diff:
  assumes "areal x" "areal y"
  shows "\<exists>c. dsub x y = Fin c"
proof -
  obtain a b where ab: "x = Fin a" "y = Fin b" "0 \<le> a" "a \<le> area_bound" "0 \<le> b" "b \<le> area_bound"
    using assms by (auto simp: areal_def)
  have "rnd 0 area_bound = Fin area_bound" using rnd_power [of 0 2094] by (simp add: area_bound_def)
  moreover have "rnd 0 (a - b) \<le> rnd 0 area_bound" "rnd 0 (- area_bound) \<le> rnd 0 (a - b)"
    using ab by (simp_all add: rnd_mono)
  ultimately have "Fin (- area_bound) \<le> dsub x y" "dsub x y \<le> Fin area_bound" by (simp_all add: ab dsub_def rnd_neg)
  then show ?thesis by (cases "dsub x y") auto
qed

lemma group_growth_fin:
  assumes "tame ndims g" "tame ndims b" "ndims \<le> RTREE_MAX_DIMS"
  shows "\<exists>c. group_growth g b = Fin c"
  unfolding group_growth_def rect_enlarged_area_def
  by (intro areal_diff rect_area_bound [OF _ assms(3)] tame_enlarged assms(1,2))

lemma diff_not_NaN: "minus_DBL_MAX < dabs (dsub (Fin a) (Fin b)) \<and> dabs (dsub (Fin a) (Fin b)) \<noteq> NaN"
proof -
  have "(2 :: int) ^ 2045 - 2 ^ 2098 < 0" by simp
  then show ?thesis unfolding minus_DBL_MAX_def less_dbl_def by (cases "dsub (Fin a) (Fin b)") (auto simp: dsub_def)
qed

section \<open>The split is sound\<close>

lemma pick_fold_some:
  "pick \<noteq> None \<Longrightarrow> snd (foldl (\<lambda>(best, pick) i. if dlt best (f i) then (f i, Some i) else (best, pick)) (best, pick) xs) \<noteq> None"
  by (induction xs arbitrary: best pick) auto

lemma pick_next_some:
  assumes "unused \<noteq> []" "\<forall>i \<in> set unused. tame ndims (bs ! i)" "tame ndims lb" "tame ndims rb" "ndims \<le> RTREE_MAX_DIMS"
  shows "\<exists>p \<in> set unused. pick_next bs lb rb unused = Some p"
proof -
  let ?f = "\<lambda>i. dabs (dsub (group_growth lb (bs ! i)) (group_growth rb (bs ! i)))"
  obtain i js where u: "unused = i # js" using assms(1) by (cases unused) auto
  have "tame ndims (bs ! i)" using assms(2) u by simp
  then obtain a b where "group_growth lb (bs ! i) = Fin a" "group_growth rb (bs ! i) = Fin b"
    using group_growth_fin assms(3-5) by metis
  then have "dlt minus_DBL_MAX (?f i)" using diff_not_NaN [of a b] unfolding dlt_def by (simp add: minus_DBL_MAX_def)
  then have "pick_next bs lb rb unused \<noteq> None"
    unfolding pick_next_def u Let_def foldl_Cons using pick_fold_some [of "Some i" ?f "?f i" js] by simp
  then show ?thesis using pick_next_mem by fastforce
qed

text \<open>The loop ends with at least \<^verbatim>\<open>RT_m\<close> entries on either side and loses none.\<close>

lemma distribute_ok:
  assumes "\<forall>i \<in> set unused. i < length all" "\<forall>x \<in> set all. tame ndims (fst x)" "tame ndims lb" "tame ndims rb" "ndims \<le> RTREE_MAX_DIMS"
    "RT_m \<le> length left + length unused" "RT_m \<le> length right + length unused" "2 * RT_m \<le> length left + length right + length unused"
  shows "\<exists>l r. distribute all unused left right lb rb = Some (l, r) \<and> RT_m \<le> length l \<and> RT_m \<le> length r
    \<and> mset l + mset r = mset left + mset right + mset (map ((!) all) unused)"
  using assms(1-4,6-8)
proof (induction all unused left right lb rb rule: distribute.induct)
  case (1 all unused left right lb rb)
  note unf = distribute.simps [of all unused left right lb rb]
  consider "unused = []" | "unused \<noteq> []" "length left + length unused = RT_m"
    | "unused \<noteq> []" "length left + length unused \<noteq> RT_m" "length right + length unused = RT_m"
    | "unused \<noteq> []" "length left + length unused \<noteq> RT_m" "length right + length unused \<noteq> RT_m" by blast
  then show ?case
  proof cases
    case 4
    have t: "\<forall>i \<in> set unused. tame ndims (map fst all ! i)" using "1.prems"(1,2) by auto
    from pick_next_some [OF 4(1) t "1.prems"(3,4) assms(5)] obtain p where
      p: "p \<in> set unused" "pick_next (map fst all) lb rb unused = Some p" by blast
    let ?b = "fst (all ! p)" and ?u = "remove1 p unused"
    let ?left = "dlt (group_growth lb ?b) (group_growth rb ?b) \<or> deq (group_growth lb ?b) (group_growth rb ?b) \<and> length left \<le> length right"
    have b: "tame ndims ?b" using t p(1) "1.prems"(1) by auto
    have u: "\<forall>i \<in> set ?u. i < length all" "Suc (length ?u) = length unused"
      using "1.prems"(1) p(1) by (auto simp: length_remove1 dest: notin_set_remove1 in_set_remove1) (metis Suc_pred length_pos_if_in_set)
    have m: "mset (map ((!) all) unused) = add_mset (all ! p) (mset (map ((!) all) ?u))" using p(1) by (simp flip: image_mset_add_mset)
    have s: "RT_m \<le> length left + length ?u" "RT_m \<le> length right + length ?u" "2 * RT_m \<le> Suc (length left + length right + length ?u)"
      using "1.prems"(5-7) 4 u(2) by linarith+
    show ?thesis
    proof (cases ?left)
      case True
      then have eq: "distribute all unused left right lb rb = distribute all ?u (left @ [all ! p]) right (rect_expand lb ?b) rb"
        using 4 p(2) by (simp add: unf Let_def)
      have "\<exists>l r. distribute all ?u (left @ [all ! p]) right (rect_expand lb ?b) rb = Some (l, r) \<and> RT_m \<le> length l \<and> RT_m \<le> length r
        \<and> mset l + mset r = mset (left @ [all ! p]) + mset right + mset (map ((!) all) ?u)"
        using u(1) "1.prems"(2,4) tame_expand [OF "1.prems"(3) b] s by (intro "1.IH"(1) [OF 4 p(2) refl refl refl True]) simp_all
      then show ?thesis unfolding eq m by (simp add: ac_simps)
    next
      case False
      then have eq: "distribute all unused left right lb rb = distribute all ?u left (right @ [all ! p]) lb (rect_expand rb ?b)"
        using 4 p(2) by (auto simp: unf Let_def)
      have "\<exists>l r. distribute all ?u left (right @ [all ! p]) lb (rect_expand rb ?b) = Some (l, r) \<and> RT_m \<le> length l \<and> RT_m \<le> length r
        \<and> mset l + mset r = mset left + mset (right @ [all ! p]) + mset (map ((!) all) ?u)"
        using u(1) "1.prems"(2,3) tame_expand [OF "1.prems"(4) b] s by (intro "1.IH"(2) [OF 4 p(2) refl refl refl False]) simp_all
      then show ?thesis unfolding eq m by (simp add: ac_simps)
    qed
  next
    case 1
    then show ?thesis using "1.prems"(5,6) unfolding unf by simp
  next
    case 2
    then show ?thesis using "1.prems"(7) by (simp add: unf)
  next
    case 3
    then show ?thesis using "1.prems"(7) by (simp add: unf)
  qed
qed

lemma split_seeds_less:
  assumes "2 \<le> length bs" "split_seeds bs = (i, j)"
  shows "i < j \<and> j < length bs"
proof -
  have inv: "fst (snd (foldl (\<lambda>(w, s) (i, j). let x = f i j in if dlt w x then (x, i, j) else (w, s)) (w, s) ps))
      < snd (snd (foldl (\<lambda>(w, s) (i, j). let x = f i j in if dlt w x then (x, i, j) else (w, s)) (w, s) ps))
    \<and> snd (snd (foldl (\<lambda>(w, s) (i, j). let x = f i j in if dlt w x then (x, i, j) else (w, s)) (w, s) ps)) < n"
    if "\<forall>(i, j) \<in> set ps. i < j \<and> j < n" "fst s < snd s \<and> snd s < n" for f :: "nat \<Rightarrow> nat \<Rightarrow> dbl" and w s ps n
    using that by (induction ps arbitrary: w s) (auto simp: Let_def split: if_splits)
  have "\<forall>(i, j) \<in> set [(i, j). i \<leftarrow> [0..<length bs - 1], j \<leftarrow> [Suc i..<length bs]]. i < j \<and> j < length bs" by auto
  from inv [OF this, of "(0, length bs - 1)" "\<lambda>i j. split_waste (bs ! i) (bs ! j)" minus_DBL_MAX] assms
  show ?thesis by (simp add: split_seeds_def)
qed

lemma mset_two: "i \<in> set xs \<Longrightarrow> j \<in> set xs \<Longrightarrow> i \<noteq> j \<Longrightarrow> mset xs = add_mset i (add_mset j (mset (remove1 j (remove1 i xs))))"
  by (metis in_set_remove1 insert_DiffM mset_remove1 set_mset_mset)

lemma linear_split_ok:
  assumes "length es = RT_M" "\<forall>x \<in> set (es @ [e]). tame ndims (fst x)" "ndims \<le> RTREE_MAX_DIMS"
  shows "\<exists>l r. linear_split es e = Some (l, r) \<and> RT_m \<le> length l \<and> RT_m \<le> length r
    \<and> mset l + mset r = add_mset e (mset es)"
proof -
  let ?all = "es @ [e]"
  obtain i j where ij: "split_seeds (map fst ?all) = (i, j)" by fastforce
  have n: "length ?all = 10" using assms(1) by (simp add: RT_M_def)
  have lt: "i < j" "j < length ?all" using split_seeds_less [OF _ ij] n by simp_all
  let ?u = "filter (\<lambda>x. x \<noteq> i \<and> x \<noteq> j) [0..<length ?all]"
  have u: "?u = remove1 j (remove1 i [0..<length ?all])"
    by (auto simp: distinct_remove1_removeAll removeAll_filter_not_eq intro!: filter_cong)
  have len: "length ?u = 8" unfolding u using lt n by (simp add: length_remove1 del: length_append)
  have "mset ?all = mset (map ((!) ?all) [0..<length ?all])" by (simp only: map_nth)
  also have "mset [0..<length ?all] = add_mset i (add_mset j (mset ?u))"
    unfolding u using lt by (intro mset_two) auto
  then have "mset (map ((!) ?all) [0..<length ?all]) = add_mset (?all ! i) (add_mset (?all ! j) (mset (map ((!) ?all) ?u)))"
    unfolding mset_map by (simp only: image_mset_add_mset)
  finally have m: "mset ?all = add_mset (?all ! i) (add_mset (?all ! j) (mset (map ((!) ?all) ?u)))" .
  have t: "tame ndims (fst (?all ! i))" "tame ndims (fst (?all ! j))" using assms(2) lt by (meson nth_mem order_less_trans)+
  have "\<exists>l r. distribute ?all ?u [?all ! i] [?all ! j] (fst (?all ! i)) (fst (?all ! j)) = Some (l, r) \<and> RT_m \<le> length l
      \<and> RT_m \<le> length r \<and> mset l + mset r = mset [?all ! i] + mset [?all ! j] + mset (map ((!) ?all) ?u)"
    using len by (intro distribute_ok [OF _ assms(2) t assms(3)]) (simp_all add: RT_m_def)
  moreover have "linear_split es e = distribute ?all ?u [?all ! i] [?all ! j] (fst (?all ! i)) (fst (?all ! j))"
    using ij by (simp add: linear_split_def Let_def)
  ultimately show ?thesis using m by auto
qed

section \<open>Insertion is sound\<close>

definition rt_tame :: "nat \<Rightarrow> rnode \<Rightarrow> bool" where
  "rt_tame ndims n \<longleftrightarrow> (\<forall>e \<in> set (rt_entries n). tame ndims (fst e))"

abbreviation stored :: "rnode \<Rightarrow> (box \<times> bytes) multiset" where
  "stored n \<equiv> mset (rt_entries n)"

definition kids :: "nat \<Rightarrow> nat \<Rightarrow> (box \<times> rnode) list \<Rightarrow> bool" where
  "kids ndims h es \<longleftrightarrow> (\<forall>e \<in> set es. fst e = node_recompute_mbr ndims (snd e) \<and> rt_wf ndims h (snd e) \<and> rt_tame ndims (snd e))"

text \<open>A well-formed node together with the new right node, if there is one.\<close>

fun good_split :: "nat \<Rightarrow> nat \<Rightarrow> (box \<times> bytes) multiset \<Rightarrow> (rnode \<times> box \<times> rnode option) option \<Rightarrow> bool" where
  "good_split ndims h M (Some (n, b, None)) \<longleftrightarrow> b = node_recompute_mbr ndims n \<and> rt_wf ndims h n \<and> stored n = M"
| "good_split ndims h M (Some (n, b, Some r)) \<longleftrightarrow>
     b = node_recompute_mbr ndims n \<and> rt_wf ndims h n \<and> rt_wf ndims h r \<and> stored n + stored r = M"
| "good_split ndims h M None \<longleftrightarrow> False"

lemma wf_inner: "rt_wf ndims (Suc h) (RInner es) \<and> rt_tame ndims (RInner es) \<longleftrightarrow> es \<noteq> [] \<and> length es \<le> RT_M \<and> kids ndims h es"
  by (auto simp: kids_def rt_tame_def)

lemma mbr_tame: "rt_wf ndims h n \<Longrightarrow> rt_tame ndims n \<Longrightarrow> tame ndims (node_recompute_mbr ndims n)"
proof (induction h arbitrary: n)
  case 0
  obtain es where "n = RLeaf es" using rt_wf_0 [OF 0(1)] by blast
  with 0 show ?case using tame_mbr [of "map fst es" ndims] by (auto simp: node_recompute_mbr_def rt_tame_def)
next
  case (Suc h)
  obtain es where n: "n = RInner es" using rt_wf_Suc [OF Suc.prems(1)] by blast
  have "kids ndims h es" using Suc.prems wf_inner unfolding n by blast
  then have "\<forall>b \<in> set (map fst es). tame ndims b" using Suc.IH by (auto simp: kids_def)
  then show ?case using tame_mbr by (simp add: node_recompute_mbr_def n)
qed

lemma stored_inner: "stored (RInner es) = (\<Sum>e \<in># mset es. stored (snd e))"
  by (simp add: mset_concat comp_def flip: sum_mset_sum_list)

lemma choose_loop_bound: "best < i \<or> best = 0 \<and> i = 0 \<Longrightarrow> bs \<noteq> [] \<or> best < i \<Longrightarrow> choose_loop e i best be ba bs < i + length bs"
proof (induction bs arbitrary: i best be ba)
  case (Cons b bs)
  then show ?case using Cons.IH [of i "Suc i"] Cons.IH [of best "Suc i"] by (auto simp: Let_def)
qed simp

lemma choose_child_bound: "bs \<noteq> [] \<Longrightarrow> choose_child bs e < length bs"
  using choose_loop_bound [of 0 0 bs] by (simp add: choose_child_def)

lemma split_lengths:
  assumes "mset l + mset r = add_mset e (mset es)" "length es = RT_M" "RT_m \<le> length l" "RT_m \<le> length r"
  shows "l \<noteq> []" "r \<noteq> []" "length l \<le> RT_M" "length r \<le> RT_M"
proof -
  have "length l + length r = Suc (length es)" using arg_cong [OF assms(1), of size] by simp
  then show "l \<noteq> []" "r \<noteq> []" "length l \<le> RT_M" "length r \<le> RT_M" using assms(2-4) by (auto simp: RT_M_def RT_m_def)
qed

lemma insert_leaf_ok:
  assumes "rt_wf ndims 0 (RLeaf es)" "rt_tame ndims (RLeaf es)" "tame ndims (fst e)" "ndims \<le> RTREE_MAX_DIMS"
  shows "good_split ndims 0 (add_mset e (stored (RLeaf es))) (rtree_insert_leaf True ndims es e)"
proof (cases "length es < RT_M")
  case True
  then show ?thesis using assms tame_real by (auto simp: rtree_insert_leaf_def)
next
  case False
  then have f: "length es = RT_M" using assms(1) by simp
  have t: "\<forall>x \<in> set (es @ [e]). tame ndims (fst x)" using assms(2,3) by (auto simp: rt_tame_def)
  from linear_split_ok [OF f t assms(4)] obtain l r where
    s: "linear_split es e = Some (l, r)" "RT_m \<le> length l" "RT_m \<le> length r" "mset l + mset r = add_mset e (mset es)" by blast
  have "set l \<union> set r = insert e (set es)" using arg_cong [OF s(4), of set_mset] by simp
  then have "\<forall>x \<in> set l \<union> set r. real_box ndims (fst x)" using t tame_real by auto
  then show ?thesis using False s(1,4) split_lengths [OF s(4) f s(2,3)] by (auto simp: rtree_insert_leaf_def)
qed

lemma insert_child_ok:
  assumes "kids ndims h es" "es \<noteq> []" "length es \<le> RT_M" "ndims \<le> RTREE_MAX_DIMS"
    "\<forall>r. split = Some r \<longrightarrow> rt_wf ndims h r \<and> rt_tame ndims r"
  shows "good_split ndims (Suc h) (stored (RInner es) + (case split of None \<Rightarrow> {#} | Some r \<Rightarrow> stored r))
    (rtree_insert_child True ndims es split)"
proof (cases split)
  case None
  then show ?thesis using assms by (auto simp: rtree_insert_child_def kids_def)
next
  case (Some rn)
  let ?e = "(node_recompute_mbr ndims rn, rn)"
  have k: "kids ndims h (es @ [?e])" using assms(1,5) Some by (auto simp: kids_def)
  show ?thesis
  proof (cases "length es < RT_M")
    case True
    then show ?thesis using k by (auto simp: rtree_insert_child_def Some Let_def kids_def)
  next
    case False
    then have f: "length es = RT_M" using assms(3) by simp
    have t: "\<forall>x \<in> set (es @ [?e]). tame ndims (fst x)" using k mbr_tame unfolding kids_def by metis
    from linear_split_ok [OF f t assms(4)] obtain l r where
      s: "linear_split es ?e = Some (l, r)" "RT_m \<le> length l" "RT_m \<le> length r" "mset l + mset r = add_mset ?e (mset es)" by blast
    have "set l \<union> set r = set (es @ [?e])" using arg_cong [OF s(4), of set_mset] by simp
    then have "kids ndims h l" "kids ndims h r" using k unfolding kids_def by blast+
    moreover have "stored (RInner l) + stored (RInner r) = stored (RInner es) + stored rn"
      unfolding stored_inner sum_mset.union [symmetric] image_mset_union [symmetric] s(4) by simp
    ultimately show ?thesis
      using False s(1) split_lengths [OF s(4) f s(2,3)] by (auto simp: rtree_insert_child_def Some Let_def kids_def simp del: rt_entries.simps)
  qed
qed

lemma stored_update:
  assumes "i < length es" "stored c + M = add_mset e (stored (snd (es ! i)))"
  shows "stored (RInner (es[i := (b, c)])) + M = add_mset e (stored (RInner es))"
proof -
  define S where "S = (\<Sum>e \<in># mset es - {#es ! i#}. stored (snd e))"
  have m: "add_mset (es ! i) (mset es - {#es ! i#}) = mset es" using assms(1) by simp
  have "(\<Sum>e \<in># add_mset (es ! i) (mset es - {#es ! i#}). stored (snd e)) = stored (snd (es ! i)) + S" by (simp add: S_def)
  then have "stored (RInner es) = stored (snd (es ! i)) + S" by (simp only: stored_inner m)
  moreover have "stored (RInner (es[i := (b, c)])) = stored c + S"
    unfolding stored_inner mset_update [OF assms(1)] S_def by simp
  moreover have "stored c + S + M = (stored c + M) + S" by (simp only: ac_simps)
  ultimately show ?thesis by (simp only: assms(2) union_mset_add_mset_left)
qed

lemma stored_tame:
  assumes "stored c + M = add_mset e N" "\<forall>x \<in># N. tame ndims (fst x)" "tame ndims (fst e)"
  shows "rt_tame ndims c" "\<forall>x \<in># M. tame ndims (fst x)"
proof -
  have "set (rt_entries c) \<union> set_mset M = insert e (set_mset N)" using arg_cong [OF assms(1), of set_mset] by simp
  then show "rt_tame ndims c" "\<forall>x \<in># M. tame ndims (fst x)" using assms(2,3) by (auto simp: rt_tame_def)
qed

lemma insert_rec_ok:
  assumes "rt_wf ndims h n" "rt_tame ndims n" "tame ndims (fst e)" "ndims \<le> RTREE_MAX_DIMS" "\<forall>k. mem k"
  shows "good_split ndims h (add_mset e (stored n)) (rtree_insert_rec mem k ndims n e)"
  using assms(1,2)
proof (induction h arbitrary: n k)
  case 0
  obtain es where "n = RLeaf es" using rt_wf_0 [OF 0(1)] by blast
  with 0 show ?case using insert_leaf_ok assms(3-5) by simp
next
  case (Suc h)
  obtain es where n: "n = RInner es" using rt_wf_Suc [OF Suc.prems(1)] by blast
  have es: "es \<noteq> []" "length es \<le> RT_M" "kids ndims h es" using Suc.prems wf_inner unfolding n by blast+
  define ci where "ci = choose_child (map fst es) (fst e)"
  have ci: "ci < length es" using choose_child_bound [of "map fst es" "fst e"] es(1) by (simp add: ci_def)
  let ?c = "snd (es ! ci)"
  have c: "rt_wf ndims h ?c" "rt_tame ndims ?c" using es(3) ci by (auto simp: kids_def)
  have g: "good_split ndims h (add_mset e (stored ?c)) (rtree_insert_rec mem (Suc k) ndims ?c e)" by (rule Suc.IH [OF c])
  obtain c' b r where r: "rtree_insert_rec mem (Suc k) ndims ?c e = Some (c', b, r)"
    using g by (cases "rtree_insert_rec mem (Suc k) ndims ?c e") auto
  let ?M = "case r of None \<Rightarrow> {#} | Some rn \<Rightarrow> stored rn"
  have c': "b = node_recompute_mbr ndims c'" "rt_wf ndims h c'" "\<forall>rn. r = Some rn \<longrightarrow> rt_wf ndims h rn"
      "stored c' + ?M = add_mset e (stored ?c)"
    using g unfolding r by (cases r; simp)+
  have t: "rt_tame ndims c'" "\<forall>x \<in># ?M. tame ndims (fst x)"
    using stored_tame [OF c'(4) _ assms(3)] c(2) by (auto simp: rt_tame_def)
  have "set (es[ci := (b, c')]) \<subseteq> insert (b, c') (set es)" by (rule set_update_subset_insert)
  then have k: "kids ndims h (es[ci := (b, c')])" using es(3) c'(1,2) t(1) by (fastforce simp: kids_def)
  have "good_split ndims (Suc h) (stored (RInner (es[ci := (b, c')])) + ?M) (rtree_insert_child True ndims (es[ci := (b, c')]) r)"
    using es(1,2) c'(3) t(2) by (intro insert_child_ok [OF k _ _ assms(4)]) (auto simp: rt_tame_def)
  moreover have "mem k" using assms(5) by blast
  ultimately show ?case
    using ci r stored_update [OF ci c'(4)]
    by (simp add: n Let_def not_le flip: ci_def del: rt_entries.simps)
qed

section \<open>Deletion is sound\<close>

lemma last_update: "i < length xs \<Longrightarrow> last (xs[i := last xs]) = last xs"
  by (cases xs rule: rev_cases) (auto simp: list_update_append split: nat.splits)

lemma mset_last: "xs \<noteq> [] \<Longrightarrow> mset xs = add_mset (last xs) (mset (butlast xs))"
  by (cases xs rule: rev_cases) auto

lemma delete_leaf_some:
  assumes "delete_leaf key es = Some es'"
  shows "\<exists>x \<in> set es. snd x = key \<and> mset es = add_mset x (mset es')"
proof -
  let ?i = "length (takeWhile (\<lambda>e. snd e \<noteq> key) es)"
  have i: "?i < length es" "es' = butlast (es[?i := last es])" using assms by (auto simp: delete_leaf_def Let_def split: if_splits)
  let ?u = "es[?i := last es]"
  have u: "?u \<noteq> []" "last ?u = last es" using i(1) last_update by auto
  have "mset ?u = add_mset (last es) (mset es')" using u mset_last [OF u(1)] i(2) by simp
  then have "add_mset (last es) (mset es - {#es ! ?i#}) = add_mset (last es) (mset es')" using i(1) by (simp add: mset_update)
  then have "mset es - {#es ! ?i#} = mset es'" by simp
  then have "mset es = add_mset (es ! ?i) (mset es')" using i(1) by (metis insert_DiffM nth_mem_mset)
  then show ?thesis using nth_length_takeWhile [OF i(1)] nth_mem [OF i(1)] by auto
qed

lemma takeWhile_stops: "x \<in> set xs \<Longrightarrow> \<not> P x \<Longrightarrow> length (takeWhile P xs) < length xs"
  by (induction xs) auto

lemma delete_leaf_none: "delete_leaf key es = None \<Longrightarrow> x \<in> set es \<Longrightarrow> snd x \<noteq> key"
  using takeWhile_stops [of x es "\<lambda>e. snd e \<noteq> key"] by (auto simp: delete_leaf_def Let_def split: if_splits)

text \<open>What a deletion below a node does, found or not.\<close>

definition deleted :: "nat \<Rightarrow> nat \<Rightarrow> box \<Rightarrow> bytes \<Rightarrow> rnode \<Rightarrow> rnode option \<Rightarrow> bool" where
  "deleted ndims h b key n res \<longleftrightarrow>
     (case res of
        Some n' \<Rightarrow> rt_wf ndims h n' \<and> (\<exists>x. snd x = key \<and> stored n = add_mset x (stored n'))
      | None \<Rightarrow> \<forall>x \<in># stored n. snd x = key \<longrightarrow> \<not> rect_intersects (fst x) b)"

lemma delete_rec_ok: "rt_wf ndims h n \<Longrightarrow> deleted ndims h b key n (rtree_delete_rec ndims b key n)"
proof (induction h arbitrary: n)
  case 0
  obtain es where n: "n = RLeaf es" using rt_wf_0 [OF 0] by blast
  show ?case
  proof (cases "delete_leaf key es")
    case None
    then show ?thesis using delete_leaf_none by (auto simp: n deleted_def)
  next
    case (Some es')
    from delete_leaf_some [OF this] obtain x where x: "snd x = key" "mset es = add_mset x (mset es')" by blast
    have "length es = Suc (length es')" "set es' \<subseteq> set es"
      using arg_cong [OF x(2), of size] arg_cong [OF x(2), of set_mset] by auto
    then show ?thesis using 0 x Some by (cases x) (auto simp: n deleted_def)
  qed
next
  case (Suc h)
  let ?kid = "\<lambda>e. fst e = node_recompute_mbr ndims (snd e) \<and> rt_wf ndims h (snd e)"
  obtain es where n: "n = RInner es" using rt_wf_Suc [OF Suc.prems] by blast
  have "case delete_loop ndims b key es of
      Some es' \<Rightarrow> length es' = length es \<and> (\<forall>e \<in> set es'. ?kid e) \<and> (\<exists>x. snd x = key \<and> stored (RInner es) = add_mset x (stored (RInner es')))
    | None \<Rightarrow> \<forall>x \<in># stored (RInner es). snd x = key \<longrightarrow> \<not> rect_intersects (fst x) b"
    if "\<forall>e \<in> set es. ?kid e" for es
    using that
  proof (induction es)
    case (Cons e es)
    obtain eb c where e: "e = (eb, c)" by fastforce
    have c: "eb = node_recompute_mbr ndims c" "rt_wf ndims h c" using Cons.prems e by auto
    have d: "deleted ndims h b key c (rtree_delete_rec ndims b key c)" by (rule Suc.IH [OF c(2)])
    have miss: "\<forall>x \<in># stored c. \<not> rect_intersects (fst x) b" if "\<not> rect_intersects eb b"
      using matching_none [OF c(2), of b "\<lambda>_. True"] that c(1) by (auto simp: matching_def filter_empty_conv)
    show ?case
    proof (cases "rect_intersects eb b \<and> rtree_delete_rec ndims b key c \<noteq> None")
      case True
      then show ?thesis using d Cons.prems by (auto simp: e deleted_def)
    next
      case False
      then have loop: "delete_loop ndims b key (e # es) = map_option ((#) e) (delete_loop ndims b key es)" by (auto simp: e)
      have "\<forall>x \<in># stored c. snd x = key \<longrightarrow> \<not> rect_intersects (fst x) b"
      proof (cases "rect_intersects eb b")
        case True
        then show ?thesis using False d by (simp add: deleted_def)
      qed (use miss in blast)
      then show ?thesis using Cons.IH Cons.prems unfolding loop by (cases "delete_loop ndims b key es") (auto simp: e)
    qed
  qed simp
  then show ?case using Suc.prems by (fastforce simp: n deleted_def split: option.splits)
qed

section \<open>The index as a bag of boxes with keys\<close>

text \<open>What a client of a spatial index relies on.\<close>

locale spatial_index =
  fixes ok :: "'t \<Rightarrow> bool"
    and contents :: "'t \<Rightarrow> (box \<times> bytes) multiset"
    and fitting :: "box \<Rightarrow> bool"
    and add :: "'t \<Rightarrow> box \<times> bytes \<Rightarrow> 't option"
    and found :: "'t \<Rightarrow> box \<Rightarrow> (box \<times> bytes) list"
  assumes add_ok: "ok t \<Longrightarrow> fitting (fst e) \<Longrightarrow> \<exists>t'. add t e = Some t' \<and> ok t' \<and> contents t' = add_mset e (contents t)"
    and found_exact: "ok t \<Longrightarrow> mset (found t b) = filter_mset (\<lambda>e. rect_intersects (fst e) b) (contents t)"
begin

fun adds :: "'t \<Rightarrow> (box \<times> bytes) list \<Rightarrow> 't option" where
  "adds t [] = Some t"
| "adds t (e # es) = (case add t e of None \<Rightarrow> None | Some t' \<Rightarrow> adds t' es)"

lemma adds_found:
  "ok t \<Longrightarrow> \<forall>e \<in> set es. fitting (fst e) \<Longrightarrow>
   \<exists>t'. adds t es = Some t' \<and> ok t' \<and> contents t' = mset es + contents t
     \<and> mset (found t' b) = filter_mset (\<lambda>e. rect_intersects (fst e) b) (mset es + contents t)"
proof (induction es arbitrary: t)
  case Nil
  then show ?case using found_exact by simp
next
  case (Cons e es)
  then obtain t1 where t1: "add t e = Some t1" "ok t1" "contents t1 = add_mset e (contents t)" using add_ok [of t e] by auto
  then show ?case using Cons.IH [of t1] Cons.prems by (auto simp: ac_simps)
qed

end

definition rtree_ok :: "fastkv_rtree \<Rightarrow> bool" where
  "rtree_ok t \<longleftrightarrow> 0 < rt_ndims t \<and> rt_ndims t \<le> RTREE_MAX_DIMS
     \<and> (\<exists>h. rt_wf (rt_ndims t) h (rt_root t)) \<and> rt_tame (rt_ndims t) (rt_root t)"

definition mem_enough :: "rtree_env \<Rightarrow> bool" where
  "mem_enough env \<longleftrightarrow> rt_key env \<and> (\<forall>k. rt_split env k) \<and> rt_newroot env"

lemma create_ok: "fastkv_rtree_create True True ndims = Inr t \<Longrightarrow> rtree_ok t \<and> rt_ndims t = ndims \<and> stored (rt_root t) = {#}"
  by (auto simp: fastkv_rtree_create_def rtree_ok_def rt_tame_def split: if_splits)

lemma insert_refines:
  assumes "rtree_ok t" "tame (rt_ndims t) (rect_box (rt_ndims t) rect)" "mem_enough env"
  shows "\<exists>t'. fastkv_rtree_insert env t rect (Some key) = Some (FASTKV_OK, t') \<and> rtree_ok t' \<and> rt_ndims t' = rt_ndims t
    \<and> stored (rt_root t') = add_mset (rect_box (rt_ndims t) rect, key) (stored (rt_root t))"
proof -
  let ?nd = "rt_ndims t" and ?n = "rt_root t"
  let ?e = "(rect_box ?nd rect, key)"
  obtain h where h: "rt_wf ?nd h ?n" "rt_tame ?nd ?n" "0 < ?nd" "?nd \<le> RTREE_MAX_DIMS" using assms(1) by (auto simp: rtree_ok_def)
  have te: "tame ?nd (fst ?e)" using assms(2) by simp
  have g: "good_split ?nd h (add_mset ?e (stored ?n)) (rtree_insert_rec (rt_split env) 0 ?nd ?n ?e)"
    using assms(3) by (intro insert_rec_ok [OF h(1,2) te h(4)]) (simp add: mem_enough_def)
  have t: "\<forall>x \<in># add_mset ?e (stored ?n). tame ?nd (fst x)" using h(2) te by (simp add: rt_tame_def)
  obtain n b r where r: "rtree_insert_rec (rt_split env) 0 ?nd ?n ?e = Some (n, b, r)"
    using g by (cases "rtree_insert_rec (rt_split env) 0 ?nd ?n ?e") auto
  show ?thesis
  proof (cases r)
    case None
    then have "stored n = add_mset ?e (stored ?n)" "rt_wf ?nd h n" using g r by simp_all
    moreover from this(1) t have "rt_tame ?nd n" unfolding rt_tame_def by (metis set_mset_mset)
    ultimately show ?thesis using r None assms(3) h(3,4) by (auto simp: fastkv_rtree_insert_def mem_enough_def rtree_ok_def)
  next
    case (Some rn)
    let ?root = "RInner [(node_recompute_mbr ?nd n, n), (node_recompute_mbr ?nd rn, rn)]"
    have s: "stored ?root = add_mset ?e (stored ?n)" "rt_wf ?nd h n" "rt_wf ?nd h rn" using g r Some by simp_all
    have "rt_tame ?nd ?root" using t unfolding s(1) [symmetric] by (simp add: rt_tame_def)
    moreover have "rt_wf ?nd (Suc h) ?root" using s(2,3) by (simp add: RT_M_def)
    ultimately have "rtree_ok (t\<lparr>rt_root := ?root\<rparr>)" using h(3,4) by (auto simp: rtree_ok_def simp del: rt_wf.simps)
    then show ?thesis using r Some assms(3) s(1) by (auto simp: fastkv_rtree_insert_def mem_enough_def)
  qed
qed

definition box_rect :: "box \<Rightarrow> fastkv_rect" where
  "box_rect b = \<lparr>rect_min = map fst b, rect_max = map snd b, rect_ndims = length b\<rparr>"

lemma rect_box_rect: "length b = ndims \<Longrightarrow> rect_box ndims (box_rect b) = b"
  by (simp add: rect_box_def box_rect_def zip_map_fst_snd)

definition all_mem :: rtree_env where
  "all_mem = \<lparr>rt_key = True, rt_split = \<lambda>_. True, rt_newroot = True\<rparr>"

definition collect_cb :: "(box \<times> bytes) list rtree_cb" where
  "collect_cb b key s = (FASTKV_OK, s @ [(b, key)])"

lemma report_collect: "report collect_cb es s = (FASTKV_OK, s @ es)"
  by (induction es arbitrary: s) (auto simp: collect_cb_def)

definition rtree_add :: "fastkv_rtree \<Rightarrow> box \<times> bytes \<Rightarrow> fastkv_rtree option" where
  "rtree_add t e = map_option snd (fastkv_rtree_insert all_mem t (box_rect (fst e)) (Some (snd e)))"

fun rtree_adds :: "fastkv_rtree \<Rightarrow> (box \<times> bytes) list \<Rightarrow> fastkv_rtree option" where
  "rtree_adds t [] = Some t"
| "rtree_adds t (e # es) = (case rtree_add t e of None \<Rightarrow> None | Some t' \<Rightarrow> rtree_adds t' es)"

interpretation rti: spatial_index "\<lambda>t. rtree_ok t \<and> rt_ndims t = nd" "\<lambda>t. stored (rt_root t)" "tame nd" rtree_add
    "\<lambda>t b. snd (rtree_intersects_rec b collect_cb (rt_root t) [])" for nd
proof
  fix t :: fastkv_rtree and e :: "box \<times> bytes"
  assume t: "rtree_ok t \<and> rt_ndims t = nd" and f: "tame nd (fst e)"
  then have b: "rect_box nd (box_rect (fst e)) = fst e" using rect_box_rect [of "fst e" nd] by (simp add: tame_def)
  have "mem_enough all_mem" by (simp add: mem_enough_def all_mem_def)
  from insert_refines [of t "box_rect (fst e)", OF _ _ this, of "snd e"] t f b
  show "\<exists>t'. rtree_add t e = Some t' \<and> (rtree_ok t' \<and> rt_ndims t' = nd) \<and> stored (rt_root t') = add_mset e (stored (rt_root t))"
    by (auto simp: rtree_add_def)
next
  fix t :: fastkv_rtree and b :: box
  assume "rtree_ok t \<and> rt_ndims t = nd"
  then obtain h where "rt_wf nd h (rt_root t)" by (auto simp: rtree_ok_def)
  then show "mset (snd (rtree_intersects_rec b collect_cb (rt_root t) [])) = filter_mset (\<lambda>e. rect_intersects (fst e) b) (stored (rt_root t))"
    by (simp add: rtree_intersects_rec_def search_report report_collect matching_def mset_filter)
qed

lemma rti_adds: "rti.adds = rtree_adds"
proof (intro ext)
  show "rti.adds t es = rtree_adds t es" for t es by (induction es arbitrary: t) (auto split: option.split)
qed

section \<open>Properties\<close>

text \<open>
  Property C16.  Insertion refines adding to a bag: on a well-formed tree of any height, with memory for the nodes, the insertion
  of a box whose ends are within \<open>2^50\<close> (and not NaN) returns \<^verbatim>\<open>FASTKV_OK\<close>, adds the entry and nothing else, splits nodes
  without reading or writing outside an array, and leaves the tree balanced, its nodes with at most \<^verbatim>\<open>RT_M\<close> entries and the box
  of every child exact.
\<close>

theorem rtree_insert_refines:
  assumes "rtree_ok t" "tame (rt_ndims t) (rect_box (rt_ndims t) rect)" "mem_enough env"
  shows "\<exists>t'. fastkv_rtree_insert env t rect (Some key) = Some (FASTKV_OK, t') \<and> rtree_ok t' \<and> rt_ndims t' = rt_ndims t
    \<and> mset (rt_entries (rt_root t')) = add_mset (rect_box (rt_ndims t) rect, key) (mset (rt_entries (rt_root t)))"
  by (rule insert_refines [OF assms])

definition unit_box :: box where
  "unit_box = [(dbl_0, dbl_1), (dbl_0, dbl_1)]"

lemma unit_tame: "tame 2 unit_box"
proof -
  have "- coord_max \<le> 0" "(2 :: int) ^ 1074 \<le> coord_max" by (simp_all add: coord_max_def)
  then show ?thesis by (simp add: tame_def unit_box_def tame_axis_def dbl_0_def dbl_1_def)
qed

definition full_leaf :: "box \<Rightarrow> fastkv_rtree" where
  "full_leaf b = \<lparr>rt_ndims = length b, rt_root = RLeaf (replicate 9 (b, [1]))\<rparr>"

lemma full_leaf_ok: "tame 2 b \<Longrightarrow> rtree_ok (full_leaf b)"
  using tame_real [of 2 b] by (auto simp: rtree_ok_def full_leaf_def RTREE_MAX_DIMS_def RT_M_def rt_tame_def tame_def intro!: exI [of _ 0])

theorem rtree_insert_refines_witness:
  "\<exists>t'. fastkv_rtree_insert all_mem (full_leaf unit_box) (box_rect unit_box) (Some [2]) = Some (FASTKV_OK, t') \<and> rtree_ok t'
    \<and> (unit_box, [2]) \<in> set (rt_entries (rt_root t')) \<and> length (rt_entries (rt_root t')) = 10"
proof -
  have l: "length unit_box = 2" by (simp add: unit_box_def)
  have "mem_enough all_mem" by (simp add: mem_enough_def all_mem_def)
  from rtree_insert_refines [OF full_leaf_ok [OF unit_tame] _ this, of "box_rect unit_box" "[2]"] unit_tame rect_box_rect [OF l]
  obtain t' where t': "fastkv_rtree_insert all_mem (full_leaf unit_box) (box_rect unit_box) (Some [2]) = Some (FASTKV_OK, t')" "rtree_ok t'"
      "mset (rt_entries (rt_root t')) = add_mset (unit_box, [2]) (mset (replicate 9 (unit_box, [1])))"
    by (auto simp: full_leaf_def l)
  have "length (rt_entries (rt_root t')) = 10" using arg_cong [OF t'(3), of size] by simp
  moreover have "(unit_box, [2]) \<in> set (rt_entries (rt_root t'))" using arg_cong [OF t'(3), of set_mset] by simp
  ultimately show ?thesis using t'(1,2) by blast
qed

text \<open>What the two searches report, for every callback: the matching entries in tree order, up to the first error.\<close>

definition proper :: "box \<Rightarrow> bool" where
  "proper b \<longleftrightarrow> (\<forall>(mn, mx) \<in> set b. mn \<noteq> NaN \<and> mx \<noteq> NaN \<and> mn \<le> mx)"

lemma within_intersects: "proper e \<Longrightarrow> rect_within e b \<Longrightarrow> rect_intersects e b"
proof (induction e b rule: list_induct2')
  case (4 x xs y ys)
  obtain emn emx bmn bmx where [simp]: "x = (emn, emx)" "y = (bmn, bmx)" by (metis surj_pair)
  from 4 show ?case by (fastforce simp: proper_def rect_within_def rect_intersects_def dlt_def)
qed (simp_all add: rect_intersects_def)

lemma queries_report:
  assumes "rtree_ok t"
  shows "fastkv_rtree_intersects t bounds cb s =
      report cb (filter (\<lambda>e. rect_intersects (fst e) (rect_box (rt_ndims t) bounds)) (rt_entries (rt_root t))) s"
    "\<forall>e \<in> set (rt_entries (rt_root t)). proper (fst e) \<Longrightarrow> fastkv_rtree_within t bounds cb s =
      report cb (filter (\<lambda>e. rect_within (fst e) (rect_box (rt_ndims t) bounds)) (rt_entries (rt_root t))) s"
proof -
  let ?b = "rect_box (rt_ndims t) bounds"
  obtain h where h: "rt_wf (rt_ndims t) h (rt_root t)" using assms by (auto simp: rtree_ok_def)
  show "fastkv_rtree_intersects t bounds cb s = report cb (filter (\<lambda>e. rect_intersects (fst e) ?b) (rt_entries (rt_root t))) s"
    by (simp add: search_report [OF h] fastkv_rtree_intersects_def rtree_intersects_rec_def matching_def)
  assume "\<forall>e \<in> set (rt_entries (rt_root t)). proper (fst e)"
  then have "filter (\<lambda>e. rect_intersects (fst e) ?b \<and> rect_within (fst e) ?b) (rt_entries (rt_root t)) =
      filter (\<lambda>e. rect_within (fst e) ?b) (rt_entries (rt_root t))"
    using within_intersects by (intro filter_cong) auto
  then show "fastkv_rtree_within t bounds cb s = report cb (filter (\<lambda>e. rect_within (fst e) ?b) (rt_entries (rt_root t))) s"
    by (simp add: search_report [OF h] fastkv_rtree_within_def rtree_within_rec_def matching_def)
qed

text \<open>
  Property C17.  A tree built by insertions answers exactly: whatever boxes within the bounds are inserted into a new tree, in
  whatever order, the search for the entries that intersect given bounds, and the search for those that lie inside them,
  report every such entry as often as it was inserted, and no other.
\<close>

theorem rtree_built_search_exact:
  assumes "fastkv_rtree_create True True nd = Inr t" "\<forall>e \<in> set es. tame nd (fst e) \<and> proper (fst e)"
  shows "\<exists>t' xs ys. rtree_adds t es = Some t' \<and> rtree_ok t'
    \<and> fastkv_rtree_intersects t' bounds collect_cb [] = (FASTKV_OK, xs)
    \<and> mset xs = filter_mset (\<lambda>e. rect_intersects (fst e) (rect_box nd bounds)) (mset es)
    \<and> fastkv_rtree_within t' bounds collect_cb [] = (FASTKV_OK, ys)
    \<and> mset ys = filter_mset (\<lambda>e. rect_within (fst e) (rect_box nd bounds)) (mset es)"
proof -
  obtain t' where t': "rtree_adds t es = Some t'" "rtree_ok t'" "rt_ndims t' = nd" "mset (rt_entries (rt_root t')) = mset es"
    using rti.adds_found [of t nd es] create_ok [OF assms(1)] assms(2) unfolding rti_adds by auto
  have "\<forall>e \<in> set (rt_entries (rt_root t')). proper (fst e)" using assms(2) mset_eq_setD [OF t'(4)] by auto
  note q = queries_report(1) [OF t'(2)] queries_report(2) [OF t'(2) this]
  show ?thesis using t' by (auto simp: q report_collect simp flip: mset_filter t'(4))
qed

theorem rtree_built_search_exact_witness:
  "\<exists>t t' xs. fastkv_rtree_create True True 2 = Inr t \<and> rtree_adds t [(unit_box, [1]), (unit_box, [2])] = Some t'
     \<and> fastkv_rtree_within t' (box_rect unit_box) collect_cb [] = (FASTKV_OK, xs) \<and> mset xs = {#(unit_box, [1]), (unit_box, [2])#}"
proof -
  let ?t = "\<lparr>rt_ndims = 2, rt_root = RLeaf []\<rparr>"
  have c: "fastkv_rtree_create True True 2 = Inr ?t" by (simp add: fastkv_rtree_create_def RTREE_MAX_DIMS_def)
  have p: "proper unit_box" by (simp add: proper_def unit_box_def dbl_0_def dbl_1_def)
  have w: "rect_within unit_box unit_box" by (simp add: rect_within_def unit_box_def dlt_def)
  have "rect_box 2 (box_rect unit_box) = unit_box" by (rule rect_box_rect) (simp add: unit_box_def)
  then show ?thesis
    using rtree_built_search_exact [OF c, of "[(unit_box, [1]), (unit_box, [2])]" "box_rect unit_box"] unit_tame p w c by auto
qed

text \<open>
  Deletion: when it returns \<^verbatim>\<open>FASTKV_OK\<close>, just one entry with the key is gone and the tree is well formed; when
  it returns \<^verbatim>\<open>FASTKV_ERR_NOTFOUND\<close>, the tree is unchanged and has no entry with the key whose box intersects the given one.
  The box of the deleted entry need not be the given one.
\<close>

lemma rtree_delete_one:
  assumes "rtree_ok t" "fastkv_rtree_delete t rect (Some key) = (rc, t')"
  shows "rtree_ok t' \<and> (rc = FASTKV_OK \<and> (\<exists>x. snd x = key \<and> mset (rt_entries (rt_root t)) = add_mset x (mset (rt_entries (rt_root t'))))
    \<or> rc = FASTKV_ERR_NOTFOUND \<and> t' = t
      \<and> (\<forall>x \<in> set (rt_entries (rt_root t)). snd x = key \<longrightarrow> \<not> rect_intersects (fst x) (rect_box (rt_ndims t) rect)))"
proof -
  let ?b = "rect_box (rt_ndims t) rect"
  obtain h where h: "rt_wf (rt_ndims t) h (rt_root t)" using assms(1) by (auto simp: rtree_ok_def)
  note d = delete_rec_ok [OF h, of ?b key]
  show ?thesis
  proof (cases "rtree_delete_rec (rt_ndims t) ?b key (rt_root t)")
    case None
    then show ?thesis using d assms by (auto simp: fastkv_rtree_delete_def deleted_def)
  next
    case (Some n)
    then obtain x where x: "rt_wf (rt_ndims t) h n" "snd x = key" "mset (rt_entries (rt_root t)) = add_mset x (mset (rt_entries n))"
      using d by (auto simp: deleted_def)
    have t': "rc = FASTKV_OK" "t' = t\<lparr>rt_root := n\<rparr>" using assms(2) Some by (simp_all add: fastkv_rtree_delete_def)
    have "set (rt_entries n) \<subseteq> set (rt_entries (rt_root t))" using arg_cong [OF x(3), of set_mset] by auto
    then have "rtree_ok t'" using assms(1) x(1) t'(2) by (auto simp: rtree_ok_def rt_tame_def)
    then show ?thesis using x t' by (cases x) auto
  qed
qed

lemma rtree_delete_one_example:
  "\<exists>rc t'. fastkv_rtree_delete (full_leaf unit_box) (box_rect unit_box) (Some [3]) = (rc, t') \<and> rtree_ok t' \<and> rc = FASTKV_ERR_NOTFOUND"
proof -
  obtain rc t' where d: "fastkv_rtree_delete (full_leaf unit_box) (box_rect unit_box) (Some [3]) = (rc, t')" by fastforce
  have "x \<in> set (rt_entries (rt_root (full_leaf unit_box))) \<Longrightarrow> snd x = [1]" for x by (simp add: full_leaf_def)
  moreover have "[3 :: byte] \<noteq> [1]" by simp
  ultimately have "rtree_ok t' \<and> rc = FASTKV_ERR_NOTFOUND"
    using rtree_delete_one [OF full_leaf_ok [OF unit_tame] d] by (metis mset_eq_setD union_single_eq_member set_mset_mset)
  with d show ?thesis by blast
qed

text \<open>An area that overflows: growth of any group is NaN, and no entry is picked.\<close>

lemma enlarged_self: "rect_enlarged_area b b = rect_area b"
  by (simp add: rect_enlarged_area_def zip_same_conv_map comp_def case_prod_unfold)

lemma pick_none:
  assumes "rect_area b = PInf" "\<forall>i \<in> set unused. bs ! i = b"
  shows "pick_next bs b b unused = None"
proof -
  have g: "group_growth b b = NaN" by (simp add: group_growth_def enlarged_self assms(1) dsub_def)
  have "foldl (\<lambda>(best, pick) i. let d = dabs (dsub (group_growth b (bs ! i)) (group_growth b (bs ! i)))
      in if dlt best d then (d, Some i) else (best, pick)) (w, None) unused = (w, None)" for w
    using assms(2) by (induction unused) (auto simp: g dsub_def dlt_def)
  then show ?thesis by (simp add: pick_next_def)
qed

lemma split_overflow:
  assumes "rect_area b = PInf" "\<forall>e \<in> set es. fst e = b" "length es = RT_M"
  shows "linear_split es (b, key) = None"
proof -
  let ?all = "es @ [(b, key)]"
  obtain i j where ij: "split_seeds (map fst ?all) = (i, j)" by fastforce
  have n: "length ?all = 10" using assms(3) by (simp add: RT_M_def)
  have lt: "i < j" "j < length ?all" using split_seeds_less [OF _ ij] n by simp_all
  have b: "x < length ?all \<Longrightarrow> fst (?all ! x) = b" for x using assms(2) nth_mem [of x ?all] by auto
  let ?u = "filter (\<lambda>x. x \<noteq> i \<and> x \<noteq> j) [0..<length ?all]"
  have u: "?u = remove1 j (remove1 i [0..<length ?all])"
    by (auto simp: distinct_remove1_removeAll removeAll_filter_not_eq intro!: filter_cong)
  have len: "length ?u = 8" unfolding u using lt n by (simp add: length_remove1 del: length_append)
  have "pick_next (map fst ?all) b b ?u = None" by (rule pick_none [OF assms(1)]) (auto simp: b simp del: map_append)
  then have "distribute ?all ?u [?all ! i] [?all ! j] b b = None"
    using len by (subst distribute.simps) (auto simp: RT_m_def simp del: map_append length_append)
  then show ?thesis using ij b lt by (simp add: linear_split_def Let_def del: map_append length_append)
qed

definition huge_box :: box where
  "huge_box = [(minus_DBL_MAX, DBL_MAX)]"

lemma huge_area: "rect_area huge_box = PInf"
proof -
  have "rnd 0 (2 ^ 2098) = PInf" by (rule rnd_overflow) simp_all
  moreover have "rnd 0 (2 ^ 2098) \<le> rnd 0 ((2 ^ 2098 - 2 ^ 2045) + (2 ^ 2098 - 2 ^ 2045))" by (rule rnd_mono) simp
  ultimately have "dsub DBL_MAX minus_DBL_MAX = PInf"
    by (cases "rnd 0 ((2 ^ 2098 - 2 ^ 2045) + (2 ^ 2098 - 2 ^ 2045))") (auto simp: dsub_def DBL_MAX_def minus_DBL_MAX_def)
  then show ?thesis by (simp add: rect_area_def huge_box_def dle_def dbl_0_def dbl_1_def)
qed

text \<open>
  Property C22.  Areas that overflow break the split.  Nine insertions of the box from \<^verbatim>\<open>-DBL_MAX\<close> to \<^verbatim>\<open>DBL_MAX\<close> into a new tree
  with one dimension succeed; the tenth one splits the leaf, every growth is infinity minus infinity, \<^verbatim>\<open>pick\<close> stays -1
  and \<^verbatim>\<open>all[-1]\<close> is read.
\<close>

theorem rtree_overflow_reads_outside:
  "\<exists>t9. rtree_adds \<lparr>rt_ndims = 1, rt_root = RLeaf []\<rparr> (replicate 9 (huge_box, [1])) = Some t9
     \<and> fastkv_rtree_insert all_mem t9 (box_rect huge_box) (Some [1]) = None"
proof -
  have b: "rect_box 1 (box_rect huge_box) = huge_box" by (rule rect_box_rect) (simp add: huge_box_def)
  have step: "rtree_add \<lparr>rt_ndims = 1, rt_root = RLeaf es\<rparr> (huge_box, [1]) = Some \<lparr>rt_ndims = 1, rt_root = RLeaf (es @ [(huge_box, [1])])\<rparr>"
    if "length es < 9" for es
    using that b by (simp add: rtree_add_def fastkv_rtree_insert_def all_mem_def rtree_insert_leaf_def RT_M_def)
  have "rtree_adds \<lparr>rt_ndims = 1, rt_root = RLeaf es\<rparr> (replicate n (huge_box, [1]))
      = Some \<lparr>rt_ndims = 1, rt_root = RLeaf (es @ replicate n (huge_box, [1]))\<rparr>" if "length es + n \<le> 9" for n es
    using that by (induction n arbitrary: es) (simp_all add: step [unfolded One_nat_def])
  from this [of "[]" 9] have "rtree_adds \<lparr>rt_ndims = 1, rt_root = RLeaf []\<rparr> (replicate 9 (huge_box, [1]))
      = Some \<lparr>rt_ndims = 1, rt_root = RLeaf (replicate 9 (huge_box, [1]))\<rparr>" by simp
  moreover have "linear_split (replicate 9 (huge_box, [1 :: byte])) (huge_box, [1]) = None"
    by (rule split_overflow [OF huge_area]) (simp_all add: RT_M_def)
  ultimately show ?thesis
    using b by (simp add: fastkv_rtree_insert_def all_mem_def rtree_insert_leaf_def RT_M_def)
qed

text \<open>Without memory for a split the entry is lost and the caller is told \<^verbatim>\<open>FASTKV_OK\<close>.\<close>

lemma rtree_split_oom_loses_entry:
  assumes "length es = RT_M" "rt_key env" "\<not> rt_split env 0"
  shows "fastkv_rtree_insert env \<lparr>rt_ndims = nd, rt_root = RLeaf es\<rparr> rect (Some key) = Some (FASTKV_OK, \<lparr>rt_ndims = nd, rt_root = RLeaf es\<rparr>)"
  using assms by (simp add: fastkv_rtree_insert_def rtree_insert_leaf_def)

text \<open>The entry deleted may have a box that does not even intersect the given one.\<close>

lemma rtree_delete_other_box:
  "fastkv_rtree_delete \<lparr>rt_ndims = 1, rt_root = RLeaf [([(dbl_0, dbl_0)], [7])]\<rparr> (box_rect [(dbl_1, dbl_1)]) (Some [7])
     = (FASTKV_OK, \<lparr>rt_ndims = 1, rt_root = RLeaf []\<rparr>)"
  by (simp add: fastkv_rtree_delete_def delete_leaf_def)

end
