(* ===== verification/Rtree_Nearby.thy ===== *)
theory Rtree_Nearby
  imports Rtree
begin

text \<open>
  The nearest-neighbour search of \<open>index/rtree/rtree.c\<close>: the distance to a box, the binary heap in an array, and the
  best-first loop of \<^verbatim>\<open>fastkv_rtree_nearby\<close>.  Whether the array of the heap can grow is an argument.  The counters are
  natural numbers: \<^verbatim>\<open>found\<close> stays below \<^verbatim>\<open>limit\<close>.

  Shown here: the heap is a priority queue, rounded distances never grow when a box does, and so the entries are
  reported in the order of their distance, as many as asked for, with none left out that is nearer.
\<close>

section \<open>Distance\<close>

fun dist_loop :: "dbl \<Rightarrow> dbl list \<Rightarrow> box \<Rightarrow> dbl" where
  "dist_loop d (p # pt) ((mn, mx) # e) =
     (let v = (if dlt p mn then mn else if dlt mx p then mx else p);
          diff = dsub p v
      in dist_loop (dadd d (dmul diff diff)) pt e)"
| "dist_loop d _ _ = d"

definition mindist_sq :: "dbl list \<Rightarrow> box \<Rightarrow> dbl" where
  "mindist_sq pt e = dist_loop dbl_0 pt e"

section \<open>The heap\<close>

datatype heap_node = HNode rnode | HEntry box bytes

type_synonym 'i heap_item = "dbl \<times> 'i"

record 'i minheap =
  hdata :: "'i heap_item list"
  hcap :: nat

definition heap_swap :: "'i heap_item list \<Rightarrow> nat \<Rightarrow> nat \<Rightarrow> 'i heap_item list" where
  "heap_swap xs p i = xs[p := xs ! i, i := xs ! p]"

fun swim :: "'i heap_item list \<Rightarrow> nat \<Rightarrow> 'i heap_item list" where
  "swim xs i =
     (if i = 0 then xs
      else let parent = (i - 1) div 2
           in if dle (fst (xs ! parent)) (fst (xs ! i)) then xs else swim (heap_swap xs parent i) parent)"

definition smallest :: "'i heap_item list \<Rightarrow> nat \<Rightarrow> nat" where
  "smallest xs i =
     (let l = 2 * i + 1; r = 2 * i + 2;
          s = (if l < length xs \<and> dlt (fst (xs ! l)) (fst (xs ! i)) then l else i)
      in if r < length xs \<and> dlt (fst (xs ! r)) (fst (xs ! s)) then r else s)"

lemma smallest_cases: "smallest xs i = i \<or> i < smallest xs i \<and> smallest xs i < length xs"
  by (auto simp: smallest_def Let_def)

lemma length_heap_swap [simp]: "length (heap_swap xs p i) = length xs"
  by (simp add: heap_swap_def)

function sink :: "'i heap_item list \<Rightarrow> nat \<Rightarrow> 'i heap_item list" where
  "sink xs i = (let s = smallest xs i in if s = i then xs else sink (heap_swap xs s i) s)"
  by pat_completeness auto
termination
proof (relation "measure (\<lambda>(xs, i). length xs - i)")
  fix xs :: "'i heap_item list" and i s
  assume "s = smallest xs i" "s \<noteq> i"
  then show "((heap_swap xs s i, s), (xs, i)) \<in> measure (\<lambda>(xs, i). length xs - i)" using smallest_cases [of xs i] by auto
qed simp

declare swim.simps [simp del] sink.simps [simp del]

text \<open>\<^verbatim>\<open>heap_push\<close> with room in the array, and with the array to be enlarged when it is full.\<close>

definition heap_put :: "'i minheap \<Rightarrow> 'i heap_item \<Rightarrow> 'i minheap" where
  "heap_put h item =
     \<lparr>hdata = swim (hdata h @ [item]) (length (hdata h)),
      hcap = (if length (hdata h) = hcap h then if hcap h \<noteq> 0 then hcap h * 2 else 16 else hcap h)\<rparr>"

definition heap_push :: "bool \<Rightarrow> 'i minheap \<Rightarrow> 'i heap_item \<Rightarrow> 'i minheap option" where
  "heap_push ok h item = (if length (hdata h) = hcap h \<and> \<not> ok then None else Some (heap_put h item))"

definition heap_pop :: "'i minheap \<Rightarrow> 'i heap_item \<times> 'i minheap" where
  "heap_pop h = (hd (hdata h), h\<lparr>hdata := sink (butlast ((hdata h)[0 := last (hdata h)])) 0\<rparr>)"

section \<open>The heap is a priority queue\<close>

definition par :: "nat \<Rightarrow> nat" where
  "par j = (j - 1) div 2"

lemma par_less: "0 < j \<Longrightarrow> par j < j"
  by (auto simp: par_def)

lemma par_iff: "0 < j \<Longrightarrow> par j = i \<longleftrightarrow> j = 2 * i + 1 \<or> j = 2 * i + 2"
  by (auto simp: par_def)

lemma all_children: "(\<forall>j < n. 0 < j \<and> par j = i \<longrightarrow> P j) \<longleftrightarrow> (2 * i + 1 < n \<longrightarrow> P (2 * i + 1)) \<and> (2 * i + 2 < n \<longrightarrow> P (2 * i + 2))"
  using par_iff by (metis add_gr_0 zero_less_numeral less_numeral_extra(1))

definition numbers :: "'i heap_item list \<Rightarrow> bool" where
  "numbers xs \<longleftrightarrow> (\<forall>x \<in> set xs. fst x \<noteq> NaN)"

definition is_heap :: "'i heap_item list \<Rightarrow> bool" where
  "is_heap xs \<longleftrightarrow> (\<forall>j < length xs. 0 < j \<longrightarrow> fst (xs ! par j) \<le> fst (xs ! j))"

text \<open>In order except at \<open>i\<close>, whose entry may be too small, or too large.\<close>

definition heap_up :: "'i heap_item list \<Rightarrow> nat \<Rightarrow> bool" where
  "heap_up xs i \<longleftrightarrow> (\<forall>j < length xs. 0 < j \<and> j \<noteq> i \<longrightarrow> fst (xs ! par j) \<le> fst (xs ! j))
     \<and> (\<forall>j < length xs. 0 < i \<and> 0 < j \<and> par j = i \<longrightarrow> fst (xs ! par i) \<le> fst (xs ! j))"

definition heap_down :: "'i heap_item list \<Rightarrow> nat \<Rightarrow> bool" where
  "heap_down xs i \<longleftrightarrow> (\<forall>j < length xs. 0 < j \<and> par j \<noteq> i \<longrightarrow> fst (xs ! par j) \<le> fst (xs ! j))
     \<and> (\<forall>j < length xs. 0 < i \<and> 0 < j \<and> par j = i \<longrightarrow> fst (xs ! par i) \<le> fst (xs ! j))"

lemma mset_heap_swap: "p < length xs \<Longrightarrow> i < length xs \<Longrightarrow> mset (heap_swap xs p i) = mset xs"
  unfolding heap_swap_def by (rule mset_swap)

lemma numbers_mset: "mset xs = mset ys \<Longrightarrow> numbers xs \<longleftrightarrow> numbers ys"
  unfolding numbers_def by (metis mset_eq_setD)

lemma nth_heap_swap: "p < length xs \<Longrightarrow> i < length xs \<Longrightarrow> heap_swap xs p i ! j = (if j = i then xs ! p else if j = p then xs ! i else xs ! j)"
  by (auto simp: heap_swap_def nth_list_update)

lemma heap_up_swap:
  assumes "heap_up xs i" "0 < i" "i < length xs" "fst (xs ! i) < fst (xs ! par i)"
  shows "heap_up (heap_swap xs (par i) i) (par i)"
proof -
  let ?p = "par i" and ?ys = "heap_swap xs (par i) i"
  have p: "?p < i" "?p < length xs" using assms(2,3) par_less [of i] by auto
  note y = nth_heap_swap [OF p(2) assms(3)]
  have up: "\<And>j. j < length xs \<Longrightarrow> 0 < j \<Longrightarrow> j \<noteq> i \<Longrightarrow> fst (xs ! par j) \<le> fst (xs ! j)"
    and gr: "\<And>j. j < length xs \<Longrightarrow> 0 < j \<Longrightarrow> par j = i \<Longrightarrow> fst (xs ! ?p) \<le> fst (xs ! j)"
    using assms(1,2) by (auto simp: heap_up_def)
  have "fst (?ys ! par j) \<le> fst (?ys ! j)" if "j < length xs" "0 < j" "j \<noteq> ?p" for j
  proof -
    consider "j = i" | "j \<noteq> i" "par j = i" | "j \<noteq> i" "par j = ?p" | "j \<noteq> i" "par j \<noteq> i" "par j \<noteq> ?p" by blast
    then show ?thesis
    proof cases
      case 3
      then have "fst (xs ! ?p) \<le> fst (xs ! j)" using up [of j] that by simp
      then show ?thesis using 3 p(1) that(3) assms(4) by (simp add: y)
    qed (use up [of j] gr [of j] that p(1) assms(4) in \<open>simp_all add: y\<close>)
  qed
  moreover have "fst (?ys ! par ?p) \<le> fst (?ys ! j)" if "j < length xs" "0 < ?p" "0 < j" "par j = ?p" for j
  proof -
    have pp: "par ?p < ?p" using that(2) by (rule par_less)
    have "fst (xs ! par ?p) \<le> fst (xs ! ?p)" using up [of ?p] p that(2) by simp
    moreover have "fst (xs ! ?p) \<le> fst (xs ! j)" if "j \<noteq> i" using up [of j] that \<open>j < length xs\<close> \<open>0 < j\<close> \<open>par j = ?p\<close> by simp
    moreover have "j \<noteq> ?p" using par_less [OF that(3)] that(4) by auto
    ultimately show ?thesis using pp p(1) by (auto simp: y intro: order_trans)
  qed
  ultimately show ?thesis by (auto simp: heap_up_def)
qed

lemma heap_down_swap:
  assumes "heap_down xs i" "i < length xs" "s < length xs" "par s = i" "0 < s" "fst (xs ! s) < fst (xs ! i)"
    "\<forall>j < length xs. 0 < j \<and> par j = i \<longrightarrow> fst (xs ! s) \<le> fst (xs ! j)"
  shows "heap_down (heap_swap xs s i) s"
proof -
  let ?ys = "heap_swap xs s i"
  have si: "i < s" using par_less [OF assms(5)] assms(4) by simp
  note y = nth_heap_swap [OF assms(3,2)]
  have dn: "\<And>j. j < length xs \<Longrightarrow> 0 < j \<Longrightarrow> par j \<noteq> i \<Longrightarrow> fst (xs ! par j) \<le> fst (xs ! j)"
    and gr: "\<And>j. j < length xs \<Longrightarrow> 0 < i \<Longrightarrow> 0 < j \<Longrightarrow> par j = i \<Longrightarrow> fst (xs ! par i) \<le> fst (xs ! j)"
    using assms(1) by (auto simp: heap_down_def)
  have "fst (?ys ! par j) \<le> fst (?ys ! j)" if "j < length xs" "0 < j" "par j \<noteq> s" for j
  proof -
    consider "par j = i" "j = s" | "par j = i" "j \<noteq> s" | "j = i" | "par j \<noteq> i" "j \<noteq> i" by blast
    then show ?thesis
    proof cases
      case 2
      then have "j \<noteq> i" using par_less [OF that(2)] by auto
      then show ?thesis using 2 that assms(7) by (simp add: y)
    next
      case 3
      then have "par j < i" using par_less [OF that(2)] by simp
      then show ?thesis using 3 gr [OF assms(3) _ assms(5,4)] that si by (simp add: y)
    next
      case 4
      then have "j \<noteq> s" using assms(4) by auto
      then show ?thesis using 4 dn [of j] that by (simp add: y)
    qed (use assms(6) si in \<open>simp add: y\<close>)
  qed
  moreover have "fst (?ys ! par s) \<le> fst (?ys ! j)" if "j < length xs" "0 < j" "par j = s" for j
  proof -
    have "s < j" using par_less [OF that(2)] that(3) by simp
    then show ?thesis using dn [OF that(1,2)] that(3) si assms(4) by (simp add: y)
  qed
  ultimately show ?thesis by (auto simp: heap_down_def)
qed

lemma swim_mset: "i < length xs \<Longrightarrow> mset (swim xs i) = mset xs"
proof (induction xs i rule: swim.induct)
  case (1 xs i)
  have "(i - 1) div 2 < length xs" using "1.prems" by auto
  then show ?case using 1 by (subst swim.simps) (simp add: Let_def mset_heap_swap)
qed

lemma swim_heap: "heap_up xs i \<Longrightarrow> i < length xs \<Longrightarrow> numbers xs \<Longrightarrow> is_heap (swim xs i)"
proof (induction xs i rule: swim.induct)
  case (1 xs i)
  show ?case
  proof (cases "i = 0 \<or> dle (fst (xs ! par i)) (fst (xs ! i))")
    case True
    then have "swim xs i = xs" by (subst swim.simps) (auto simp: par_def Let_def)
    moreover have "is_heap xs" using True "1.prems"(1) by (auto simp: is_heap_def heap_up_def dle_def)
    ultimately show ?thesis by simp
  next
    case False
    let ?ys = "heap_swap xs (par i) i"
    have p: "0 < i" "par i < length xs" using False "1.prems"(2) par_less [of i] by auto
    have s: "swim xs i = swim ?ys (par i)" using False by (subst swim.simps) (simp add: par_def Let_def)
    have "fst (xs ! par i) \<noteq> NaN" "fst (xs ! i) \<noteq> NaN" using "1.prems"(2,3) p(2) by (auto simp: numbers_def)
    then have "fst (xs ! i) < fst (xs ! par i)" using False by (auto simp: dle_def)
    then have u: "heap_up ?ys (par i)" using heap_up_swap "1.prems"(1,2) p(1) by blast
    show ?thesis
      using "1.IH" [OF _ refl, folded par_def, OF _ _ u] False p numbers_mset [OF mset_heap_swap [OF p(2) "1.prems"(2)]] "1.prems"(3)
      unfolding s by simp
  qed
qed

lemma smallest_props:
  assumes "i < length xs" "numbers xs"
  shows "smallest xs i = i \<Longrightarrow> \<forall>j < length xs. 0 < j \<and> par j = i \<longrightarrow> fst (xs ! i) \<le> fst (xs ! j)"
    "smallest xs i \<noteq> i \<Longrightarrow> par (smallest xs i) = i \<and> fst (xs ! smallest xs i) < fst (xs ! i)
       \<and> (\<forall>j < length xs. 0 < j \<and> par j = i \<longrightarrow> fst (xs ! smallest xs i) \<le> fst (xs ! j))"
proof -
  have n: "j < length xs \<Longrightarrow> fst (xs ! j) \<noteq> NaN" for j using assms(2) by (simp add: numbers_def)
  have c: "dlt (fst (xs ! j)) (fst (xs ! k)) \<longleftrightarrow> fst (xs ! j) < fst (xs ! k)" if "j < length xs" "k < length xs" for j k
    using n that by (simp add: dlt_def)
  show "smallest xs i = i \<Longrightarrow> \<forall>j < length xs. 0 < j \<and> par j = i \<longrightarrow> fst (xs ! i) \<le> fst (xs ! j)"
    unfolding all_children using assms(1) by (auto simp: smallest_def Let_def c not_less split: if_splits)
  show "smallest xs i \<noteq> i \<Longrightarrow> par (smallest xs i) = i \<and> fst (xs ! smallest xs i) < fst (xs ! i)
       \<and> (\<forall>j < length xs. 0 < j \<and> par j = i \<longrightarrow> fst (xs ! smallest xs i) \<le> fst (xs ! j))"
    unfolding all_children using assms(1)
    by (auto simp: smallest_def Let_def c par_iff not_less split: if_splits intro: less_trans less_imp_le)
qed

lemma sink_mset: "mset (sink xs i) = mset xs"
proof (induction xs i rule: sink.induct)
  case (1 xs i)
  then show ?case using smallest_cases [of xs i] by (subst sink.simps) (auto simp: Let_def mset_heap_swap)
qed

lemma sink_heap: "heap_down xs i \<Longrightarrow> i < length xs \<or> xs = [] \<Longrightarrow> numbers xs \<Longrightarrow> is_heap (sink xs i)"
proof (induction xs i rule: sink.induct)
  case (1 xs i)
  show ?case
  proof (cases "smallest xs i = i")
    case True
    then have "sink xs i = xs" by (subst sink.simps) simp
    moreover have "is_heap xs"
      using smallest_props(1) [of i xs] True "1.prems" by (cases "xs = []") (fastforce simp: is_heap_def heap_down_def)+
    ultimately show ?thesis by simp
  next
    case False
    let ?s = "smallest xs i" and ?ys = "heap_swap xs (smallest xs i) i"
    have l: "i < ?s" "?s < length xs" using smallest_cases [of xs i] False by auto
    then have i: "i < length xs" by simp
    have d: "heap_down ?ys ?s"
      using smallest_props(2) [OF i "1.prems"(3) False] l i "1.prems"(1) by (intro heap_down_swap) auto
    have "sink xs i = sink ?ys ?s" using False by (subst sink.simps) (simp add: Let_def)
    then show ?thesis using "1.IH" [OF refl False d] l(2) numbers_mset [OF mset_heap_swap [OF l(2) i]] "1.prems"(3) by simp
  qed
qed

lemma heap_root_least: "is_heap xs \<Longrightarrow> j < length xs \<Longrightarrow> fst (xs ! 0) \<le> fst (xs ! j)"
proof (induction j rule: less_induct)
  case (less j)
  show ?case
  proof (cases "j = 0")
    case False
    then have "fst (xs ! 0) \<le> fst (xs ! par j)" using less par_less [of j] by simp
    also have "\<dots> \<le> fst (xs ! j)" using less.prems False by (simp add: is_heap_def)
    finally show ?thesis .
  qed simp
qed

section \<open>The contract of the queue\<close>

locale min_queue =
  fixes inv :: "'q \<Rightarrow> bool"
    and items :: "'q \<Rightarrow> (dbl \<times> 'i) multiset"
    and put :: "'q \<Rightarrow> dbl \<times> 'i \<Rightarrow> 'q"
    and pop :: "'q \<Rightarrow> (dbl \<times> 'i) \<times> 'q"
  assumes items_put: "items (put q x) = add_mset x (items q)"
    and inv_put: "inv q \<Longrightarrow> fst x \<noteq> NaN \<Longrightarrow> inv (put q x)"
    and items_pop: "items q \<noteq> {#} \<Longrightarrow> pop q = (x, q') \<Longrightarrow> items q = add_mset x (items q')"
    and inv_pop: "inv q \<Longrightarrow> items q \<noteq> {#} \<Longrightarrow> pop q = (x, q') \<Longrightarrow> inv q'"
    and pop_least: "inv q \<Longrightarrow> items q \<noteq> {#} \<Longrightarrow> pop q = (x, q') \<Longrightarrow> y \<in># items q' \<Longrightarrow> fst x \<le> fst y"
begin

lemma items_puts: "items (foldl put q xs) = mset xs + items q"
  by (induction xs arbitrary: q) (simp_all add: items_put)

lemma inv_puts: "inv q \<Longrightarrow> \<forall>x \<in> set xs. fst x \<noteq> NaN \<Longrightarrow> inv (foldl put q xs)"
  by (induction xs arbitrary: q) (simp_all add: inv_put)

end

lemma mset_root_out: "xs \<noteq> [] \<Longrightarrow> mset xs = add_mset (hd xs) (mset (butlast (xs[0 := last xs])))"
proof (cases xs)
  case (Cons x ys)
  then show ?thesis using mset_last [of ys] by (cases "ys = []") auto
qed simp

lemma heap_down_root:
  assumes "is_heap xs"
  shows "heap_down (butlast (xs[0 := last xs])) 0"
proof -
  have "fst (butlast (xs[0 := last xs]) ! par j) \<le> fst (butlast (xs[0 := last xs]) ! j)" if "j < length xs - 1" "0 < j" "par j \<noteq> 0" for j
    using assms that par_less [of j] by (simp add: nth_butlast is_heap_def)
  then show ?thesis by (simp add: heap_down_def)
qed

interpretation hq: min_queue "\<lambda>h :: 'i minheap. is_heap (hdata h) \<and> numbers (hdata h)" "\<lambda>h. mset (hdata h)" heap_put heap_pop
proof
  fix h :: "'i minheap" and x y h'
  show put: "mset (hdata (heap_put h x)) = add_mset x (mset (hdata h))" by (simp add: heap_put_def swim_mset)
  show "is_heap (hdata (heap_put h x)) \<and> numbers (hdata (heap_put h x))"
    if "is_heap (hdata h) \<and> numbers (hdata h)" "fst x \<noteq> NaN"
  proof
    have "heap_up (hdata h @ [x]) (length (hdata h))"
      unfolding heap_up_def
    proof (intro conjI allI impI)
      fix j
      assume j: "j < length (hdata h @ [x])"
      show "fst ((hdata h @ [x]) ! par j) \<le> fst ((hdata h @ [x]) ! j)" if "0 < j \<and> j \<noteq> length (hdata h)"
        using that j \<open>is_heap (hdata h) \<and> numbers (hdata h)\<close> par_less [of j] by (simp add: nth_append is_heap_def)
      show "fst ((hdata h @ [x]) ! par (length (hdata h))) \<le> fst ((hdata h @ [x]) ! j)"
        if "0 < length (hdata h) \<and> 0 < j \<and> par j = length (hdata h)"
        using that j par_less [of j] by simp
    qed
    then show "is_heap (hdata (heap_put h x))"
      using that by (simp add: heap_put_def numbers_def swim_heap)
    show "numbers (hdata (heap_put h x))" using that mset_eq_setD [of "hdata (heap_put h x)" "x # hdata h"] put by (auto simp: numbers_def)
  qed
  show pop: "mset (hdata h) = add_mset x (mset (hdata h'))" if "mset (hdata h) \<noteq> {#}" "heap_pop h = (x, h')"
    using that mset_root_out [of "hdata h"] by (auto simp: heap_pop_def sink_mset)
  show "is_heap (hdata h') \<and> numbers (hdata h')"
    if "is_heap (hdata h) \<and> numbers (hdata h)" "mset (hdata h) \<noteq> {#}" "heap_pop h = (x, h')"
  proof -
    let ?ys = "butlast ((hdata h)[0 := last (hdata h)])"
    have m: "mset (hdata h) = add_mset x (mset ?ys)" using mset_root_out [of "hdata h"] that(2,3) by (auto simp: heap_pop_def)
    have "set (hdata h) = insert x (set ?ys)" using arg_cong [OF m, of set_mset] by simp
    then have n: "numbers ?ys" using that(1) by (simp add: numbers_def)
    have h': "hdata h' = sink ?ys 0" using that(3) by (auto simp: heap_pop_def)
    have e: "0 < length ?ys \<or> ?ys = []" unfolding length_greater_0_conv by blast
    show ?thesis using that(1) sink_heap [OF heap_down_root e n] n numbers_mset [OF sink_mset [of ?ys 0]] unfolding h' by auto
  qed
  show "fst x \<le> fst y" if "is_heap (hdata h) \<and> numbers (hdata h)" "mset (hdata h) \<noteq> {#}" "heap_pop h = (x, h')" "y \<in># mset (hdata h')"
  proof -
    have ne: "hdata h \<noteq> []" using that(2) by auto
    have "set (hdata h) = insert x (set (hdata h'))" using arg_cong [OF pop [OF that(2,3)], of set_mset] by simp
    then have "y \<in> set (hdata h)" using that(4) by simp
    moreover have "x = hdata h ! 0" using ne that(3) by (auto simp: heap_pop_def hd_conv_nth)
    ultimately show ?thesis using heap_root_least that(1) by (metis in_set_conv_nth)
  qed
qed

section \<open>The search\<close>

fun push_all :: "(nat \<Rightarrow> bool) \<Rightarrow> nat \<Rightarrow> 'i minheap \<Rightarrow> 'i heap_item list \<Rightarrow> (nat \<times> 'i minheap) option" where
  "push_all mem k h [] = Some (k, h)"
| "push_all mem k h (x # xs) = (case heap_push (mem k) h x of None \<Rightarrow> None | Some h' \<Rightarrow> push_all mem (Suc k) h' xs)"

fun node_items :: "dbl list \<Rightarrow> rnode \<Rightarrow> heap_node heap_item list" where
  "node_items pt (RLeaf es) = map (\<lambda>(b, key). (mindist_sq pt b, HEntry b key)) es"
| "node_items pt (RInner es) = map (\<lambda>(b, child). (mindist_sq pt b, HNode child)) es"

text \<open>The work an item still causes: one step for each entry and node below it.\<close>

fun node_work :: "rnode \<Rightarrow> nat" where
  "node_work (RLeaf es) = Suc (length es)"
| "node_work (RInner es) = Suc (\<Sum>e\<leftarrow>es. node_work (snd e))"

fun item_work :: "heap_node heap_item \<Rightarrow> nat" where
  "item_work (d, HNode n) = node_work n"
| "item_work (d, HEntry b key) = 1"

abbreviation heap_work :: "heap_node minheap \<Rightarrow> nat" where
  "heap_work h \<equiv> \<Sum>x \<in># mset (hdata h). item_work x"

lemma sum_items: "(\<Sum>x \<in># mset xs. f x) = (\<Sum>x\<leftarrow>xs. f x)"
  by (metis mset_map sum_mset_sum_list)

lemma node_items_work: "(\<Sum>x \<in># mset (node_items pt n). item_work x) < node_work n"
proof (cases n)
  case (RLeaf es)
  have "(\<Sum>x\<leftarrow>node_items pt (RLeaf es). item_work x) = length es" by (induction es) auto
  then show ?thesis unfolding sum_items by (simp add: RLeaf)
next
  case (RInner es)
  have "(\<Sum>x\<leftarrow>node_items pt (RInner es). item_work x) = (\<Sum>e\<leftarrow>es. node_work (snd e))" by (induction es) auto
  then show ?thesis unfolding sum_items by (simp add: RInner)
qed

lemma push_all_put: "push_all mem k h xs = Some (k', h') \<Longrightarrow> h' = foldl heap_put h xs"
  by (induction xs arbitrary: k h) (auto simp: heap_push_def split: if_splits)

lemma push_all_mem: "\<forall>k. mem k \<Longrightarrow> \<exists>k'. push_all mem k h xs = Some (k', foldl heap_put h xs)"
  by (induction xs arbitrary: k h) (auto simp: heap_push_def)

lemma work_pop: "hdata h \<noteq> [] \<Longrightarrow> (x, h') = heap_pop h \<Longrightarrow> heap_work h = item_work x + heap_work h'"
  using hq.items_pop [of h x h'] by simp

lemma work_push: "push_all mem k h xs = Some (k', h') \<Longrightarrow> heap_work h' = (\<Sum>x \<in># mset xs. item_work x) + heap_work h"
  using push_all_put [of mem k h xs k' h'] hq.items_puts [of h xs] by simp

function nearby_loop ::
  "(nat \<Rightarrow> bool) \<Rightarrow> nat \<Rightarrow> dbl list \<Rightarrow> nat \<Rightarrow> heap_node minheap \<Rightarrow> nat \<Rightarrow> 's rtree_cb \<Rightarrow> 's \<Rightarrow> fastkv_err \<times> 's" where
  "nearby_loop mem k pt limit heap found cb s =
     (if hdata heap = [] \<or> found \<ge> limit then (FASTKV_OK, s)
      else case heap_pop heap of
             ((d, HEntry b key), heap1) \<Rightarrow>
               (case cb b key s of
                  (rc, s') \<Rightarrow> if rc \<noteq> FASTKV_OK then (rc, s') else nearby_loop mem k pt limit heap1 (Suc found) cb s')
           | ((d, HNode n), heap1) \<Rightarrow>
               (case push_all mem k heap1 (node_items pt n) of
                  None \<Rightarrow> (FASTKV_ERR_NOMEM, s)
                | Some (k', heap2) \<Rightarrow> nearby_loop mem k' pt limit heap2 found cb s))"
  by pat_completeness auto
termination
  by (relation "measure (\<lambda>(mem, k, pt, limit, heap, found, cb, s). heap_work heap)")
    (auto simp: work_pop work_push node_items_work)

declare nearby_loop.simps [simp del]

record near_env =
  ne_first :: bool
  ne_push :: "nat \<Rightarrow> bool"

definition fastkv_rtree_nearby ::
  "near_env \<Rightarrow> fastkv_rtree \<Rightarrow> dbl list \<Rightarrow> nat \<Rightarrow> 's rtree_cb \<Rightarrow> 's \<Rightarrow> fastkv_err \<times> 's" where
  "fastkv_rtree_nearby env t pt limit cb s =
     (case heap_push (ne_first env) \<lparr>hdata = [], hcap = 0\<rparr> (dbl_0, HNode (rt_root t)) of
        None \<Rightarrow> (FASTKV_ERR_NOMEM, s)
      | Some heap \<Rightarrow> nearby_loop (ne_push env) 0 pt limit heap 0 cb s)"

section \<open>Distances\<close>

text \<open>On one axis: the distance to the interval.\<close>

definition axis_v :: "dbl \<Rightarrow> dbl \<times> dbl \<Rightarrow> dbl" where
  "axis_v p c = (if dlt p (fst c) then fst c else if dlt (snd c) p then snd c else p)"

lemma dsub_Fin_not_NaN: "v \<noteq> NaN \<Longrightarrow> dsub (Fin a) v \<noteq> NaN"
  by (cases v) (simp_all add: dsub_def)

lemma dsub_antimono: "v \<noteq> NaN \<Longrightarrow> v' \<noteq> NaN \<Longrightarrow> v \<le> v' \<Longrightarrow> dsub (Fin a) v' \<le> dsub (Fin a) v"
  unfolding dsub_def by (rule dadd_mono) (use dneg_mono dsub_Fin_not_NaN in \<open>auto simp: dsub_def\<close>)

lemma dsub_self: "dsub (Fin a) (Fin a) = dbl_0"
  by (simp add: dsub_def dbl_0_def)

lemma axis_real: "fst c \<noteq> NaN \<Longrightarrow> snd c \<noteq> NaN \<Longrightarrow> axis_v (Fin a) c \<noteq> NaN"
  by (simp add: axis_v_def)

lemma axis_mono:
  assumes "fst C \<le> fst c" "fst c \<le> snd c" "snd c \<le> snd C" "fst C \<noteq> NaN" "snd C \<noteq> NaN" "fst c \<noteq> NaN" "snd c \<noteq> NaN"
  shows "dmul (dsub (Fin a) (axis_v (Fin a) C)) (dsub (Fin a) (axis_v (Fin a) C))
    \<le> dmul (dsub (Fin a) (axis_v (Fin a) c)) (dsub (Fin a) (axis_v (Fin a) c))"
proof -
  let ?p = "Fin a"
  note n = dsub_Fin_not_NaN [OF axis_real [OF assms(4,5)], of a a] dsub_Fin_not_NaN [OF axis_real [OF assms(6,7)], of a a]
  consider "?p < fst C" | "\<not> ?p < fst C" "snd C < ?p" | "\<not> ?p < fst C" "\<not> snd C < ?p" by blast
  then show ?thesis
  proof cases
    case 1
    then have v: "axis_v ?p C = fst C" "axis_v ?p c = fst c" using assms by (auto simp: axis_v_def dlt_def)
    have "dsub ?p (fst c) \<le> dsub ?p (fst C)" "dsub ?p (fst C) \<le> dbl_0"
      using dsub_antimono [OF assms(4,6,1)] dsub_antimono [OF _ assms(4) less_imp_le [OF 1], of a] by (simp_all add: dsub_self)
    then show ?thesis using n unfolding v by (intro dmul_square_mono) auto
  next
    case 2
    then have v: "axis_v ?p C = snd C" "axis_v ?p c = snd c" using assms by (auto simp: axis_v_def dlt_def)
    have "dsub ?p (snd C) \<le> dsub ?p (snd c)" "dbl_0 \<le> dsub ?p (snd C)"
      using dsub_antimono [OF assms(7,5,3)] dsub_antimono [OF assms(5) _ less_imp_le [OF 2(2)], of a] by (simp_all add: dsub_self)
    then show ?thesis using n unfolding v by (intro dmul_square_mono) auto
  next
    case 3
    then have v: "axis_v ?p C = ?p" by (simp add: axis_v_def dlt_def)
    have "dmul dbl_0 dbl_0 = dbl_0" by (simp add: dbl_0_def)
    then show ?thesis using dmul_square_nonneg [OF n(2)] unfolding v dsub_self by simp
  qed
qed

lemma dadd_nonneg: "dbl_0 \<le> x \<Longrightarrow> dbl_0 \<le> y \<Longrightarrow> x \<noteq> NaN \<Longrightarrow> y \<noteq> NaN \<Longrightarrow> dbl_0 \<le> dadd x y \<and> dadd x y \<noteq> NaN"
  using rnd_mono [of 0 "a + b" 0 for a b] by (cases x; cases y) (auto simp: dbl_0_def)

definition finite_pt :: "dbl list \<Rightarrow> bool" where
  "finite_pt pt \<longleftrightarrow> (\<forall>p \<in> set pt. \<exists>a. p = Fin a)"

lemma dist_loop_Cons:
  "dist_loop d (p # pt) (c # e) = dist_loop (dadd d (dmul (dsub p (axis_v p c)) (dsub p (axis_v p c)))) pt e"
  by (cases c) (simp add: axis_v_def Let_def)

lemma dist_loop_real:
  assumes "finite_pt pt" "real_box n e" "dbl_0 \<le> d" "d \<noteq> NaN"
  shows "dbl_0 \<le> dist_loop d pt e \<and> dist_loop d pt e \<noteq> NaN"
  using assms
proof (induction e arbitrary: pt d n)
  case (Cons c e)
  show ?case
  proof (cases pt)
    case (Cons p ps)
    obtain a where p: "p = Fin a" "finite_pt ps" using Cons.prems(1) \<open>pt = p # ps\<close> by (auto simp: finite_pt_def)
    have r: "fst c \<noteq> NaN" "snd c \<noteq> NaN" "real_box (n - 1) e" using Cons.prems(2) by (cases c; simp add: real_box_Cons)+
    have "dsub p (axis_v p c) \<noteq> NaN" unfolding p(1) by (rule dsub_Fin_not_NaN [OF axis_real [OF r(1,2)]])
    from dmul_square_nonneg [OF this] Cons.prems(3,4) dadd_nonneg show ?thesis
      unfolding \<open>pt = p # ps\<close> dist_loop_Cons by (intro Cons.IH [OF p(2) r(3)]) auto
  qed (use Cons.prems in simp)
qed simp

lemma dist_loop_mono:
  assumes "covers E e" "finite_pt pt" "proper e" "real_box n E" "dbl_0 \<le> d" "d \<le> d'" "d' \<noteq> NaN"
  shows "dist_loop d pt E \<le> dist_loop d' pt e"
  using assms unfolding covers_def
proof (induction E e arbitrary: pt n d d' rule: list_all2_induct)
  case (Cons C E c e)
  show ?case
  proof (cases pt)
    case (Cons p ps)
    obtain a where p: "p = Fin a" using Cons.prems(1) \<open>pt = p # ps\<close> by (auto simp: finite_pt_def)
    obtain Cmn Cmx cmn cmx where c: "C = (Cmn, Cmx)" "c = (cmn, cmx)" by fastforce
    let ?D = "dsub p (axis_v p C)" and ?d = "dsub p (axis_v p c)"
    have r: "Cmn \<noteq> NaN" "Cmx \<noteq> NaN" "real_box (n - 1) E" "cmn \<noteq> NaN" "cmx \<noteq> NaN" "cmn \<le> cmx" "proper e" "Cmn \<le> cmn" "cmx \<le> Cmx"
      using Cons.prems(2,3) Cons.hyps(1) by (auto simp: c real_box_Cons proper_def)
    have m: "dmul ?D ?D \<le> dmul ?d ?d" unfolding p using r by (intro axis_mono) (simp_all add: c)
    have nz: "dbl_0 \<le> dmul ?D ?D \<and> dmul ?D ?D \<noteq> NaN" "dbl_0 \<le> dmul ?d ?d \<and> dmul ?d ?d \<noteq> NaN"
      unfolding p using r by (intro dmul_square_nonneg dsub_Fin_not_NaN axis_real; simp add: c)+
    have d: "d \<noteq> NaN" "dbl_0 \<le> d'" using Cons.prems(4-6) by (auto dest: order_trans)
    have D: "dbl_0 \<le> dadd d (dmul ?D ?D) \<and> dadd d (dmul ?D ?D) \<noteq> NaN" "dadd d' (dmul ?d ?d) \<noteq> NaN"
      using dadd_nonneg nz d Cons.prems(4,6) by auto
    have "dadd d (dmul ?D ?D) \<le> dadd d' (dmul ?d ?d)" using dadd_mono [OF Cons.prems(5) m] D by blast
    moreover have "finite_pt ps" using Cons.prems(1) \<open>pt = p # ps\<close> by (simp add: finite_pt_def)
    ultimately show ?thesis
      using Cons.IH [OF _ r(7,3), of ps "dadd d (dmul ?D ?D)" "dadd d' (dmul ?d ?d)"] D
      unfolding \<open>pt = p # ps\<close> dist_loop_Cons by blast
  qed (use Cons.prems in simp)
qed simp

lemma mindist_real: "finite_pt pt \<Longrightarrow> real_box n e \<Longrightarrow> mindist_sq pt e \<noteq> NaN"
  using dist_loop_real [of pt n e dbl_0] by (simp add: mindist_sq_def dbl_0_def)

lemma mindist_mono: "covers E e \<Longrightarrow> finite_pt pt \<Longrightarrow> proper e \<Longrightarrow> real_box n E \<Longrightarrow> mindist_sq pt E \<le> mindist_sq pt e"
  unfolding mindist_sq_def by (rule dist_loop_mono) (auto simp: dbl_0_def)

section \<open>The order of the reports\<close>

fun item_entries :: "heap_node heap_item \<Rightarrow> (box \<times> bytes) list" where
  "item_entries (d, HNode n) = rt_entries n"
| "item_entries (d, HEntry b key) = [(b, key)]"

text \<open>The distance of an item is a number and a lower bound for everything below it.\<close>

definition near_ok :: "nat \<Rightarrow> dbl list \<Rightarrow> heap_node heap_item \<Rightarrow> bool" where
  "near_ok nd pt x \<longleftrightarrow> fst x \<noteq> NaN \<and> (\<forall>e \<in> set (item_entries x). proper (fst e) \<and> fst x \<le> mindist_sq pt (fst e))
     \<and> (case snd x of HNode n \<Rightarrow> \<exists>h. rt_wf nd h n | HEntry b key \<Rightarrow> fst x = mindist_sq pt b)"

abbreviation heap_entries :: "heap_node minheap \<Rightarrow> (box \<times> bytes) multiset" where
  "heap_entries h \<equiv> \<Sum>x \<in># mset (hdata h). mset (item_entries x)"

lemma node_items_entries: "(\<Sum>x \<in># mset (node_items pt n). mset (item_entries x)) = mset (rt_entries n)"
proof (cases n)
  case (RLeaf es)
  have "(\<Sum>x\<leftarrow>node_items pt (RLeaf es). mset (item_entries x)) = mset es" by (induction es) auto
  then show ?thesis unfolding sum_items by (simp add: RLeaf)
next
  case (RInner es)
  have "(\<Sum>x\<leftarrow>node_items pt (RInner es). mset (item_entries x)) = mset (rt_entries (RInner es))" by (induction es) auto
  then show ?thesis unfolding sum_items by (simp add: RInner)
qed

lemma node_items_ok:
  assumes "rt_wf nd h n" "\<forall>e \<in> set (rt_entries n). proper (fst e)" "finite_pt pt" "x \<in> set (node_items pt n)"
  shows "near_ok nd pt x"
proof (cases n)
  case (RLeaf es)
  then obtain b key where x: "x = (mindist_sq pt b, HEntry b key)" "(b, key) \<in> set es" using assms(4) by auto
  then have "real_box nd b" "proper b" using assms(1,2) RLeaf by auto
  then show ?thesis using mindist_real [OF assms(3)] by (simp add: x near_ok_def)
next
  case (RInner es)
  then obtain b c where x: "x = (mindist_sq pt b, HNode c)" "(b, c) \<in> set es" using assms(4) by auto
  obtain h' where "h = Suc h'" using assms(1) RInner by (cases h) auto
  then have c: "b = node_recompute_mbr nd c" "rt_wf nd h' c" using assms(1) RInner x(2) by auto
  have "set (rt_entries c) \<subseteq> set (rt_entries n)" using x(2) by (auto simp: RInner)
  then show ?thesis
    using wf_mbr [OF c(2)] assms(2,3) mindist_mono mindist_real c by (fastforce simp: x near_ok_def)
qed

lemma sorted_arrangement: "\<exists>ys. mset ys = M \<and> sorted (map (f :: 'a \<Rightarrow> dbl) ys)"
  by (metis ex_mset mset_sort sorted_sort_key)

text \<open>An entry that is popped is nearest: nothing left in the heap is nearer.\<close>

lemma popped_nearest:
  assumes "\<forall>y \<in># mset (hdata h). d \<le> fst y \<and> near_ok nd pt y" "mset ys = heap_entries h" "e \<in> set ys"
  shows "d \<le> mindist_sq pt (fst e)"
proof -
  have "e \<in># heap_entries h" using assms(2,3) by (metis set_mset_mset)
  then obtain y where y: "y \<in># mset (hdata h)" "e \<in> set (item_entries y)" by (auto simp: set_mset_Union_mset)
  then show ?thesis using assms(1) by (auto simp: near_ok_def intro: order_trans)
qed

lemma nearby_loop_ok:
  assumes "finite_pt pt" "\<forall>k. mem k" "is_heap (hdata heap) \<and> numbers (hdata heap)" "\<forall>x \<in># mset (hdata heap). near_ok nd pt x"
  shows "\<exists>ys. mset ys = heap_entries heap \<and> sorted (map (\<lambda>e. mindist_sq pt (fst e)) ys)
    \<and> nearby_loop mem k pt limit heap found cb s = report cb (take (limit - found) ys) s"
  using assms
proof (induction mem k pt limit heap found cb s rule: nearby_loop.induct)
  case (1 mem k pt limit heap found cb s)
  note unf = nearby_loop.simps [of mem k pt limit heap found cb s]
  show ?case
  proof (cases "hdata heap = [] \<or> found \<ge> limit")
    case True
    then show ?thesis using sorted_arrangement [of "heap_entries heap" "\<lambda>e. mindist_sq pt (fst e)"] by (auto simp: unf)
  next
    case False
    then have ne: "mset (hdata heap) \<noteq> {#}" "hdata heap \<noteq> []" by simp_all
    obtain d i h1 where pop: "heap_pop heap = ((d, i), h1)" by (metis surj_pair)
    have m: "mset (hdata heap) = add_mset (d, i) (mset (hdata h1))" by (rule hq.items_pop [OF ne(1) pop])
    have inv: "is_heap (hdata h1) \<and> numbers (hdata h1)" by (rule hq.inv_pop [OF "1.prems"(3) ne(1) pop])
    have least: "\<forall>y \<in># mset (hdata h1). d \<le> fst y \<and> near_ok nd pt y" "near_ok nd pt (d, i)"
      using hq.pop_least [OF "1.prems"(3) ne(1) pop] "1.prems"(4) m by auto
    have rest: "\<forall>y \<in># mset (hdata h1). near_ok nd pt y" using least(1) by blast
    show ?thesis
    proof (cases i)
      case (HEntry b key)
      have take: "take (limit - found) ((b, key) # ys) = (b, key) # take (limit - Suc found) ys" for ys
        using False by (simp add: Suc_diff_Suc take_Cons')
      have d: "d = mindist_sq pt b" using least(2) by (simp add: near_ok_def HEntry)
      have entries: "heap_entries heap = add_mset (b, key) (heap_entries h1)" using m by (simp add: HEntry)
      obtain rc s' where cb: "cb b key s = (rc, s')" by fastforce
      have "\<exists>ys. mset ys = heap_entries h1 \<and> sorted (map (\<lambda>e. mindist_sq pt (fst e)) ys)
          \<and> (rc = FASTKV_OK \<longrightarrow> nearby_loop mem k pt limit h1 (Suc found) cb s' = report cb (take (limit - Suc found) ys) s')"
      proof (cases "rc = FASTKV_OK")
        case True
        then show ?thesis using "1.IH"(2) [OF False pop [symmetric] refl HEntry cb [symmetric] _ "1.prems"(1,2) inv rest] by auto
      next
        case False
        then show ?thesis using sorted_arrangement [of "heap_entries h1" "\<lambda>e. mindist_sq pt (fst e)"] by auto
      qed
      then obtain ys where ys: "mset ys = heap_entries h1" "sorted (map (\<lambda>e. mindist_sq pt (fst e)) ys)"
        "rc = FASTKV_OK \<longrightarrow> nearby_loop mem k pt limit h1 (Suc found) cb s' = report cb (take (limit - Suc found) ys) s'" by blast
      have "sorted (map (\<lambda>e. mindist_sq pt (fst e)) ((b, key) # ys))"
        using ys(2) popped_nearest [OF least(1) ys(1)] d by auto
      moreover have "nearby_loop mem k pt limit heap found cb s = report cb (take (limit - found) ((b, key) # ys)) s"
        using False ys(3) by (simp add: unf pop HEntry cb take)
      ultimately show ?thesis using ys(1) entries by (intro exI [of _ "(b, key) # ys"]) simp
    next
      case (HNode n)
      obtain k' where p: "push_all mem k h1 (node_items pt n) = Some (k', foldl heap_put h1 (node_items pt n))" (is "_ = Some (k', ?h2)")
        using push_all_mem "1.prems"(2) by blast
      obtain h where n: "rt_wf nd h n" "\<forall>e \<in> set (rt_entries n). proper (fst e)" using least(2) by (auto simp: near_ok_def HNode)
      have new: "\<forall>x \<in> set (node_items pt n). near_ok nd pt x" using node_items_ok [OF n "1.prems"(1)] by blast
      have m2: "mset (hdata ?h2) = mset (node_items pt n) + mset (hdata h1)" by (rule hq.items_puts)
      have inv2: "is_heap (hdata ?h2) \<and> numbers (hdata ?h2)" using hq.inv_puts [OF inv] new by (simp add: near_ok_def)
      have ok2: "\<forall>x \<in># mset (hdata ?h2). near_ok nd pt x" using new rest m2 by auto
      have "heap_entries ?h2 = heap_entries heap" using m m2 node_items_entries [of pt n] by (simp add: HNode)
      moreover have "nearby_loop mem k pt limit heap found cb s = nearby_loop mem k' pt limit ?h2 found cb s"
        using False by (simp add: unf pop HNode p)
      ultimately show ?thesis
        using "1.IH"(1) [OF False pop [symmetric] refl HNode p refl "1.prems"(1,2) inv2 ok2] by simp
    qed
  qed
qed

section \<open>Properties\<close>

lemma nearby_start:
  assumes "rtree_ok t" "\<forall>e \<in> set (rt_entries (rt_root t)). proper (fst e)" "finite_pt pt"
  shows "near_ok (rt_ndims t) pt (dbl_0, HNode (rt_root t))"
proof -
  obtain h where h: "rt_wf (rt_ndims t) h (rt_root t)" using assms(1) by (auto simp: rtree_ok_def)
  have "dbl_0 \<le> mindist_sq pt (fst e)" if "e \<in> set (rt_entries (rt_root t))" for e
    using dist_loop_real [OF assms(3)] wf_mbr [OF h] that by (fastforce simp: mindist_sq_def dbl_0_def)
  then show ?thesis using h assms(2) by (auto simp: near_ok_def dbl_0_def)
qed

text \<open>
  Property C18.  The nearest-neighbour search is exact: on a well-formed tree of boxes with ordered ends, for a point with finite
  coordinates and memory for the heap, there is an arrangement of all entries by increasing distance, distances being
  computed and rounded as in the code, such that the search ends and reports the first \<^verbatim>\<open>limit\<close> of them in that order, stopping
  early only when the callback returns an error.
\<close>

theorem rtree_nearby_sorted:
  assumes "rtree_ok t" "\<forall>e \<in> set (rt_entries (rt_root t)). proper (fst e)" "finite_pt pt" "length pt = rt_ndims t"
    "ne_first env" "\<forall>k. ne_push env k"
  shows "\<exists>ys. mset ys = mset (rt_entries (rt_root t)) \<and> sorted (map (\<lambda>e. mindist_sq pt (fst e)) ys)
    \<and> fastkv_rtree_nearby env t pt limit cb s = report cb (take limit ys) s"
proof -
  let ?x = "(dbl_0, HNode (rt_root t))"
  let ?h = "heap_put \<lparr>hdata = [], hcap = 0\<rparr> ?x"
  have ok: "near_ok (rt_ndims t) pt ?x" by (rule nearby_start [OF assms(1-3)])
  have m: "mset (hdata ?h) = {#?x#}" by (simp add: hq.items_put)
  have "is_heap (hdata ?h) \<and> numbers (hdata ?h)"
    by (rule hq.inv_put) (simp_all add: is_heap_def numbers_def dbl_0_def)
  moreover have "\<forall>x \<in># mset (hdata ?h). near_ok (rt_ndims t) pt x" using ok m by simp
  ultimately show ?thesis
    using nearby_loop_ok [OF assms(3,6), of ?h "rt_ndims t" 0 limit 0 cb s] assms(5) m
    by (simp add: fastkv_rtree_nearby_def heap_push_def)
qed

definition point_box :: "int \<Rightarrow> box" where
  "point_box n = [(Fin n, Fin n)]"

definition three_points :: fastkv_rtree where
  "three_points = \<lparr>rt_ndims = 1, rt_root = RLeaf [(point_box 9, [1]), (point_box 4, [2]), (point_box 6, [3])]\<rparr>"

lemma three_points_ok: "rtree_ok three_points"
proof -
  have "9 \<le> coord_max" "- coord_max \<le> 0" by (simp_all add: coord_max_def)
  then show ?thesis
    by (auto simp: rtree_ok_def three_points_def point_box_def RTREE_MAX_DIMS_def RT_M_def rt_tame_def tame_def tame_axis_def real_box_def)
qed

theorem rtree_nearby_sorted_witness:
  "\<exists>ys. length ys = 3 \<and> sorted (map (\<lambda>e. mindist_sq [Fin 5] (fst e)) ys)
     \<and> fastkv_rtree_nearby \<lparr>ne_first = True, ne_push = \<lambda>_. True\<rparr> three_points [Fin 5] 2 collect_cb [] = (FASTKV_OK, take 2 ys)"
proof -
  have e: "rt_entries (rt_root three_points) = [(point_box 9, [1]), (point_box 4, [2]), (point_box 6, [3])]" by (simp add: three_points_def)
  have "\<forall>e \<in> set (rt_entries (rt_root three_points)). proper (fst e)" by (simp add: e proper_def point_box_def)
  moreover have "finite_pt [Fin 5]" "length [Fin 5] = rt_ndims three_points" by (simp_all add: finite_pt_def three_points_def)
  ultimately obtain ys where ys: "mset ys = mset (rt_entries (rt_root three_points))" "sorted (map (\<lambda>e. mindist_sq [Fin 5] (fst e)) ys)"
      "fastkv_rtree_nearby \<lparr>ne_first = True, ne_push = \<lambda>_. True\<rparr> three_points [Fin 5] 2 collect_cb [] = report collect_cb (take 2 ys) []"
    using rtree_nearby_sorted [OF three_points_ok, of "[Fin 5]" "\<lparr>ne_first = True, ne_push = \<lambda>_. True\<rparr>" 2 collect_cb "[]"] by auto
  have "length ys = 3" using mset_eq_length [OF ys(1)] by (simp add: e)
  with ys(2,3) show ?thesis by (auto simp: report_collect)
qed

end
