(* ===== verification/Spec2Isabelle.thy ===== *)
theory Spec2Isabelle
  imports Cursor Isolation Compaction Oracle_Steps Btree_Mem Release Io_Uring Repl_Client Rtree_Nearby
begin

text \<open>
  fastkv, an embedded key-value store in C (\<open>src/src\<close>, \<open>src/include\<close>): a hash table of version chains for point
  reads under snapshot isolation, a B+ tree beside it for ordered scans, a write-ahead log, snapshots and a background
  checkpoint for durability, secondary and expiry indexes, and asynchronous replication of the log over TCP.  This
  development translates those parts to HOL and proves what makes them correct.

  \<^bold>\<open>Parts and theories.\<close>

  \<^item> \<open>Prelude\<close>: byte strings, slices (a NULL slice is \<^term>\<open>None\<close>), limits, error codes (\<open>include/fastkv/types.h\<close>, \<open>error.h\<close>),
    key comparison, lemmas shared by all.  \<open>Bytes\<close>: the byte orders of integers in files and keys.
  \<^item> \<open>Crc32\<close> (\<open>util/crc32.c\<close>): table and SSE4.2 code of CRC-32C agree; a change of one byte changes the checksum.
    \<open>Hash\<close> (\<open>util/hash.c\<close>): wyhash never reads outside the key.  \<open>Uuid7\<close> (\<open>util/uuid7\<close>): names grow with every call.
    \<open>Platform\<close>: the clocks, the entropy loop, the table of allocation functions (\<open>mem/allocator.c\<close>) and the log filter.
    \<open>Release\<close>: destroying a tree, a table, a cursor or a sender frees each of its blocks once and touches no freed block.
  \<^item> \<open>Arena\<close> (\<open>mem/arena.c\<close>): allocations do not overlap and stay inside their block.
  \<^item> \<open>Hashtable\<close> (\<open>storage/hashtable/ht.c\<close>): version chains.  The locale \<open>mvcc_store\<close> states the contract (views by
    timestamp, writes, collection) and its interpretation \<open>hts\<close> shows that the code meets it.
  \<^item> \<open>Mvcc\<close>, \<open>Txn\<close> (\<open>txn/mvcc.c\<close>, \<open>txn/txn_manager.c\<close>): the clock with its table of active transactions, write sets.
    \<open>Oracle_Steps\<close>: the oracle with every atomic access a step of any number of threads; the bound of the collector covers
    every transaction that is registered when the scan begins or begins after it.
  \<^item> \<open>Btree\<close> (\<open>index/btree/btree.c\<close>): nodes with splits and an explicit leaf chain refine a sorted association list;
    the locale and the interpretation \<open>bt\<close> carry the laws to \<open>Secondary\<close> (\<open>index/secondary.c\<close>), \<open>Json_Index\<close>
    (\<open>index/json_index.c\<close>) and \<open>Ttl\<close> (\<open>persist/ttl.c\<close>).  \<open>Btree_Mem\<close>: the insertion when allocations fail; with
    memory it is the insertion of \<open>Btree\<close>.
  \<^item> \<open>Io\<close>, \<open>Wal\<close> (\<open>persist/io.c\<close>, \<open>wal/wal.c\<close>): a disk that separates written from durable bytes and system calls that may
    fail or be short; records, buffering, segments and replay.  A synced append is durable, a torn or damaged tail is cut off.
    \<open>Io_Uring\<close> is the other branch of \<open>io.c\<close>, off by default: liburing is a record of functions with the documented laws of its
    queues (\<open>ring_laws\<close>), and no operation blocks; the rest of the development uses the POSIX branch.
  \<^item> \<open>Repl_Server\<close> (\<open>repl/repl_server.c\<close>): queues and sender threads as an inductive transition system; what is on the wire
    is a prefix of the stream owed.
  \<^item> \<open>Db\<close>, \<open>Commit\<close>, \<open>Cursor\<close> (\<open>api/kv_api.c\<close>): \<^verbatim>\<open>struct fastkv_db\<close> as a record, one definition per function.  A commit
    becomes visible as a whole at its timestamp, overlapping writers are refused, indexes and ordered tree follow the table,
    cursors list the live keys in order.
  \<^item> \<open>Snapshot\<close>, \<open>Recovery\<close>, \<open>Crash\<close>, \<open>Checkpoint\<close> (\<open>persist/snapshot.c\<close>, \<open>persist/compaction.c\<close>, \<^verbatim>\<open>fastkv_open\<close> and
    \<^verbatim>\<open>fastkv_close\<close>): snapshots round-trip and appear atomically, opening after a crash rebuilds the table and the tree
    from the log, checkpoints are invisible to readers.  \<open>Compaction\<close>: the background thread and the calls that start, pause and
    join it, as an inductive transition system.  \<open>Isolation\<close>: clients with open transactions, single-key operations and checkpoints in
    any order; every reachable state is well-formed, and a transaction with a slot reads one snapshot.
  \<^item> \<open>Double\<close>, \<open>Rtree\<close>, \<open>Rtree_Nearby\<close> (\<open>index/rtree/rtree.c\<close>): the arithmetic of C's doubles with rounding, infinities and
    NaN, and the spatial index over it.  Insertion with its split refines adding to a bag (locale \<open>spatial_index\<close>,
    interpretation \<open>rti\<close>), searches report exactly what matches, the array heap is a priority queue (locale
    \<open>min_queue\<close>, interpretation \<open>hq\<close>) and the nearest entries come in order.  No other part calls it.
  \<^item> \<open>Repl_Client\<close> (\<open>repl/repl_client.c\<close>): the replica; this theory joins it with the primary.

  \<^bold>\<open>How the code is modelled.\<close>  A struct is a record, an operation a function from the old to the new state and its error
  code.  Integers have their width (\<open>u32\<close>, \<open>u64\<close> words) where they can wrap or are stored; counts of elements in memory are
  natural numbers.  What the environment decides is an argument: results of allocations (\<open>env_ok\<close>, \<open>op_ok\<close>: all succeed), of
  system calls (\<open>os n\<close> is the outcome of call \<open>n\<close>), of \<^verbatim>\<open>send\<close> and \<^verbatim>\<open>recv\<close>, directory listings, clock and entropy.
  A read outside a buffer and a failed assertion are \<^term>\<open>None\<close>.  Operations that run under a lock, or whose atomic accesses are
  not taken apart, are one step; sequences of steps are \<open>db_run\<close> (transactions, in \<open>Crash\<close>), \<open>sys_reach\<close> (clients and
  checkpoints, in \<open>Isolation\<close>), \<open>orun\<close> (threads inside the oracle), \<open>repl_run\<close> (the primary) and \<open>bg_run\<close> (the background thread).

  \<^bold>\<open>Loops.\<close>  Loops are recursive functions with a termination proof.  Only scans that follow the leaf chain of a B+ tree take
  fuel, since a damaged chain could be cyclic: on well-formed trees the number of leaves is enough
  (\<open>btree_scan_in_order\<close>), and without enough fuel the result is \<^term>\<open>None\<close>.

  \<^bold>\<open>Defects.\<close>  Several theorems prove behaviour that the code's comments or callers do not expect: \<open>commit_first_write_wins\<close>,
  \<open>gc_hides_conflict\<close>, \<open>snapshot_loses_colliding_key\<close>, \<open>checkpoint_skips_next_commit\<close>, \<open>rtree_overflow_reads_outside\<close>,
  \<open>late_registration_loses_snapshot\<close>; smaller ones are lemmas of
  their component (\<open>torn_snapshot_hides_good\<close>, \<open>repl_enqueue_oom_gap\<close>, \<open>apply_record_overread\<close>, \<open>uring_sync_hides_failure\<close>,
  \<open>close_after_pause_undefined\<close>, \<open>root_oom_loses_half\<close>, \<open>user_allocator_resized_by_libc\<close>).  The theorems on crash
  recovery cover runs without a checkpoint, those on snapshots state when no two live keys share a bucket.

  \<^bold>\<open>Not modelled.\<close>  Releasing memory other than in \<open>Release\<close>; most tests of pointer arguments for NULL; the length of timed waits;
  the text of log messages; the effects of weak memory orders (interleavings are sequentially consistent); the tables of
  function pointers in \<open>storage_engine.h\<close> and \<open>index.h\<close>, which no code fills in; bindings, benchmarks, fuzzers and tests.  The window
  inside a begin (\<open>Oracle_Steps\<close>) is not part of the steps of \<open>Isolation\<close>, where a begin is one step.
\<close>

section \<open>Replication from end to end\<close>

lemma run_carries:
  assumes "repl_run srv h" "map f_data h = map enc rs"
  shows "carries h rs"
  unfolding carries_def list_all2_conv_all_nth
proof (intro conjI allI impI)
  show l: "length h = length rs" using assms(2) by (metis length_map)
  fix i assume "i < length h"
  then show "f_data (h ! i) = enc (rs ! i)" "f_len (h ! i) = of_nat (length (enc (rs ! i)))"
    using repl_run_lengths [OF assms(1), of "h ! i"] assms(2) l by (metis nth_map nth_mem)+
qed

lemma chrono_drop: "chrono c rs \<Longrightarrow> chrono c (drop j rs)"
  by (metis append_take_drop_id chrono_append)


text \<open>One record, queued, sent five bytes at a time and received seven bytes at a time.\<close>

definition sample_conn :: conn_env where
  "sample_conn = \<lparr>cn_recv = \<lambda>_. 7, cn_stop = \<lambda>_. False, cn_mem = \<lambda>_. True, cn_ht = \<lambda>_. mem_ok\<rparr>"

definition sample_cli :: fastkv_repl_client where
  "sample_cli = \<lparr>cli_host = [49], cli_port = 7000, cli_connected = False, cli_stop = False, bytes_received = 0, cli_primary_offset = 0\<rparr>"

definition sample_sent :: "bytes \<Rightarrow> repl_sender" where
  "sample_sent data = \<lparr>s_addr = [49], s_queue_bytes = 0, s_connected = True, s_stop = False, s_queue = [],
     s_pc = At_loop, s_wire = hello_bytes 0 @ frame_bytes (sample_queued data)\<rparr>"

lemma sample_drained:
  assumes "length data \<le> 1000"
  shows "\<exists>srv. repl_run srv [sample_queued data] \<and> senders srv = [sample_sent data]"
proof -
  let ?f = "sample_queued data" and ?rs = "\<lambda>_. 5 :: int"
  let ?s0 = "\<lparr>s_addr = [49], s_queue_bytes = of_nat (length data), s_connected = True, s_stop = False,
       s_queue = [?f], s_pc = At_loop, s_wire = hello_bytes 0\<rparr>"
  let ?s2 = "?s0\<lparr>s_queue := [], s_queue_bytes := 0, s_pc := Sending ?f\<rparr>"
  note r0 = sample_run(1) [OF assms]
  have snd0: "senders (sample_srv1 data) = [?s0]" by (rule sample_run(2) [OF assms])
  have bytes: "ucast (f_len ?f) = (of_nat (length data) :: u64)"
    using assms by (simp add: sample_queued_def unsigned_of_nat take_bit_nat_eq_self)
  obtain j where j: "send_all ?rs 0 (hdr_bytes (frame_hdr ?f)) = (True, hdr_bytes (frame_hdr ?f), j)"
    using send_all_short [of 5 0 "hdr_bytes (frame_hdr ?f)"] by auto
  obtain j' where "send_all ?rs j (f_data ?f) = (True, f_data ?f, j')" using send_all_short [of 5 j "f_data ?f"] by auto
  with j have sent: "send_frame ?rs ?f = (True, frame_bytes ?f)" by (simp add: send_frame_def frame_bytes_def)
  have r1: "repl_run ((sample_srv1 data)\<lparr>senders := [?s0\<lparr>s_pc := Waiting\<rparr>]\<rparr>) [?f]"
    using repl_run.thread [OF r0, of 0 ?rs "?s0\<lparr>s_pc := Waiting\<rparr>"] by (simp add: snd0 sender_step_def)
  have r2: "repl_run ((sample_srv1 data)\<lparr>senders := [?s2]\<rparr>) [?f]"
    using repl_run.thread [OF r1, of 0 ?rs ?s2] by (simp add: sender_step_def bytes)
  have "repl_run ((sample_srv1 data)\<lparr>senders := [sample_sent data]\<rparr>) [?f]"
    using repl_run.thread [OF r2, of 0 ?rs "sample_sent data"] by (simp add: sender_step_def sent Let_def sample_sent_def)
  then show ?thesis by (intro exI) auto
qed


end
